(* ===== verification/Prelude.thy ===== *)
theory Prelude
  imports Main "HOL-Library.Word"
begin

text \<open>
  Shared vocabulary of the development: the types that several components use (error numbers,
  file descriptors, byte strings, results of system calls), the numeric values of the errors and
  limits the C sources compare against, the collections of rewrite rules that the component
  proofs draw on, and generic lemmas on lists and options.

  Conventions.  A C string is a \<^typ>\<open>string\<close> holding the bytes before the terminating null byte.
  A call that returns \<open>-1\<close> and sets \<open>errno\<close> is a value \<^term>\<open>Inl e\<close>; a successful call is
  \<^term>\<open>Inr v\<close>.  Code outside the repository (the kernel, the password database) is an argument
  of the definitions that call it, threaded through an abstract world of type \<open>'w\<close>.
\<close>

type_synonym errno = int
type_synonym fd = int
type_synonym 'a sysres = "errno + 'a"

text \<open>Collections used by the component theories.\<close>

named_theorems cstring_simps \<open>evaluation of the modelled C string functions\<close>
named_theorems errno_defs \<open>numeric values of errno constants\<close>

text \<open>Error numbers, with the values of the Linux ABI.\<close>

definition ENOENT :: errno where [errno_defs]: "ENOENT = 2"
definition EINTR :: errno where [errno_defs]: "EINTR = 4"
definition EBADF :: errno where [errno_defs]: "EBADF = 9"
definition ENOMEM :: errno where [errno_defs]: "ENOMEM = 12"
definition EEXIST :: errno where [errno_defs]: "EEXIST = 17"
definition EINVAL :: errno where [errno_defs]: "EINVAL = 22"
definition EMFILE :: errno where [errno_defs]: "EMFILE = 24"
definition ERANGE :: errno where [errno_defs]: "ERANGE = 34"

definition INT_MAX :: int where "INT_MAX = 2147483647"
definition INT_MIN :: int where "INT_MIN = -2147483648"
definition LONG_MAX :: int where "LONG_MAX = 9223372036854775807"
definition LONG_MIN :: int where "LONG_MIN = -9223372036854775808"

lemmas c_limits = INT_MAX_def INT_MIN_def LONG_MAX_def LONG_MIN_def

text \<open>
  How a piece of code that may end the process finishes: it returns a value, or the process has
  terminated through \<open>exit\<close> or \<open>_exit\<close> with a status, or through \<open>abort\<close>, or the behaviour is
  undefined (a null dereference, a read of freed memory).
\<close>

datatype 'a outcome = Returns 'a | Exits int | Aborts | Undefined

text \<open>
  Sequencing of code that may end the process: the rest runs only when the first part returns.
\<close>

fun andthen :: "'a outcome \<times> 's \<Rightarrow> ('a \<Rightarrow> 's \<Rightarrow> 'b outcome \<times> 's) \<Rightarrow> 'b outcome \<times> 's" where
  "andthen (Returns x, s) k = k x s"
| "andthen (Exits c, s) k = (Exits c, s)"
| "andthen (Aborts, s) k = (Aborts, s)"
| "andthen (Undefined, s) k = (Undefined, s)"

lemma andthen_snd_inv:
  "I (snd m) \<Longrightarrow> (\<And>x s. m = (Returns x, s) \<Longrightarrow> I (snd (k x s))) \<Longrightarrow> I (snd (andthen m k))"
  by (cases "(m, k)" rule: andthen.cases) auto

lemma andthen_Returns_iff:
  "andthen m k = (Returns y, t) \<longleftrightarrow> (\<exists>x s. m = (Returns x, s) \<and> k x s = (Returns y, t))"
  by (cases "(m, k)" rule: andthen.cases) auto

text \<open>Generic facts on lists.\<close>

lemma takeWhile_all_append:
  "(\<And>x. x \<in> set xs \<Longrightarrow> P x) \<Longrightarrow> takeWhile P (xs @ ys) = xs @ takeWhile P ys"
  by (induction xs) auto

lemma dropWhile_all_append:
  "(\<And>x. x \<in> set xs \<Longrightarrow> P x) \<Longrightarrow> dropWhile P (xs @ ys) = dropWhile P ys"
  by (induction xs) auto

lemma takeWhile_append_stop:
  "(\<And>x. x \<in> set xs \<Longrightarrow> P x) \<Longrightarrow> \<not> P y \<Longrightarrow> takeWhile P (xs @ y # ys) = xs"
  by (induction xs) auto

lemma dropWhile_append_stop:
  "(\<And>x. x \<in> set xs \<Longrightarrow> P x) \<Longrightarrow> \<not> P y \<Longrightarrow> dropWhile P (xs @ y # ys) = y # ys"
  by (induction xs) auto

text \<open>Appending to a buffer of bounded size drops what does not fit.\<close>

lemma take_append_bounded:
  "length xs \<le> n \<Longrightarrow> take n (xs @ y # ys) = take n ((if length xs < n then xs @ [y] else xs) @ ys)"
  by (auto simp: take_Cons' Suc_diff_Suc)

text \<open>A concatenation determines its pieces when their lengths are known.\<close>

lemma concat_eq_lengths: "map length xs = map length ys \<Longrightarrow> concat xs = concat ys \<Longrightarrow> xs = ys"
proof (induction xs arbitrary: ys)
  case Nil
  then show ?case by simp
next
  case (Cons x xs)
  then obtain y ys' where "ys = y # ys'" by (cases ys) auto
  with Cons show ?case by auto
qed

end
