(* ===== verification/C_String.thy ===== *)
theory C_String
  imports Prelude
begin

text \<open>
  The part of the C standard library on strings and numbers that the sources call: character
  classes, \<open>strchr\<close> as a split, \<open>strncmp\<close> as a prefix test, \<open>snprintf\<close>'s truncation, \<open>strtol\<close> with
  its end pointer and range error, \<open>atoi\<close>, and the digits that \<open>%d\<close> and \<open>%x\<close> print.  The main
  facts are that \<open>strtol\<close> reads back what is printed in a base and stops at the first character
  that is no digit.
\<close>

unbundle bit_operations_syntax

subsection \<open>Characters\<close>

definition isspace :: "char \<Rightarrow> bool" where
  "isspace c \<longleftrightarrow> (let n = (of_char c :: nat) in n = 32 \<or> (9 \<le> n \<and> n \<le> 13))"

definition isdigit :: "char \<Rightarrow> bool" where
  "isdigit c \<longleftrightarrow> (let n = (of_char c :: nat) in 48 \<le> n \<and> n \<le> 57)"

text \<open>The value of a character as a digit; 99 when it is no digit of any base.\<close>

definition digit_num :: "char \<Rightarrow> nat" where
  "digit_num c =
     (let n = of_char c
      in if 48 \<le> n \<and> n \<le> 57 then n - 48
         else if 97 \<le> n \<and> n \<le> 122 then n - 87
         else if 65 \<le> n \<and> n \<le> 90 then n - 55
         else 99)"

definition digit_char :: "nat \<Rightarrow> char" where
  "digit_char d = char_of (if d < 10 then 48 + d else 87 + d)"

lemma digit_num_digit_char [simp]: "d < 36 \<Longrightarrow> digit_num (digit_char d) = d"
  by (auto simp: digit_num_def digit_char_def Let_def)

lemma of_char_digit_char: "d < 36 \<Longrightarrow> of_char (digit_char d) = (if d < 10 then 48 + d else 87 + d)"
  by (auto simp: digit_char_def)

lemma not_isspace_digit_char [simp]: "d < 36 \<Longrightarrow> \<not> isspace (digit_char d)"
  by (auto simp: isspace_def of_char_digit_char Let_def)

lemma digit_char_neq:
  assumes "d < 36" and "n < 48 \<or> (57 < n \<and> n < 97)" and "of_char c = (n::nat)"
  shows "digit_char d \<noteq> c"
proof
  assume "digit_char d = c"
  with assms have "n = (if d < 10 then 48 + d else 87 + d)"
    using of_char_digit_char [of d] by simp
  with assms(2) show False by (simp split: if_splits)
qed

subsection \<open>Searching and comparing\<close>

text \<open>
  \<open>strchr s c\<close> as the sources use it: the text before the first \<open>c\<close> and, when there is one, the
  text after it (the pointer plus one).
\<close>

fun split_at :: "char \<Rightarrow> string \<Rightarrow> string \<times> string option" where
  "split_at c [] = ([], None)"
| "split_at c (x # s) = (if x = c then ([], Some s) else apfst (Cons x) (split_at c s))"

lemma split_at_notin [cstring_simps]: "c \<notin> set s \<Longrightarrow> split_at c s = (s, None)"
  by (induction s) auto

lemma split_at_append [cstring_simps]: "c \<notin> set s \<Longrightarrow> split_at c (s @ c # t) = (s, Some t)"
  by (induction s) auto

lemma split_at_None: "split_at c s = (p, None) \<Longrightarrow> p = s \<and> c \<notin> set s"
  by (induction s arbitrary: p) (auto split: if_splits simp: apfst_def map_prod_def split: prod.splits)

lemma split_at_Some: "split_at c s = (p, Some t) \<Longrightarrow> s = p @ c # t \<and> c \<notin> set p"
  by (induction s arbitrary: p) (auto split: if_splits simp: apfst_def map_prod_def split: prod.splits)

text \<open>\<open>strncmp(p, s, strlen(p)) == 0\<close>: \<open>p\<close> is a prefix of \<open>s\<close>.\<close>

fun has_prefix :: "string \<Rightarrow> string \<Rightarrow> bool" where
  "has_prefix [] s = True"
| "has_prefix (c # p) [] = False"
| "has_prefix (c # p) (d # s) = (c = d \<and> has_prefix p s)"

lemma has_prefix_iff: "has_prefix p s \<longleftrightarrow> (\<exists>t. s = p @ t)"
  by (induction p s rule: has_prefix.induct) auto

lemma has_prefix_append [simp]: "has_prefix p (p @ t)"
  by (simp add: has_prefix_iff)

text \<open>What \<open>snprintf(buf, n, "%s", s)\<close> leaves in \<open>buf\<close>.\<close>

definition snprintf :: "nat \<Rightarrow> string \<Rightarrow> string" where
  "snprintf n s = take (n - 1) s"

lemma length_snprintf: "0 < n \<Longrightarrow> length (snprintf n s) < n"
  by (auto simp: snprintf_def)

lemma snprintf_short [simp]: "length s < n \<Longrightarrow> snprintf n s = s"
  by (simp add: snprintf_def)

subsection \<open>Printing numbers\<close>

fun show_base :: "nat \<Rightarrow> nat \<Rightarrow> string" where
  "show_base b n =
     (if n < b \<or> b < 2 then [digit_char n] else show_base b (n div b) @ [digit_char (n mod b)])"

declare show_base.simps [simp del]

definition show_int :: "int \<Rightarrow> string" where
  "show_int i = (if i < 0 then CHR ''-'' # show_base 10 (nat (- i)) else show_base 10 (nat i))"

definition digits_value :: "nat \<Rightarrow> string \<Rightarrow> nat" where
  "digits_value b ds = foldl (\<lambda>a c. a * b + digit_num c) 0 ds"

lemma digits_value_snoc [simp]: "digits_value b (ds @ [c]) = digits_value b ds * b + digit_num c"
  by (simp add: digits_value_def)

definition valid_digit :: "nat \<Rightarrow> char \<Rightarrow> bool" where
  "valid_digit b c \<longleftrightarrow> digit_num c < b"

lemma valid_digit_digit_char [simp]: "b \<le> 36 \<Longrightarrow> d < b \<Longrightarrow> valid_digit b (digit_char d)"
  by (simp add: valid_digit_def)

lemma show_base_nonempty [simp]: "show_base b n \<noteq> []"
  by (subst show_base.simps) simp

lemma show_base_digits:
  "2 \<le> b \<Longrightarrow> c \<in> set (show_base b n) \<Longrightarrow> \<exists>d < b. c = digit_char d"
proof (induction b n rule: show_base.induct)
  case (1 b n)
  show ?case
  proof (cases "n < b \<or> b < 2")
    case True
    with 1 show ?thesis by (auto simp: show_base.simps [of b n])
  next
    case False
    with "1.prems" have "c \<in> set (show_base b (n div b)) \<or> c = digit_char (n mod b)"
      by (auto simp: show_base.simps [of b n])
    then show ?thesis
    proof
      assume "c \<in> set (show_base b (n div b))"
      with False "1.IH" "1.prems" show ?thesis by simp
    next
      assume "c = digit_char (n mod b)"
      moreover have "n mod b < b" using "1.prems" by simp
      ultimately show ?thesis by blast
    qed
  qed
qed

lemma digits_value_show_base:
  "2 \<le> b \<Longrightarrow> b \<le> 36 \<Longrightarrow> digits_value b (show_base b n) = n"
proof (induction b n rule: show_base.induct)
  case (1 b n)
  show ?case
  proof (cases "n < b")
    case True
    with 1 show ?thesis by (simp add: show_base.simps [of b n] digits_value_def)
  next
    case False
    with 1 have "digits_value b (show_base b (n div b)) = n div b" by simp
    moreover have "n mod b < 36" using "1.prems" mod_less_divisor [of b n] by linarith
    ultimately show ?thesis using False 1
      by (simp add: show_base.simps [of b n])
  qed
qed

subsection \<open>strtol and atoi\<close>

text \<open>
  \<open>strtol(s, &end, base)\<close>: skip white space, an optional sign, the \<open>0x\<close> prefix of base 16 (and,
  for base 0, the choice of base by prefix), then the longest run of digits.  The result is the
  value, the text from \<open>end\<close> on, and whether \<open>errno\<close> is \<open>ERANGE\<close>; without digits the value is 0
  and \<open>end\<close> is the start of the string.
\<close>

definition strip_sign :: "string \<Rightarrow> bool \<times> string" where
  "strip_sign s =
     (case s of [] \<Rightarrow> (False, [])
      | c # t \<Rightarrow> if c = CHR ''-'' then (True, t) else if c = CHR ''+'' then (False, t) else (False, s))"

definition hex_prefixed :: "string \<Rightarrow> bool" where
  "hex_prefixed s =
     (case s of z # x # d # _ \<Rightarrow> z = CHR ''0'' \<and> (x = CHR ''x'' \<or> x = CHR ''X'') \<and> valid_digit 16 d
      | _ \<Rightarrow> False)"

definition strtol_base :: "nat \<Rightarrow> string \<Rightarrow> nat" where
  "strtol_base base s =
     (if base \<noteq> 0 then base
      else if hex_prefixed s then 16
      else if s \<noteq> [] \<and> hd s = CHR ''0'' then 8 else 10)"

definition strtol :: "nat \<Rightarrow> string \<Rightarrow> int \<times> string \<times> bool" where
  "strtol base s =
     (let (neg, body) = strip_sign (dropWhile isspace s);
          b = strtol_base base body;
          body' = (if b = 16 \<and> hex_prefixed body then drop 2 body else body);
          ds = takeWhile (valid_digit b) body';
          v = (if neg then - int (digits_value b ds) else int (digits_value b ds))
      in if ds = [] then (0, s, False)
         else if v > LONG_MAX then (LONG_MAX, dropWhile (valid_digit b) body', True)
         else if v < LONG_MIN then (LONG_MIN, dropWhile (valid_digit b) body', True)
         else (v, dropWhile (valid_digit b) body', False))"

text \<open>The conversion of a \<open>long\<close> to a 32-bit \<open>int\<close>, and \<open>atoi\<close>, which is \<open>(int) strtol(s, NULL, 10)\<close>.\<close>

definition to_int32 :: "int \<Rightarrow> int" where
  "to_int32 v = (v + 2147483648) mod 4294967296 - 2147483648"

definition atoi :: "string \<Rightarrow> int" where
  "atoi s = to_int32 (fst (strtol 10 s))"

lemma to_int32_id [simp]: "INT_MIN \<le> v \<Longrightarrow> v \<le> INT_MAX \<Longrightarrow> to_int32 v = v"
  by (simp add: to_int32_def c_limits)

lemma to_int32_range: "INT_MIN \<le> to_int32 v \<and> to_int32 v \<le> INT_MAX"
  using pos_mod_bound [of 4294967296 "v + 2147483648"] pos_mod_sign [of 4294967296 "v + 2147483648"]
  by (auto simp: to_int32_def c_limits simp del: pos_mod_bound pos_mod_sign)

lemma strtol_range: "LONG_MIN \<le> fst (strtol b s) \<and> fst (strtol b s) \<le> LONG_MAX"
  by (auto simp: strtol_def Let_def c_limits split: prod.splits)

text \<open>Reading back printed digits, whatever follows them.\<close>

lemma dropWhile_isspace_show_base [simp]:
  assumes "2 \<le> b" "b \<le> 36"
  shows "dropWhile isspace (show_base b n @ t) = show_base b n @ t"
proof -
  obtain c cs where c: "show_base b n = c # cs"
    by (meson neq_Nil_conv show_base_nonempty)
  then obtain d where "d < b" "c = digit_char d" using show_base_digits [OF assms(1), of c n] by auto
  with assms c show ?thesis by simp
qed

lemma strip_sign_show_base [simp]:
  assumes "2 \<le> b" "b \<le> 36"
  shows "strip_sign (show_base b n @ t) = (False, show_base b n @ t)"
proof -
  obtain c cs where c: "show_base b n = c # cs"
    by (meson neq_Nil_conv show_base_nonempty)
  then obtain d where d: "d < b" "c = digit_char d" using show_base_digits [OF assms(1), of c n] by auto
  then have "c \<noteq> CHR ''-''" "c \<noteq> CHR ''+''"
    using digit_char_neq [of d 45] digit_char_neq [of d 43] assms by auto
  with c show ?thesis by (simp add: strip_sign_def)
qed

lemma valid_digit_mono: "valid_digit b c \<Longrightarrow> b \<le> b' \<Longrightarrow> valid_digit b' c"
  by (simp add: valid_digit_def)

lemma hex_prefixed_show_base [simp]:
  assumes "2 \<le> b" "b \<le> 33" "t = [] \<or> \<not> valid_digit 36 (hd t)"
  shows "\<not> hex_prefixed (show_base b n @ t)"
proof
  assume "hex_prefixed (show_base b n @ t)"
  then obtain z x d u where s: "show_base b n @ t = z # x # d # u" and x: "x = CHR ''x'' \<or> x = CHR ''X''"
    by (auto simp: hex_prefixed_def split: list.splits)
  from x have 33: "digit_num x = 33" by (auto simp: digit_num_def)
  show False
  proof (cases "x \<in> set (show_base b n)")
    case True
    then obtain k where "k < b" "x = digit_char k" using show_base_digits assms(1) by blast
    with 33 assms(2) show ?thesis by simp
  next
    case False
    with s have "t \<noteq> [] \<and> hd t = x"
      by (cases "show_base b n"; cases "tl (show_base b n)") auto
    with 33 assms(3) show ?thesis by (simp add: valid_digit_def)
  qed
qed

lemma takeWhile_show_base:
  assumes "2 \<le> b" "b \<le> 36" "t = [] \<or> \<not> valid_digit 36 (hd t)"
  shows "takeWhile (valid_digit b) (show_base b n @ t) = show_base b n"
    and "dropWhile (valid_digit b) (show_base b n @ t) = t"
proof -
  have all: "valid_digit b c" if "c \<in> set (show_base b n)" for c
    using show_base_digits [OF assms(1) that] assms(2) by auto
  from assms(3) assms(2) have "t = [] \<or> \<not> valid_digit b (hd t)"
    by (auto dest: valid_digit_mono)
  then show "takeWhile (valid_digit b) (show_base b n @ t) = show_base b n"
    and "dropWhile (valid_digit b) (show_base b n @ t) = t"
    using all by (cases t; simp add: takeWhile_all_append dropWhile_all_append)+
qed

text \<open>
  \<open>strtol\<close> in a given base on a printed number that fits a \<open>long\<close>: the number, and the end pointer
  at what follows it.
\<close>

lemma strtol_show_base:
  assumes "2 \<le> b" "b \<le> 33" "t = [] \<or> \<not> valid_digit 36 (hd t)" "int n \<le> LONG_MAX"
  shows "strtol b (show_base b n @ t) = (int n, t, False)"
  using assms takeWhile_show_base [of b t n]
  by (simp add: strtol_def strtol_base_def Let_def digits_value_show_base c_limits)

lemma strtol_neg_show_base:
  assumes "2 \<le> b" "b \<le> 33" "t = [] \<or> \<not> valid_digit 36 (hd t)" "LONG_MIN \<le> - int n"
  shows "strtol b (CHR ''-'' # show_base b n @ t) = (- int n, t, False)"
proof -
  have "dropWhile isspace (CHR ''-'' # u) = CHR ''-'' # u" for u
    by (simp add: isspace_def)
  moreover have "strip_sign (CHR ''-'' # u) = (True, u)" for u
    by (simp add: strip_sign_def)
  ultimately show ?thesis
    using assms takeWhile_show_base [of b t n]
    by (simp add: strtol_def strtol_base_def Let_def digits_value_show_base c_limits)
qed

lemma strtol_show_int:
  assumes "LONG_MIN \<le> i" "i \<le> LONG_MAX" "t = [] \<or> \<not> valid_digit 36 (hd t)"
  shows "strtol 10 (show_int i @ t) = (i, t, False)"
  using assms strtol_show_base [of 10 t "nat i"] strtol_neg_show_base [of 10 t "nat (- i)"]
  by (auto simp: show_int_def)

lemma atoi_show_int:
  assumes "INT_MIN \<le> i" "i \<le> INT_MAX" "t = [] \<or> \<not> valid_digit 36 (hd t)"
  shows "atoi (show_int i @ t) = i"
  using assms strtol_show_int [of i t] by (simp add: atoi_def c_limits)

lemma show_int_nonempty [simp]: "show_int i \<noteq> []"
  by (simp add: show_int_def)

lemma show_int_chars: "c \<in> set (show_int i) \<Longrightarrow> c = CHR ''-'' \<or> (\<exists>d < 10. c = digit_char d)"
  using show_base_digits [of 10 c] by (auto simp: show_int_def split: if_splits)

lemma show_int_notin:
  assumes "of_char c < (45::nat) \<or> (45 < (of_char c :: nat) \<and> of_char c < (48::nat)) \<or>
    (57 < (of_char c :: nat) \<and> of_char c < (97::nat))"
  shows "c \<notin> set (show_int i)"
proof
  assume "c \<in> set (show_int i)"
  from show_int_chars [OF this] show False
  proof
    assume "c = CHR ''-''"
    with assms show False by simp
  next
    assume "\<exists>d < 10. c = digit_char d"
    then obtain d where "d < 10" "c = digit_char d" by blast
    with assms show False using of_char_digit_char [of d] by auto
  qed
qed

end
