(* ===== verification/Get_Num.thy ===== *)
theory Get_Num
  imports C_String
begin

text \<open>
  \<open>tlpi-dist/lib/get_num.c\<close>: conversion of numeric command-line arguments.  A call either returns
  the number or prints a diagnostic on standard error and exits with status 1; the model returns
  the number or the diagnostic text.  The lemmas characterise exactly which arguments are accepted
  under each flag, show that printed numbers are read back in the three bases, and that \<open>getInt\<close>
  never truncates.
\<close>

unbundle bit_operations_syntax

subsection \<open>Flags of get\_num.h\<close>

definition GN_NONNEG :: int where "GN_NONNEG = 1"
definition GN_GT_0 :: int where "GN_GT_0 = 2"
definition GN_ANY_BASE :: int where "GN_ANY_BASE = 64"
definition GN_BASE_8 :: int where "GN_BASE_8 = 128"
definition GN_BASE_16 :: int where "GN_BASE_16 = 256"

lemmas gn_flags = GN_NONNEG_def GN_GT_0_def GN_ANY_BASE_def GN_BASE_8_def GN_BASE_16_def

definition gn_set :: "int \<Rightarrow> int \<Rightarrow> bool" where
  "gn_set flags f \<longleftrightarrow> flags AND f \<noteq> 0"

subsection \<open>The conversion\<close>

text \<open>The text that \<open>gnFail\<close> prints before it exits.  A null \<open>arg\<close> or \<open>name\<close> is \<^const>\<open>None\<close>.\<close>

definition gnFail :: "string \<Rightarrow> string \<Rightarrow> string option \<Rightarrow> string option \<Rightarrow> string" where
  "gnFail fname msg arg name =
     fname @ '' error''
     @ (case name of None \<Rightarrow> [] | Some nm \<Rightarrow> '' (in '' @ nm @ '')'')
     @ '': '' @ msg @ ''\<newline>''
     @ (case arg of None \<Rightarrow> [] | Some a \<Rightarrow>
          if a = [] then [] else ''        offending text: '' @ a @ ''\<newline>'')"

definition gn_base :: "int \<Rightarrow> nat" where
  "gn_base flags =
     (if gn_set flags GN_ANY_BASE then 0
      else if gn_set flags GN_BASE_8 then 8
      else if gn_set flags GN_BASE_16 then 16 else 10)"

definition getNum :: "string \<Rightarrow> string option \<Rightarrow> int \<Rightarrow> string option \<Rightarrow> string + int" where
  "getNum fname arg flags name =
     (case arg of
        None \<Rightarrow> Inl (gnFail fname ''null or empty string'' arg name)
      | Some a \<Rightarrow>
          if a = [] then Inl (gnFail fname ''null or empty string'' arg name)
          else
            (let (res, endptr, erange) = strtol (gn_base flags) a
             in if erange then Inl (gnFail fname ''strtol() failed'' arg name)
                else if endptr \<noteq> [] then Inl (gnFail fname ''nonnumeric characters'' arg name)
                else if gn_set flags GN_NONNEG \<and> res < 0
                  then Inl (gnFail fname ''negative value not allowed'' arg name)
                else if gn_set flags GN_GT_0 \<and> res \<le> 0
                  then Inl (gnFail fname ''value must be > 0'' arg name)
                else Inr res))"

definition getLong :: "string option \<Rightarrow> int \<Rightarrow> string option \<Rightarrow> string + int" where
  "getLong arg flags name = getNum ''getLong'' arg flags name"

definition getInt :: "string option \<Rightarrow> int \<Rightarrow> string option \<Rightarrow> string + int" where
  "getInt arg flags name =
     (case getNum ''getInt'' arg flags name of
        Inl e \<Rightarrow> Inl e
      | Inr res \<Rightarrow>
          if res > INT_MAX \<or> res < INT_MIN
          then Inl (gnFail ''getInt'' ''integer out of range'' arg name)
          else Inr (to_int32 res))"

subsection \<open>What is accepted\<close>

text \<open>Everything that a successful \<open>getNum\<close> promises its caller.\<close>

lemma getNum_accepts_iff:
  "getNum fname arg flags name = Inr v \<longleftrightarrow>
     (\<exists>a. arg = Some a \<and> a \<noteq> [] \<and> strtol (gn_base flags) a = (v, [], False)
        \<and> (gn_set flags GN_NONNEG \<longrightarrow> 0 \<le> v) \<and> (gn_set flags GN_GT_0 \<longrightarrow> 0 < v))"
  by (auto simp: getNum_def Let_def split: option.splits prod.splits)

lemma getNum_range:
  "getNum fname arg flags name = Inr v \<Longrightarrow> LONG_MIN \<le> v \<and> v \<le> LONG_MAX"
  using strtol_range [of "gn_base flags" "the arg"] by (auto simp: getNum_accepts_iff)

text \<open>The three bases in which a number can be written out and read back.\<close>

lemma getNum_show_base:
  assumes b: "gn_base flags = b" "b = 8 \<or> b = 10 \<or> b = 16"
    and n: "int n \<le> LONG_MAX" "gn_set flags GN_GT_0 \<longrightarrow> 0 < n"
  shows "getNum fname (Some (show_base b n)) flags name = Inr (int n)"
  using assms strtol_show_base [of b "[]" n] by (auto simp: getNum_accepts_iff)

lemma getNum_show_int:
  assumes "LONG_MIN \<le> i" "i \<le> LONG_MAX" "gn_base flags = 10"
    "gn_set flags GN_NONNEG \<longrightarrow> 0 \<le> i" "gn_set flags GN_GT_0 \<longrightarrow> 0 < i"
  shows "getNum fname (Some (show_int i)) flags name = Inr i"
  using assms strtol_show_int [of i "[]"] by (auto simp: getNum_accepts_iff)

lemma gn_base_0 [simp]: "gn_base 0 = 10" "\<not> gn_set 0 f"
  by (simp_all add: gn_base_def gn_set_def)

lemma gn_base_8 [simp]: "gn_base GN_BASE_8 = 8"
  by (simp add: gn_base_def gn_set_def gn_flags)

lemma gn_base_16 [simp]: "gn_base GN_BASE_16 = 16"
  by (simp add: gn_base_def gn_set_def gn_flags)

lemma gn_set_bases [simp]:
  "\<not> gn_set GN_BASE_8 GN_NONNEG" "\<not> gn_set GN_BASE_8 GN_GT_0"
  "\<not> gn_set GN_BASE_16 GN_NONNEG" "\<not> gn_set GN_BASE_16 GN_GT_0"
  by (simp_all add: gn_set_def gn_flags)

subsection \<open>Properties\<close>

text \<open>
  C33: every \<open>long\<close>, written in decimal as \<open>%d\<close> prints it, is read back by \<open>getLong\<close> with no flags;
  and every non-negative \<open>long\<close> written in octal or in hexadecimal is read back under
  \<open>GN_BASE_8\<close> or \<open>GN_BASE_16\<close>.
\<close>

theorem getLong_roundtrip:
  assumes "LONG_MIN \<le> i" "i \<le> LONG_MAX"
  shows "getLong (Some (show_int i)) 0 name = Inr i
    \<and> (0 \<le> i \<longrightarrow> getLong (Some (show_base 8 (nat i))) GN_BASE_8 name = Inr i
              \<and> getLong (Some (show_base 16 (nat i))) GN_BASE_16 name = Inr i)"
  using assms getNum_show_int [of i 0] getNum_show_base [of GN_BASE_8 8 "nat i"]
    getNum_show_base [of GN_BASE_16 16 "nat i"]
  by (simp_all add: getLong_def)

theorem getLong_roundtrip_witness:
  "getLong (Some (show_int (-42))) 0 None = Inr (-42)
   \<and> getLong (Some (show_base 8 (nat 255))) GN_BASE_8 None = Inr 255
   \<and> getLong (Some (show_base 16 (nat 255))) GN_BASE_16 None = Inr 255"
proof -
  have "LONG_MIN \<le> -42" "-42 \<le> LONG_MAX" "LONG_MIN \<le> 255" "255 \<le> LONG_MAX" "(0::int) \<le> 255"
    by (simp_all add: c_limits)
  then show ?thesis using getLong_roundtrip [of "-42"] getLong_roundtrip [of 255] by blast
qed

text \<open>
  \<open>getInt\<close> returns exactly the numbers that \<open>getNum\<close> accepts and that fit an \<open>int\<close>, unchanged
  (the final cast never truncates); a number outside \<open>int\<close> ends in the diagnostic
  ``integer out of range'' naming the offending text.
\<close>

theorem getInt_exact:
  "(getInt arg flags name = Inr v) =
     (getNum ''getInt'' arg flags name = Inr v \<and> INT_MIN \<le> v \<and> v \<le> INT_MAX)"
  by (auto simp: getInt_def split: sum.splits if_splits)

text \<open>
  Under \<open>GN_GT_0\<close> a returned number is positive, under \<open>GN_NONNEG\<close> it is not negative, the
  argument was not empty, and \<open>strtol\<close> consumed all of it without a range error; conversely
  each such argument is accepted.
\<close>

theorem getNum_accepts:
  "(getNum fname (Some a) flags name = Inr v) =
     (a \<noteq> [] \<and> strtol (gn_base flags) a = (v, [], False)
      \<and> \<not> (gn_set flags GN_NONNEG \<and> v < 0) \<and> \<not> (gn_set flags GN_GT_0 \<and> v \<le> 0))"
  by (auto simp: getNum_accepts_iff)

end
