(* ===== verification/Error_Functions.thy ===== *)
theory Error_Functions
  imports C_String
begin

text \<open>
  \<open>tlpi-dist/lib/error_functions.c\<close>: the diagnostic routines that every program of the repository
  uses.  The state is what a caller can observe: \<open>errno\<close>, the part of standard output that is still
  in the stdio buffer, and what has reached the two streams.  The error names (\<open>ename.c.inc\<close> is
  generated at build time), \<open>strerror\<close> and the environment are arguments.  The formatted message
  of the caller is an argument too, since \<open>printf\<close> formatting is not specific to these routines.
\<close>

record proc_io =
  io_errno :: errno
  io_pending :: string    \<comment> \<open>written to stdout, not yet flushed\<close>
  io_stdout :: string
  io_stderr :: string

record err_texts =
  ename :: "int \<Rightarrow> string"
  max_ename :: int
  strerror :: "int \<Rightarrow> string"

definition BUF_SIZE :: nat where "BUF_SIZE = 500"

definition flush_stdout :: "proc_io \<Rightarrow> proc_io" where
  "flush_stdout s = s\<lparr>io_stdout := io_stdout s @ io_pending s, io_pending := []\<rparr>"

definition put_stderr :: "string \<Rightarrow> proc_io \<Rightarrow> proc_io" where
  "put_stderr t s = s\<lparr>io_stderr := io_stderr s @ t\<rparr>"

text \<open>
  \<open>dump\<close> is \<open>getenv("EF_DUMPCORE")\<close>.  \<open>exit\<close> flushes the stdio buffers, \<open>_exit\<close> and \<open>abort\<close> do not.
\<close>

definition terminate :: "string option \<Rightarrow> bool \<Rightarrow> proc_io \<Rightarrow> unit outcome \<times> proc_io" where
  "terminate dump useExit3 s =
     (if dump \<noteq> None \<and> dump \<noteq> Some [] then (Aborts, s)
      else if useExit3 then (Exits 1, flush_stdout s)
      else (Exits 1, s))"

definition errText :: "err_texts \<Rightarrow> bool \<Rightarrow> int \<Rightarrow> string" where
  "errText E useErr err =
     (if useErr
      then snprintf BUF_SIZE ('' ['' @ (if err > 0 \<and> err \<le> max_ename E then ename E err else ''?UNKNOWN?'')
             @ '' '' @ strerror E err @ '']'')
      else snprintf BUF_SIZE '':'')"

definition error_line :: "err_texts \<Rightarrow> bool \<Rightarrow> int \<Rightarrow> string \<Rightarrow> string" where
  "error_line E useErr err msg =
     snprintf BUF_SIZE (''ERROR'' @ errText E useErr err @ '' '' @ snprintf BUF_SIZE msg @ ''\<newline>'')"

text \<open>
  \<open>outputError\<close>; the stdio calls may leave any value in \<open>errno\<close>, which is the argument
  \<open>clobber\<close>.
\<close>

definition outputError ::
    "err_texts \<Rightarrow> errno \<Rightarrow> bool \<Rightarrow> int \<Rightarrow> bool \<Rightarrow> string \<Rightarrow> proc_io \<Rightarrow> proc_io" where
  "outputError E clobber useErr err flushStdout msg s =
     (let line = error_line E useErr err msg;
          s1 = (if flushStdout then flush_stdout s else s)
      in (put_stderr line s1)\<lparr>io_errno := clobber\<rparr>)"

definition errMsg :: "err_texts \<Rightarrow> errno \<Rightarrow> string \<Rightarrow> proc_io \<Rightarrow> proc_io" where
  "errMsg E clobber msg s =
     (let savedErrno = io_errno s
      in (outputError E clobber True (io_errno s) True msg s)\<lparr>io_errno := savedErrno\<rparr>)"

definition errExit ::
    "err_texts \<Rightarrow> errno \<Rightarrow> string option \<Rightarrow> string \<Rightarrow> proc_io \<Rightarrow> unit outcome \<times> proc_io" where
  "errExit E clobber dump msg s =
     terminate dump True (outputError E clobber True (io_errno s) True msg s)"

definition err_exit ::
    "err_texts \<Rightarrow> errno \<Rightarrow> string option \<Rightarrow> string \<Rightarrow> proc_io \<Rightarrow> unit outcome \<times> proc_io" where
  "err_exit E clobber dump msg s =
     terminate dump False (outputError E clobber True (io_errno s) False msg s)"

definition errExitEN ::
    "err_texts \<Rightarrow> errno \<Rightarrow> string option \<Rightarrow> int \<Rightarrow> string \<Rightarrow> proc_io \<Rightarrow> unit outcome \<times> proc_io" where
  "errExitEN E clobber dump errnum msg s =
     terminate dump True (outputError E clobber True errnum True msg s)"

definition fatal ::
    "err_texts \<Rightarrow> errno \<Rightarrow> string option \<Rightarrow> string \<Rightarrow> proc_io \<Rightarrow> unit outcome \<times> proc_io" where
  "fatal E clobber dump msg s =
     terminate dump True (outputError E clobber False 0 True msg s)"

definition usageErr :: "string \<Rightarrow> proc_io \<Rightarrow> unit outcome \<times> proc_io" where
  "usageErr msg s = (Exits 1, flush_stdout (put_stderr msg (put_stderr ''Usage: '' (flush_stdout s))))"

definition cmdLineErr :: "string \<Rightarrow> proc_io \<Rightarrow> unit outcome \<times> proc_io" where
  "cmdLineErr msg s =
     (Exits 1, flush_stdout (put_stderr msg (put_stderr ''Command-line usage error: '' (flush_stdout s))))"

lemmas err_io_defs = flush_stdout_def put_stderr_def outputError_def Let_def

lemma length_error_line: "length (error_line E useErr err msg) < BUF_SIZE"
  unfolding error_line_def by (rule length_snprintf) (simp add: BUF_SIZE_def)

text \<open>The diagnostic in full, when the pieces fit their buffers.\<close>

lemma error_line_fits:
  assumes "length (ename E err) + length (strerror E err) + length msg < 480" "0 < err" "err \<le> max_ename E"
  shows "error_line E True err msg =
    ''ERROR ['' @ ename E err @ '' '' @ strerror E err @ ''] '' @ msg @ ''\<newline>''"
  using assms by (simp add: error_line_def errText_def BUF_SIZE_def)

lemma terminate_not_returns: "fst (terminate dump b s) \<noteq> Returns x"
  by (simp add: terminate_def)

subsection \<open>Properties\<close>

text \<open>
  \<open>errMsg\<close> returns to its caller with \<open>errno\<close> as it was, whatever the stdio calls inside do to
  it; it writes one diagnostic of fewer than 500 bytes to standard error and delivers everything
  that was pending on standard output.
\<close>

theorem errMsg_preserves_errno:
  "io_errno (errMsg E clobber msg s) = io_errno s
   \<and> io_stdout (errMsg E clobber msg s) = io_stdout s @ io_pending s
   \<and> io_pending (errMsg E clobber msg s) = []
   \<and> io_stderr (errMsg E clobber msg s) = io_stderr s @ error_line E True (io_errno s) msg
   \<and> length (error_line E True (io_errno s) msg) < 500"
  using length_error_line [of E True "io_errno s" msg]
  by (simp add: errMsg_def err_io_defs BUF_SIZE_def)

text \<open>
  \<open>errExit\<close> and \<open>err_exit\<close> never return and write the same diagnostic; with \<open>EF_DUMPCORE\<close> unset
  both exit with status 1, but only \<open>errExit\<close> delivers the pending standard output, while
  \<open>err_exit\<close> leaves the stdio buffers of its caller untouched.
\<close>

theorem err_exit_vs_errExit:
  "fst (err_exit E c None msg s) = Exits 1
   \<and> fst (errExit E c None msg s) = Exits 1
   \<and> io_stderr (snd (err_exit E c dump msg s)) = io_stderr (snd (errExit E c dump msg s))
   \<and> io_stdout (snd (errExit E c dump msg s)) = io_stdout s @ io_pending s
   \<and> io_stdout (snd (err_exit E c dump msg s)) = io_stdout s
   \<and> io_pending (snd (err_exit E c dump msg s)) = io_pending s
   \<and> (\<exists>d. fst (errExit E c (Some d) msg s) = Aborts)"
  by (auto simp: err_exit_def errExit_def terminate_def err_io_defs intro: exI [of _ "''1''"])

end
