(* ===== verification/Stream_IO.thy ===== *)
theory Stream_IO
  imports Prelude
begin

text \<open>
  Byte-stream input and output: \<open>readn\<close> and \<open>writen\<close> (\<open>tlpi-dist/sockets/rdwrn.c\<close>), \<open>readLine\<close>
  (\<open>read_line.c\<close>) and its buffered variant \<open>readLineBuf\<close> (\<open>read_line_buf.c\<close>).

  The system calls \<open>read\<close> and \<open>write\<close> are arguments: functions from a file descriptor, a request
  and a world to a result and the next world.  The loops restart after \<open>EINTR\<close> and so may run
  forever; they are partial functions into \<open>option\<close>, and the theorems show that they return.
  What they rely on is the documented behaviour of the calls, stated by \<open>stream_source\<close> and
  \<open>stream_sink\<close>: a transfer moves at least one and at most the requested number of bytes from the
  front of the stream, end of file is an empty read, the only error is \<open>EINTR\<close>, and there are finitely
  many interruptions.
\<close>

type_synonym 'w sys_read = "fd \<Rightarrow> nat \<Rightarrow> 'w \<Rightarrow> string sysres \<times> 'w"
type_synonym 'w sys_write = "fd \<Rightarrow> string \<Rightarrow> 'w \<Rightarrow> nat sysres \<times> 'w"

definition stream_source :: "'w sys_read \<Rightarrow> fd \<Rightarrow> ('w \<Rightarrow> string) \<Rightarrow> ('w \<Rightarrow> nat) \<Rightarrow> bool" where
  "stream_source rd fd content intr \<longleftrightarrow>
     (\<forall>n w. 0 < n \<longrightarrow>
        (case rd fd n w of
           (Inr bs, w') \<Rightarrow> length bs \<le> n \<and> content w = bs @ content w' \<and> (bs = [] \<longrightarrow> content w = [])
         | (Inl e, w') \<Rightarrow> e = EINTR \<and> content w' = content w \<and> intr w' < intr w))"

definition stream_sink :: "'w sys_write \<Rightarrow> fd \<Rightarrow> ('w \<Rightarrow> string) \<Rightarrow> ('w \<Rightarrow> nat) \<Rightarrow> bool" where
  "stream_sink wr fd written intr \<longleftrightarrow>
     (\<forall>bs w. bs \<noteq> [] \<longrightarrow>
        (case wr fd bs w of
           (Inr k, w') \<Rightarrow> 0 < k \<and> k \<le> length bs \<and> written w' = written w @ take k bs
         | (Inl e, w') \<Rightarrow> e = EINTR \<and> written w' = written w \<and> intr w' < intr w))"

lemma stream_source_Inr:
  assumes "stream_source rd fd content intr" "0 < n" "rd fd n w = (Inr bs, w')"
  shows "length bs \<le> n" "content w = bs @ content w'" "bs = [] \<Longrightarrow> content w = []"
  using assms unfolding stream_source_def by (metis (mono_tags, lifting) old.sum.simps(6) prod.case)+

lemma stream_source_Inl:
  assumes "stream_source rd fd content intr" "0 < n" "rd fd n w = (Inl e, w')"
  shows "e = EINTR" "content w' = content w" "intr w' < intr w"
  using assms unfolding stream_source_def by (metis (mono_tags, lifting) old.sum.simps(5) prod.case)+

lemma stream_sink_Inr:
  assumes "stream_sink wr fd written intr" "bs \<noteq> []" "wr fd bs w = (Inr k, w')"
  shows "0 < k" "k \<le> length bs" "written w' = written w @ take k bs"
  using assms unfolding stream_sink_def by (metis (mono_tags, lifting) old.sum.simps(6) prod.case)+

lemma stream_sink_Inl:
  assumes "stream_sink wr fd written intr" "bs \<noteq> []" "wr fd bs w = (Inl e, w')"
  shows "e = EINTR" "written w' = written w" "intr w' < intr w"
  using assms unfolding stream_sink_def by (metis (mono_tags, lifting) old.sum.simps(5) prod.case)+

subsection \<open>readn and writen\<close>

text \<open>
  \<open>readn\<close> returns what the C function returns, the bytes now at the front of the caller's buffer,
  and the world.
\<close>

partial_function (option) readn_loop ::
    "'w sys_read \<Rightarrow> fd \<Rightarrow> nat \<Rightarrow> string \<Rightarrow> 'w \<Rightarrow> (nat sysres \<times> string \<times> 'w) option" where
  "readn_loop rd fd n buf w =
     (if length buf < n then
        (case rd fd (n - length buf) w of
           (Inl e, w') \<Rightarrow>
             if e = EINTR then readn_loop rd fd n buf w' else Some (Inl e, buf, w')
         | (Inr bs, w') \<Rightarrow>
             if bs = [] then Some (Inr (length buf), buf, w')
             else readn_loop rd fd n (buf @ bs) w')
      else Some (Inr (length buf), buf, w))"

definition readn :: "'w sys_read \<Rightarrow> fd \<Rightarrow> nat \<Rightarrow> 'w \<Rightarrow> (nat sysres \<times> string \<times> 'w) option" where
  "readn rd fd n w = readn_loop rd fd n [] w"

partial_function (option) writen_loop ::
    "'w sys_write \<Rightarrow> fd \<Rightarrow> string \<Rightarrow> nat \<Rightarrow> nat \<Rightarrow> 'w \<Rightarrow> (nat sysres \<times> 'w) option" where
  "writen_loop wr fd buffer n totWritten w =
     (if totWritten < n then
        (case wr fd (take (n - totWritten) (drop totWritten buffer)) w of
           (Inl e, w') \<Rightarrow>
             if e = EINTR then writen_loop wr fd buffer n totWritten w' else Some (Inl e, w')
         | (Inr numWritten, w') \<Rightarrow>
             if numWritten = 0 then Some (Inl 0, w')
             else writen_loop wr fd buffer n (totWritten + numWritten) w')
      else Some (Inr totWritten, w))"

definition writen :: "'w sys_write \<Rightarrow> fd \<Rightarrow> string \<Rightarrow> nat \<Rightarrow> 'w \<Rightarrow> (nat sysres \<times> 'w) option" where
  "writen wr fd buffer n w = writen_loop wr fd buffer n 0 w"

text \<open>
  The loops make progress in one of two ways: the work that is left shrinks, or it stays the same
  and one of the finitely many interruptions has been used up.
\<close>

lemma progress_induct [case_names step]:
  fixes left intr :: "'w \<Rightarrow> nat"
  assumes "\<And>w. (\<And>v. left v < left w \<or> (left v = left w \<and> intr v < intr w) \<Longrightarrow> P v) \<Longrightarrow> P w"
  shows "P w"
  by (rule wf_induct_rule [OF wf_measures [of "[left, intr]"]]) (auto intro: assms)

lemma readn_loop_total:
  assumes src: "stream_source rd fd content intr"
  shows "length buf \<le> n \<Longrightarrow> \<exists>w'. readn_loop rd fd n buf w =
            Some (Inr (min n (length buf + length (content w))),
                  buf @ take (n - length buf) (content w), w')
          \<and> content w' = drop (n - length buf) (content w)"
proof (induction w arbitrary: buf rule: progress_induct [of "\<lambda>w. length (content w)" intr])
  case (step w)
  show ?case
  proof (cases "length buf < n")
    case False
    with step.prems show ?thesis by (subst readn_loop.simps) auto
  next
    case less: True
    then have pos: "0 < n - length buf" by simp
    obtain r w1 where r: "rd fd (n - length buf) w = (r, w1)" by fastforce
    show ?thesis
    proof (cases r)
      case (Inl e)
      note f = stream_source_Inl [OF src pos r [unfolded Inl]]
      with step.IH [of w1 buf] step.prems show ?thesis
        using r Inl less by (subst readn_loop.simps) simp
    next
      case (Inr bs)
      note f = stream_source_Inr [OF src pos r [unfolded Inr]]
      show ?thesis
      proof (cases "bs = []")
        case True
        with f r Inr less show ?thesis by (subst readn_loop.simps) auto
      next
        case False
        with f have "length (content w1) < length (content w)" by simp
        moreover from f less have "length (buf @ bs) \<le> n" by simp
        ultimately show ?thesis
          using step.IH [of w1 "buf @ bs"] r Inr less False f
          by (subst readn_loop.simps) (auto simp: min_def)
      qed
    qed
  qed
qed

lemma writen_loop_total:
  assumes snk: "stream_sink wr fd written intr"
  shows "tot \<le> n \<Longrightarrow> n \<le> length buffer \<Longrightarrow>
    \<exists>w'. writen_loop wr fd buffer n tot w = Some (Inr n, w')
       \<and> written w' = written w @ take (n - tot) (drop tot buffer)"
proof (induction "(tot, w)" arbitrary: tot w rule: progress_induct [of "\<lambda>(tot, w). n - tot" "\<lambda>(tot, w). intr w"])
  case step
  show ?case
  proof (cases "tot < n")
    case False
    with step.prems show ?thesis by (subst writen_loop.simps) auto
  next
    case less: True
    let ?bs = "take (n - tot) (drop tot buffer)"
    from less step.prems have ne: "?bs \<noteq> []" and len: "length ?bs = n - tot" by auto
    obtain r w1 where r: "wr fd ?bs w = (r, w1)" by fastforce
    show ?thesis
    proof (cases r)
      case (Inl e)
      note f = stream_sink_Inl [OF snk ne r [unfolded Inl]]
      with step(1) [of tot w1] step.prems show ?thesis
        using r Inl less by (subst writen_loop.simps) simp
    next
      case (Inr k)
      note f = stream_sink_Inr [OF snk ne r [unfolded Inr]]
      have "take k ?bs @ take (n - (tot + k)) (drop (tot + k) buffer) = ?bs"
        using f(2) len by (metis add.commute append_take_drop_id diff_diff_left drop_drop drop_take
            min.absorb1 take_take)
      moreover have "n - (tot + k) < n - tot" "tot + k \<le> n"
        using f(1,2) len less by auto
      ultimately show ?thesis
        using f step(1) [of "tot + k" w1] step.prems len less r Inr
        by (subst writen_loop.simps) auto
    qed
  qed
qed

subsection \<open>readLine\<close>

text \<open>
  The first line of a text, with its newline when it has one.
\<close>

definition first_line :: "string \<Rightarrow> string" where
  "first_line s = takeWhile (\<lambda>c. c \<noteq> CHR 0x0A) s @ take 1 (dropWhile (\<lambda>c. c \<noteq> CHR 0x0A) s)"

lemma first_line_Nil [simp]: "first_line [] = []"
  by (simp add: first_line_def)

lemma first_line_Cons [simp]:
  "first_line (c # s) = (if c = CHR 0x0A then [c] else c # first_line s)"
  by (simp add: first_line_def)

lemma first_line_append: "first_line s @ drop (length (first_line s)) s = s"
  by (induction s) auto

text \<open>
  \<open>readLine\<close>: \<open>buf\<close> holds the \<open>totRead\<close> bytes stored so far; \<open>bufnull\<close> says that the caller passed a
  null buffer.  On end of file or newline the C function stores the terminating null byte, which
  the model's strings leave implicit.
\<close>

partial_function (option) readLine_loop ::
    "'w sys_read \<Rightarrow> fd \<Rightarrow> nat \<Rightarrow> string \<Rightarrow> 'w \<Rightarrow> (nat sysres \<times> string \<times> 'w) option" where
  "readLine_loop rd fd n buf w =
     (case rd fd 1 w of
        (Inl e, w') \<Rightarrow> if e = EINTR then readLine_loop rd fd n buf w' else Some (Inl e, buf, w')
      | (Inr bs, w') \<Rightarrow>
          (case bs of
             [] \<Rightarrow> if length buf = 0 then Some (Inr 0, buf, w') else Some (Inr (length buf), buf, w')
           | ch # _ \<Rightarrow>
               (let buf' = (if length buf < n - 1 then buf @ [ch] else buf)
                in if ch = CHR 0x0A then Some (Inr (length buf'), buf', w')
                   else readLine_loop rd fd n buf' w')))"

definition readLine ::
    "'w sys_read \<Rightarrow> fd \<Rightarrow> bool \<Rightarrow> nat \<Rightarrow> 'w \<Rightarrow> (nat sysres \<times> string \<times> 'w) option" where
  "readLine rd fd bufnull n w =
     (if n \<le> 0 \<or> bufnull then Some (Inl EINVAL, [], w) else readLine_loop rd fd n [] w)"

lemma read_one:
  assumes "stream_source rd fd content intr" "rd fd 1 w = (Inr bs, w')"
  shows "bs = [] \<and> content w = [] \<and> content w' = [] \<or> (\<exists>ch. bs = [ch] \<and> content w = ch # content w')"
proof -
  note f = stream_source_Inr [OF assms(1) _ assms(2), simplified]
  show ?thesis
  proof (cases bs)
    case Nil
    with f show ?thesis by simp
  next
    case (Cons ch t)
    with f have "t = []" by simp
    with f Cons show ?thesis by simp
  qed
qed

lemma readLine_loop_total:
  assumes src: "stream_source rd fd content intr"
  shows "length buf \<le> n - 1 \<Longrightarrow>
    \<exists>w'. readLine_loop rd fd n buf w =
           Some (Inr (length (take (n - 1) (buf @ first_line (content w)))),
                 take (n - 1) (buf @ first_line (content w)), w')
       \<and> content w' = drop (length (first_line (content w))) (content w)"
proof (induction w arbitrary: buf rule: progress_induct [of "\<lambda>w. length (content w)" intr])
  case (step w)
  obtain r w1 where r: "rd fd 1 w = (r, w1)" by fastforce
  show ?case
  proof (cases r)
    case (Inl e)
    note f = stream_source_Inl [OF src _ r [unfolded Inl], simplified]
    with step.IH [of w1 buf] step.prems show ?thesis
      using r Inl by (subst readLine_loop.simps) simp
  next
    case (Inr bs)
    from read_one [OF src r [unfolded Inr]] show ?thesis
    proof (elim disjE exE conjE)
      assume "bs = []" "content w = []" "content w1 = []"
      with r Inr step.prems show ?thesis by (subst readLine_loop.simps) auto
    next
      fix ch assume f: "bs = [ch]" "content w = ch # content w1"
      let ?buf = "if length buf < n - 1 then buf @ [ch] else buf"
      have *: "take (n - 1) (buf @ ch # u) = take (n - 1) (?buf @ u)" for u
        by (rule take_append_bounded) (rule step.prems)
      show ?thesis
      proof (cases "ch = CHR 0x0A")
        case True
        with f r Inr step.prems * [of "[]"] show ?thesis
          by (subst readLine_loop.simps) (auto simp: Let_def)
      next
        case False
        with f step.IH [of w1 ?buf] step.prems r Inr * [of "first_line (content w1)"] show ?thesis
          by (subst readLine_loop.simps) (auto simp: Let_def)
      qed
    qed
  qed
qed

subsection \<open>readLineBuf\<close>

definition RL_MAX_BUF :: nat where "RL_MAX_BUF = 10"

record ReadLineBuf =
  rl_fd :: fd
  rl_buf :: string     \<comment> \<open>the bytes of the last read; its length is the field \<open>len\<close>\<close>
  rl_next :: nat

definition readLineBufInit :: "fd \<Rightarrow> ReadLineBuf" where
  "readLineBufInit fd = \<lparr>rl_fd = fd, rl_buf = [], rl_next = 0\<rparr>"

text \<open>
  One pass of the loop either takes the next buffered character or refills the buffer first; \<open>out\<close>
  is the text stored in the caller's buffer, of size \<open>n\<close>.  After an error \<open>len\<close> is \<open>-1\<close> and after end
  of file it is 0: in both cases the buffer counts as empty.
\<close>

partial_function (option) readLineBuf_loop ::
    "'w sys_read \<Rightarrow> nat \<Rightarrow> string \<Rightarrow> ReadLineBuf \<Rightarrow> 'w
      \<Rightarrow> (nat sysres \<times> string \<times> ReadLineBuf \<times> 'w) option" where
  "readLineBuf_loop rd n out rl w =
     (if rl_next rl \<ge> length (rl_buf rl) then
        (case rd (rl_fd rl) RL_MAX_BUF w of
           (Inl e, w') \<Rightarrow> Some (Inl e, out, rl\<lparr>rl_buf := []\<rparr>, w')
         | (Inr bs, w') \<Rightarrow>
             (case bs of
                [] \<Rightarrow> Some (Inr (length out), out, rl\<lparr>rl_buf := []\<rparr>, w')
              | c # _ \<Rightarrow>
                  (let rl' = rl\<lparr>rl_buf := bs, rl_next := 1\<rparr>;
                       out' = (if length out < n then out @ [c] else out)
                   in if c = CHR 0x0A then Some (Inr (length out'), out', rl', w')
                      else readLineBuf_loop rd n out' rl' w')))
      else
        (let c = rl_buf rl ! rl_next rl;
             rl' = rl\<lparr>rl_next := Suc (rl_next rl)\<rparr>;
             out' = (if length out < n then out @ [c] else out)
         in if c = CHR 0x0A then Some (Inr (length out'), out', rl', w)
            else readLineBuf_loop rd n out' rl' w))"

definition readLineBuf ::
    "'w sys_read \<Rightarrow> ReadLineBuf \<Rightarrow> bool \<Rightarrow> nat \<Rightarrow> 'w
      \<Rightarrow> (nat sysres \<times> string \<times> ReadLineBuf \<times> 'w) option" where
  "readLineBuf rd rl bufnull n w =
     (if n \<le> 0 \<or> bufnull then Some (Inl EINVAL, [], rl, w) else readLineBuf_loop rd n [] rl w)"

text \<open>What the reader has not yet returned: the unread part of its buffer, then the stream.\<close>

definition rl_content :: "('w \<Rightarrow> string) \<Rightarrow> ReadLineBuf \<Rightarrow> 'w \<Rightarrow> string" where
  "rl_content content rl w = drop (rl_next rl) (rl_buf rl) @ content w"

lemma rl_content_init [simp]: "rl_content content (readLineBufInit fd) w = content w"
  by (simp add: rl_content_def readLineBufInit_def)

lemma readLineBuf_loop_total:
  assumes src: "stream_source rd fd content (\<lambda>_. 0)"
  shows "rl_fd rl = fd \<Longrightarrow> length out \<le> n \<Longrightarrow>
    \<exists>rl' w'. readLineBuf_loop rd n out rl w =
           Some (Inr (length (take n (out @ first_line (rl_content content rl w)))),
                 take n (out @ first_line (rl_content content rl w)), rl', w')
       \<and> rl_fd rl' = fd
       \<and> rl_content content rl' w' =
           drop (length (first_line (rl_content content rl w))) (rl_content content rl w)"
proof (induction "length (rl_content content rl w)" arbitrary: out rl w rule: less_induct)
  case less
  let ?out = "\<lambda>c. if length out < n then out @ [c] else out"
  have out: "take n (out @ c # u) = take n (?out c @ u)" for c u
    by (rule take_append_bounded) (rule less.prems)
  show ?case
  proof (cases "rl_next rl \<ge> length (rl_buf rl)")
    case refill: True
    then have cw: "rl_content content rl w = content w" by (simp add: rl_content_def)
    obtain r w1 where r: "rd fd RL_MAX_BUF w = (r, w1)" by fastforce
    have pos: "0 < RL_MAX_BUF" by (simp add: RL_MAX_BUF_def)
    obtain bs where Inr: "r = Inr bs"
      using stream_source_Inl (3) [OF src pos] r by (cases r) auto
    note f = stream_source_Inr [OF src pos r [unfolded Inr]]
    show ?thesis
    proof (cases bs)
      case Nil
      with f refill r Inr less.prems cw show ?thesis
        by (subst readLineBuf_loop.simps) (auto simp: rl_content_def)
    next
      case (Cons c t)
      let ?rl = "rl\<lparr>rl_buf := bs, rl_next := 1\<rparr>"
      have c1: "rl_content content ?rl w1 = t @ content w1"
        by (simp add: rl_content_def Cons)
      then have c0: "rl_content content rl w = c # rl_content content ?rl w1"
        using cw f(2) Cons by simp
      from less.hyps [of ?rl w1 "?out c"] less.prems c0 out [of c "first_line (rl_content content ?rl w1)"]
        out [of c "[]"] refill r Inr Cons
      show ?thesis by (subst readLineBuf_loop.simps) (auto simp: Let_def)
    qed
  next
    case False
    let ?c = "rl_buf rl ! rl_next rl" and ?rl = "rl\<lparr>rl_next := Suc (rl_next rl)\<rparr>"
    from False have c0: "rl_content content rl w = ?c # rl_content content ?rl w"
      by (simp add: rl_content_def Cons_nth_drop_Suc flip: append_Cons)
    from less.hyps [of ?rl w "?out ?c"] less.prems c0 out [of ?c "first_line (rl_content content ?rl w)"]
      out [of ?c "[]"] False
    show ?thesis by (subst readLineBuf_loop.simps) (auto simp: Let_def)
  qed
qed

subsection \<open>An instance of the laws\<close>

text \<open>
  A pipe that moves at most three bytes at a time, after a number of interruptions: the world is
  the number of interruptions to come and the bytes in the pipe.  It shows that the hypotheses of
  the theorems below can hold.
\<close>

definition pipe_read :: "(nat \<times> string) sys_read" where
  "pipe_read fd n w =
     (if 0 < fst w then (Inl EINTR, (fst w - 1, snd w))
      else (Inr (take (min n 3) (snd w)), (0, drop (min n 3) (snd w))))"

definition pipe_write :: "(nat \<times> string) sys_write" where
  "pipe_write fd bs w =
     (if 0 < fst w then (Inl EINTR, (fst w - 1, snd w))
      else (Inr (min 3 (length bs)), (0, snd w @ take 3 bs)))"

lemma pipe_read_source: "stream_source pipe_read fd snd fst"
  by (auto simp: stream_source_def pipe_read_def)

lemma pipe_write_sink: "stream_sink pipe_write fd snd fst"
  by (auto simp: stream_sink_def pipe_write_def min_def)

subsection \<open>Properties\<close>

text \<open>
  C30: \<open>readn\<close> returns, in spite of short reads and interruptions: it delivers the next \<open>n\<close> bytes of
  the stream, or all that is left when there are fewer, reports their number, and leaves the rest
  of the stream unread.
\<close>

theorem readn_total:
  assumes "stream_source rd fd content intr"
  shows "\<exists>w'. readn rd fd n w = Some (Inr (min n (length (content w))), take n (content w), w')
            \<and> content w' = drop n (content w)"
  using readn_loop_total [OF assms, of "[]" n w] by (simp add: readn_def)

theorem readn_total_witness:
  "\<exists>w'. readn pipe_read 0 5 (2, ''hello world'') = Some (Inr 5, ''hello'', w') \<and> snd w' = '' world''"
  using readn_total [OF pipe_read_source, of 0 5 "(2, ''hello world'')"]
  by (simp add: eval_nat_numeral)

text \<open>
  \<open>writen\<close> returns \<open>n\<close> after having appended exactly the first \<open>n\<close> bytes of the buffer to the
  stream, in order, in spite of short writes and interruptions.
\<close>

theorem writen_total:
  assumes "stream_sink wr fd written intr" "n \<le> length buffer"
  shows "\<exists>w'. writen wr fd buffer n w = Some (Inr n, w') \<and> written w' = written w @ take n buffer"
  using writen_loop_total [OF assms(1), of 0 n buffer w] assms(2) by (simp add: writen_def)

theorem writen_total_witness:
  "\<exists>w'. writen pipe_write 1 ''hello world'' 11 (3, []) = Some (Inr 11, w') \<and> snd w' = ''hello world''"
  using writen_total [OF pipe_write_sink, of 11 "''hello world''" 1 "(3, [])"] by simp

text \<open>
  C31: \<open>readLine\<close> returns, stores the first \<open>n - 1\<close> bytes of the next line of the stream (the newline
  included when it is among them), reports how many, and consumes exactly the line, the discarded
  excess included; at end of file it returns 0.
\<close>

theorem readLine_total:
  assumes "stream_source rd fd content intr" "0 < n"
  shows "\<exists>w'. readLine rd fd False n w =
              Some (Inr (length (take (n - 1) (first_line (content w)))),
                    take (n - 1) (first_line (content w)), w')
            \<and> first_line (content w) @ content w' = content w"
  using readLine_loop_total [OF assms(1), of "[]" n w] assms(2) first_line_append [of "content w"]
  by (auto simp: readLine_def)

theorem readLine_total_witness:
  "\<exists>w'. readLine pipe_read 0 False 4 (1, ''abcdef\<newline>xy'') = Some (Inr 3, ''abc'', w')
      \<and> ''abcdef\<newline>'' @ snd w' = ''abcdef\<newline>xy''"
  using readLine_total [OF pipe_read_source, of 4 0 "(1, ''abcdef\<newline>xy'')"]
  by (simp add: eval_nat_numeral)

text \<open>
  C32: \<open>readLineBuf\<close>, which reads blocks ahead, returns the same bytes as the unbuffered \<open>readLine\<close>
  given one more byte of room (the latter needs it for the null byte), when both start at the same
  position of a stream that is not interrupted; and the buffer and the stream together continue
  where \<open>readLine\<close> leaves the stream.
\<close>

theorem readLineBuf_equiv_readLine:
  assumes "stream_source rd fd content (\<lambda>_. 0)" "rl_fd rl = fd" "0 < n"
    "rl_content content rl w = content v"
  shows "\<exists>k out v' rl' w'.
      readLine rd fd False (Suc n) v = Some (Inr k, out, v')
    \<and> readLineBuf rd rl False n w = Some (Inr k, out, rl', w')
    \<and> rl_fd rl' = fd \<and> rl_content content rl' w' = content v'"
proof -
  from readLine_loop_total [OF assms(1), of "[]" "Suc n" v] obtain v' where
    "readLine rd fd False (Suc n) v =
       Some (Inr (length (take n (first_line (content v)))), take n (first_line (content v)), v')"
    "content v' = drop (length (first_line (content v))) (content v)"
    by (auto simp: readLine_def)
  moreover from readLineBuf_loop_total [OF assms(1), of rl "[]" n w] assms obtain rl' w' where
    "readLineBuf rd rl False n w =
       Some (Inr (length (take n (first_line (content v)))), take n (first_line (content v)), rl', w')"
    "rl_fd rl' = fd" "rl_content content rl' w' = drop (length (first_line (content v))) (content v)"
    by (auto simp: readLineBuf_def)
  ultimately show ?thesis by simp
qed

lemma plain_pipe_source: "stream_source (\<lambda>fd n w. (Inr (take n w), drop n w)) fd id (\<lambda>_. 0)"
  by (auto simp: stream_source_def)

theorem readLineBuf_equiv_readLine_witness:
  "\<exists>k out v' rl' w'.
      readLine (\<lambda>fd n w. (Inr (take n w), drop n w)) 3 False 81 ''ab\<newline>c'' = Some (Inr k, out, v')
    \<and> readLineBuf (\<lambda>fd n w. (Inr (take n w), drop n w)) (readLineBufInit 3) False 80 ''ab\<newline>c''
        = Some (Inr k, out, rl', w')
    \<and> rl_fd rl' = 3 \<and> rl_content id rl' w' = id v'"
  using readLineBuf_equiv_readLine [OF plain_pipe_source, of "readLineBufInit 3" 3 80 "''ab\<newline>c''" "''ab\<newline>c''"]
  by (simp add: readLineBufInit_def rl_content_def)

end
