(* ===== verification/Solutions_IO.thy ===== *)
theory Solutions_IO
  imports Stream_IO Get_Num
begin

text \<open>
  The input and output exercises of \<open>tlpi-solutions\<close>: \<open>writep\<close> (\<open>mylib/mylib.c\<close>), \<open>xreadv\<close> and
  \<open>xwritev\<close> (\<open>ex05-7/rwv.c\<close>), and the programs \<open>cp\<close> (\<open>ex04-2\<close>), \<open>tee\<close> (\<open>ex04-1\<close>), \<open>atomic_append\<close>
  (\<open>ex05-3\<close>), \<open>append_n_seek\<close> (\<open>ex05-2\<close>), \<open>large_file\<close> (\<open>ex05-1\<close>).  The file system calls are the
  fields of a record.  A failing program ends through \<open>errExit\<close> or \<open>usageErr\<close>, here \<open>Exits 1\<close>
  (\<open>EF_DUMPCORE\<close> is taken to be unset).
\<close>

unbundle bit_operations_syntax

record 'w file_sys =
  fs_open :: "string \<Rightarrow> int \<Rightarrow> int \<Rightarrow> 'w \<Rightarrow> fd sysres \<times> 'w"
  fs_close :: "fd \<Rightarrow> 'w \<Rightarrow> 'w"
  fs_read :: "'w sys_read"
  fs_write :: "'w sys_write"
  fs_lseek :: "fd \<Rightarrow> int \<Rightarrow> int \<Rightarrow> 'w \<Rightarrow> int sysres \<times> 'w"

definition O_RDONLY :: int where "O_RDONLY = 0"
definition O_WRONLY :: int where "O_WRONLY = 1"
definition O_RDWR :: int where "O_RDWR = 2"
definition O_CREAT :: int where "O_CREAT = 64"
definition O_EXCL :: int where "O_EXCL = 128"
definition O_TRUNC :: int where "O_TRUNC = 512"
definition O_APPEND :: int where "O_APPEND = 1024"
definition S_RW_USR :: int where "S_RW_USR = 384"  \<comment> \<open>\<open>S_IRUSR | S_IWUSR\<close>\<close>
definition SEEK_SET :: int where "SEEK_SET = 0"
definition SEEK_END :: int where "SEEK_END = 2"
definition STDIN_FILENO :: fd where "STDIN_FILENO = 0"
definition STDOUT_FILENO :: fd where "STDOUT_FILENO = 1"
definition IO_BUFF_SIZE :: nat where "IO_BUFF_SIZE = 8192"

subsection \<open>writep\<close>

text \<open>Each call of \<open>write\<close> passes the start of the buffer again, with the remaining count.\<close>

partial_function (option) writep_loop ::
    "'w sys_write \<Rightarrow> fd \<Rightarrow> string \<Rightarrow> nat \<Rightarrow> nat \<Rightarrow> 'w \<Rightarrow> (nat sysres \<times> 'w) option" where
  "writep_loop wr fd buf count total_written w =
     (if total_written < count then
        (case wr fd (take (count - total_written) buf) w of
           (Inl e, w') \<Rightarrow> Some (Inl e, w')
         | (Inr nr_bytes, w') \<Rightarrow> writep_loop wr fd buf count (total_written + nr_bytes) w')
      else Some (Inr total_written, w))"

definition writep :: "'w sys_write \<Rightarrow> fd \<Rightarrow> string \<Rightarrow> nat \<Rightarrow> 'w \<Rightarrow> (nat sysres \<times> 'w) option" where
  "writep wr fd buf count w = writep_loop wr fd buf count 0 w"

text \<open>A sink that takes all it is given in one call, as regular files do.\<close>

definition full_sink :: "'w sys_write \<Rightarrow> fd \<Rightarrow> ('w \<Rightarrow> string \<Rightarrow> 'w) \<Rightarrow> bool" where
  "full_sink wr fd put \<longleftrightarrow> (\<forall>bs w. bs \<noteq> [] \<longrightarrow> wr fd bs w = (Inr (length bs), put w bs))"

lemma writep_full:
  assumes "full_sink wr fd put" "buf \<noteq> []"
  shows "writep wr fd buf (length buf) w = Some (Inr (length buf), put w buf)"
  using assms
  by (simp add: writep_def full_sink_def writep_loop.simps [of wr fd buf "length buf" 0]
      writep_loop.simps [of wr fd buf "length buf" "length buf"])

lemma writep_empty [simp]: "writep wr fd [] 0 w = Some (Inr 0, w)"
  by (simp add: writep_def writep_loop.simps)

subsection \<open>xwritev and xreadv\<close>

fun xwritev_loop ::
    "'w sys_write \<Rightarrow> fd \<Rightarrow> string list \<Rightarrow> nat \<Rightarrow> 'w \<Rightarrow> (nat sysres \<times> 'w) option" where
  "xwritev_loop wr fd [] total_written w = Some (Inr total_written, w)"
| "xwritev_loop wr fd (v # iov) total_written w =
     (case writep wr fd v (length v) w of
        None \<Rightarrow> None
      | Some (Inl e, w') \<Rightarrow> Some (Inl e, w')
      | Some (Inr num_written, w') \<Rightarrow> xwritev_loop wr fd iov (total_written + num_written) w')"

definition xwritev :: "'w sys_write \<Rightarrow> fd \<Rightarrow> string list \<Rightarrow> 'w \<Rightarrow> (nat sysres \<times> 'w) option" where
  "xwritev wr fd iov w = xwritev_loop wr fd iov 0 w"

definition overwrite :: "string \<Rightarrow> nat \<Rightarrow> string \<Rightarrow> string" where
  "overwrite buf off bs = take off buf @ bs @ drop (off + length bs) buf"

text \<open>
  The inner loop of \<open>xreadv\<close> on one buffer: \<open>num_read\<close>, the result of the previous \<open>read\<close>, is also
  the offset of the next one.  The result says how the loop ended: with an error, at end of input
  (\<open>Inr False\<close>), or with the buffer filled (\<open>Inr True\<close>).
\<close>

function xreadv_one ::
    "'w sys_read \<Rightarrow> fd \<Rightarrow> string \<Rightarrow> nat \<Rightarrow> nat \<Rightarrow> nat \<Rightarrow> 'w \<Rightarrow> bool sysres \<times> string \<times> nat \<times> 'w" where
  "xreadv_one rd fd buf num_read count total_read w =
     (case rd fd count w of
        (Inl e, w') \<Rightarrow> (Inl e, buf, total_read, w')
      | (Inr bs, w') \<Rightarrow>
          if bs = [] then (Inr False, buf, total_read, w')
          else
            (let buf' = overwrite buf num_read bs
             in if count - length bs \<le> 0 then (Inr True, buf', total_read + length bs, w')
                else xreadv_one rd fd buf' (length bs) (count - length bs) (total_read + length bs) w'))"
  by pat_completeness auto
termination
  by (relation "measure (\<lambda>(rd, fd, buf, num_read, count, total_read, w). count)") auto

declare xreadv_one.simps [simp del]

fun xreadv_loop ::
    "'w sys_read \<Rightarrow> fd \<Rightarrow> string list \<Rightarrow> nat \<Rightarrow> 'w \<Rightarrow> nat sysres \<times> string list \<times> 'w" where
  "xreadv_loop rd fd [] total_read w = (Inr total_read, [], w)"
| "xreadv_loop rd fd (buf # iov) total_read w =
     (case xreadv_one rd fd buf 0 (length buf) total_read w of
        (Inl e, buf', total', w') \<Rightarrow> (Inl e, buf' # iov, w')
      | (Inr filled, buf', total', w') \<Rightarrow>
          if filled
          then (case xreadv_loop rd fd iov total' w' of (r, iov', w'') \<Rightarrow> (r, buf' # iov', w''))
          else (Inr total', buf' # iov, w'))"

definition xreadv :: "'w sys_read \<Rightarrow> fd \<Rightarrow> string list \<Rightarrow> 'w \<Rightarrow> nat sysres \<times> string list \<times> 'w" where
  "xreadv rd fd iov w = xreadv_loop rd fd iov 0 w"

text \<open>A source that delivers all that is asked for while it lasts, as regular files do.\<close>

definition full_source :: "'w sys_read \<Rightarrow> fd \<Rightarrow> ('w \<Rightarrow> string) \<Rightarrow> bool" where
  "full_source rd fd content \<longleftrightarrow>
     (\<forall>n w. \<exists>w'. rd fd n w = (Inr (take n (content w)), w') \<and> content w' = drop n (content w))"

lemma xreadv_loop_full:
  assumes "full_source rd fd content" "\<forall>b \<in> set iov. b \<noteq> []"
    "length (content w) \<ge> length (concat iov)"
  shows "\<exists>iov' w'. xreadv_loop rd fd iov tot w = (Inr (tot + length (concat iov)), iov', w')
      \<and> map length iov' = map length iov
      \<and> concat iov' = take (length (concat iov)) (content w)
      \<and> content w' = drop (length (concat iov)) (content w)"
  using assms(2,3)
proof (induction iov arbitrary: tot w)
  case Nil
  then show ?case by simp
next
  case (Cons buf iov)
  obtain w1 where w1: "rd fd (length buf) w = (Inr (take (length buf) (content w)), w1)"
    "content w1 = drop (length buf) (content w)"
    using assms(1) unfolding full_source_def by blast
  from Cons.prems have b: "take (length buf) (content w) \<noteq> []"
    "length (take (length buf) (content w)) = length buf" by auto
  then have one: "xreadv_one rd fd buf 0 (length buf) tot w =
      (Inr True, take (length buf) (content w), tot + length buf, w1)"
    using w1 by (simp add: xreadv_one.simps overwrite_def Let_def)
  have "length (content w1) \<ge> length (concat iov)" using Cons.prems w1 by simp
  with Cons.IH [of w1 "tot + length buf"] Cons.prems w1 obtain iov' w' where
    "xreadv_loop rd fd iov (tot + length buf) w1 = (Inr (tot + length buf + length (concat iov)), iov', w')"
    "map length iov' = map length iov"
    "concat iov' = take (length (concat iov)) (drop (length buf) (content w))"
    "content w' = drop (length (concat iov)) (drop (length buf) (content w))"
    by auto
  with one b show ?case by (auto simp: take_add add.commute)
qed

lemma xwritev_loop_full:
  assumes "full_sink wr fd put" "\<forall>v \<in> set iov. v \<noteq> []"
  shows "xwritev_loop wr fd iov tot w = Some (Inr (tot + length (concat iov)), foldl put w iov)"
  using assms(2) by (induction iov arbitrary: tot w) (simp_all add: writep_full [OF assms(1)])

subsection \<open>cp\<close>

text \<open>
  When \<open>read\<close> fails it returns \<open>-1\<close>, which is not 0: the loop goes on and \<open>writep\<close> is called with the
  count \<open>(size_t) -1\<close>, far beyond the buffer.  That is undefined behaviour.
\<close>

partial_function (option) cp_loop ::
    "'w file_sys \<Rightarrow> fd \<Rightarrow> fd \<Rightarrow> 'w \<Rightarrow> (unit outcome \<times> 'w) option" where
  "cp_loop fs src_fd dst_fd w =
     (case fs_read fs src_fd IO_BUFF_SIZE w of
        (Inl e, w1) \<Rightarrow> Some (Undefined, w1)
      | (Inr buff, w1) \<Rightarrow>
          if buff = [] then Some (Returns (), w1)
          else Option.bind (writep (fs_write fs) dst_fd buff (length buff) w1)
                 (\<lambda>(r, w2). case r of
                    Inl e \<Rightarrow> Some (Exits 1, w2)
                  | Inr _ \<Rightarrow> cp_loop fs src_fd dst_fd w2))"

definition cp_main :: "'w file_sys \<Rightarrow> string list \<Rightarrow> 'w \<Rightarrow> (int outcome \<times> 'w) option" where
  "cp_main fs argv w =
     (if length argv < 3 then Some (Exits 1, w)
      else
        (case fs_open fs (argv ! 1) O_RDONLY 0 w of
           (Inl e, w1) \<Rightarrow> Some (Exits 1, w1)
         | (Inr src_fd, w1) \<Rightarrow>
             (case fs_open fs (argv ! 2) (O_WRONLY OR O_CREAT) S_RW_USR w1 of
                (Inl e, w2) \<Rightarrow> Some (Exits 1, w2)
              | (Inr dst_fd, w2) \<Rightarrow>
                  (case cp_loop fs src_fd dst_fd w2 of
                     None \<Rightarrow> None
                   | Some (Returns _, w3) \<Rightarrow>
                       Some (Returns 0, fs_close fs dst_fd (fs_close fs src_fd w3))
                   | Some (Exits k, w3) \<Rightarrow> Some (Exits k, w3)
                   | Some (Aborts, w3) \<Rightarrow> Some (Aborts, w3)
                   | Some (Undefined, w3) \<Rightarrow> Some (Undefined, w3)))))"

subsection \<open>tee\<close>

partial_function (option) tee_loop ::
    "'w file_sys \<Rightarrow> fd \<Rightarrow> 'w \<Rightarrow> (unit outcome \<times> 'w) option" where
  "tee_loop fs fd w =
     (case fs_read fs STDIN_FILENO IO_BUFF_SIZE w of
        (Inl e, w1) \<Rightarrow> Some (Undefined, w1)
      | (Inr buff, w1) \<Rightarrow>
          if buff = [] then Some (Returns (), w1)
          else Option.bind (writep (fs_write fs) STDOUT_FILENO buff (length buff) w1)
                 (\<lambda>(r, w2). case r of
                    Inl e \<Rightarrow> Some (Exits 1, w2)
                  | Inr _ \<Rightarrow>
                      Option.bind (writep (fs_write fs) fd buff (length buff) w2)
                        (\<lambda>(r', w3). case r' of
                           Inl e \<Rightarrow> Some (Exits 1, w3)
                         | Inr _ \<Rightarrow> tee_loop fs fd w3)))"

text \<open>
  \<open>opts\<close> is the sequence of characters that \<open>getopt(argc, argv, "a")\<close> returns before \<open>-1\<close>, and \<open>operands\<close>
  the arguments from \<open>optind\<close> on.  An invalid option ends the program in \<open>usage_error\<close>.
\<close>

fun tee_mode :: "int \<Rightarrow> char list \<Rightarrow> int option" where
  "tee_mode append_mode [] = Some append_mode"
| "tee_mode append_mode (opt # opts) =
     (if opt = CHR ''a'' then tee_mode O_APPEND opts
      else if opt = CHR ''?'' then None
      else tee_mode append_mode opts)"

definition tee_main ::
    "'w file_sys \<Rightarrow> char list \<Rightarrow> string list \<Rightarrow> 'w \<Rightarrow> (int outcome \<times> 'w) option" where
  "tee_main fs opts operands w =
     (case tee_mode O_TRUNC opts of
        None \<Rightarrow> Some (Exits 1, w)
      | Some append_mode \<Rightarrow>
          (case operands of
             [] \<Rightarrow> Some (Exits 1, w)
           | filename # _ \<Rightarrow>
               (case fs_open fs filename (O_WRONLY OR O_CREAT OR append_mode) S_RW_USR w of
                  (Inl e, w1) \<Rightarrow> Some (Exits 1, w1)
                | (Inr fd, w1) \<Rightarrow>
                    (case tee_loop fs fd w1 of
                       None \<Rightarrow> None
                     | Some (Returns _, w2) \<Rightarrow> Some (Returns 0, fs_close fs fd w2)
                     | Some (Exits k, w2) \<Rightarrow> Some (Exits k, w2)
                     | Some (Aborts, w2) \<Rightarrow> Some (Aborts, w2)
                     | Some (Undefined, w2) \<Rightarrow> Some (Undefined, w2)))))"

subsection \<open>atomic\_append, append\_n\_seek and large\_file\<close>

fun append_loop :: "'w file_sys \<Rightarrow> fd \<Rightarrow> int \<Rightarrow> nat \<Rightarrow> 'w \<Rightarrow> (unit outcome \<times> 'w) option" where
  "append_loop fs fd append_mode 0 w = Some (Returns (), w)"
| "append_loop fs fd append_mode (Suc n) w =
     (let (seeked, w1) =
            (if append_mode = 0
             then (case fs_lseek fs fd 0 SEEK_END w of (Inl e, w') \<Rightarrow> (False, w') | (Inr _, w') \<Rightarrow> (True, w'))
             else (True, w))
      in if \<not> seeked then Some (Exits 1, w1)
         else
           (case writep (fs_write fs) fd ''x'' 1 w1 of
              None \<Rightarrow> None
            | Some (Inl e, w2) \<Rightarrow> Some (Exits 1, w2)
            | Some (Inr _, w2) \<Rightarrow> append_loop fs fd append_mode n w2))"

definition atomic_append_mode :: "string list \<Rightarrow> int" where
  "atomic_append_mode argv =
     (if length argv > 3 \<and> argv ! 3 \<noteq> [] \<and> hd (argv ! 3) = CHR ''x'' then 0 else O_APPEND)"

definition atomic_append_main :: "'w file_sys \<Rightarrow> string list \<Rightarrow> 'w \<Rightarrow> (int outcome \<times> 'w) option" where
  "atomic_append_main fs argv w =
     (if length argv < 3 then Some (Exits 1, w)
      else
        (case getLong (Some (argv ! 2)) GN_GT_0 None of
           Inl msg \<Rightarrow> Some (Exits 1, w)
         | Inr count \<Rightarrow>
             (let append_mode = atomic_append_mode argv;
                  (r, w1) = fs_open fs (argv ! 1) (O_CREAT OR O_EXCL OR O_WRONLY OR append_mode) S_RW_USR w;
                  (r2, w2) =
                    (if r = Inl EEXIST then fs_open fs (argv ! 1) (O_WRONLY OR append_mode) 0 w1
                     else (r, w1))
              in case r2 of
                   Inl e \<Rightarrow> Some (Exits 1, w2)
                 | Inr fd \<Rightarrow>
                     (case append_loop fs fd append_mode (nat count) w2 of
                        None \<Rightarrow> None
                      | Some (Returns _, w3) \<Rightarrow> Some (Returns 0, fs_close fs fd w3)
                      | Some (Exits k, w3) \<Rightarrow> Some (Exits k, w3)
                      | Some (Aborts, w3) \<Rightarrow> Some (Aborts, w3)
                      | Some (Undefined, w3) \<Rightarrow> Some (Undefined, w3)))))"

definition append_n_seek_main :: "'w file_sys \<Rightarrow> string list \<Rightarrow> 'w \<Rightarrow> (int outcome \<times> 'w) option" where
  "append_n_seek_main fs argv w =
     (if length argv < 2 then Some (Exits 1, w)
      else
        (case fs_open fs (argv ! 1) (O_WRONLY OR O_APPEND) 0 w of
           (Inl e, w1) \<Rightarrow> Some (Exits 1, w1)
         | (Inr fd, w1) \<Rightarrow>
             (case fs_lseek fs fd 0 SEEK_SET w1 of
                (Inl e, w2) \<Rightarrow> Some (Exits 1, w2)
              | (Inr _, w2) \<Rightarrow>
                  (case writep (fs_write fs) fd ''hello\<newline>'' 6 w2 of
                     None \<Rightarrow> None
                   | Some (Inl e, w3) \<Rightarrow> Some (Exits 1, w3)
                   | Some (Inr _, w3) \<Rightarrow> Some (Returns 0, fs_close fs fd w3)))))"

text \<open>\<open>atoll\<close> is \<open>strtoll\<close> in base 10 without the error report, on a 64-bit type.\<close>

definition large_file_main :: "'w file_sys \<Rightarrow> string list \<Rightarrow> 'w \<Rightarrow> int outcome \<times> 'w" where
  "large_file_main fs argv w =
     (if length argv \<noteq> 3 \<or> argv ! 1 = ''--help'' then (Exits 1, w)
      else
        (case fs_open fs (argv ! 1) (O_RDWR OR O_CREAT) S_RW_USR w of
           (Inl e, w1) \<Rightarrow> (Exits 1, w1)
         | (Inr fd, w1) \<Rightarrow>
             (case fs_lseek fs fd (fst (strtol 10 (argv ! 2))) SEEK_SET w1 of
                (Inl e, w2) \<Rightarrow> (Exits 1, w2)
              | (Inr _, w2) \<Rightarrow>
                  (case fs_write fs fd ''test'' w2 of
                     (Inl e, w3) \<Rightarrow> (Exits 1, w3)
                   | (Inr _, w3) \<Rightarrow> (Exits 0, w3)))))"

subsection \<open>What the copy loops deliver\<close>

text \<open>
  A regular file seen through one descriptor: its bytes and the file offset.  \<open>dst_file\<close> states what
  \<open>write\<close> does to it (POSIX: the bytes at the offset are replaced and the offset moves on), that
  reading the source does not touch it, and that writing does not touch the source.
\<close>

definition file_put :: "string \<times> nat \<Rightarrow> string \<Rightarrow> string \<times> nat" where
  "file_put f bs = (overwrite (fst f) (snd f) bs, snd f + length bs)"

definition dst_file ::
    "'w file_sys \<Rightarrow> fd \<Rightarrow> fd \<Rightarrow> ('w \<Rightarrow> string) \<Rightarrow> ('w \<Rightarrow> string \<times> nat) \<Rightarrow> ('w \<Rightarrow> string \<Rightarrow> 'w) \<Rightarrow> bool" where
  "dst_file fs src dst content file put \<longleftrightarrow>
     full_sink (fs_write fs) dst put
     \<and> (\<forall>w bs. file (put w bs) = file_put (file w) bs \<and> content (put w bs) = content w)
     \<and> (\<forall>n w. file (snd (fs_read fs src n w)) = file w)"

lemma overwrite_Nil [simp]: "overwrite d p [] = d"
  by (simp add: overwrite_def)

lemma overwrite_overwrite:
  "p \<le> length d \<Longrightarrow> overwrite (overwrite d p a) (p + length a) b = overwrite d p (a @ b)"
  by (simp add: overwrite_def ac_simps)

lemma length_overwrite: "p \<le> length d \<Longrightarrow> p + length a \<le> length (overwrite d p a)"
  by (simp add: overwrite_def)

lemma file_put_file_put:
  "snd f \<le> length (fst f) \<Longrightarrow> file_put (file_put f a) b = file_put f (a @ b)"
  by (simp add: file_put_def overwrite_overwrite)

lemma cp_loop_copies:
  assumes src: "stream_source (fs_read fs) s content (\<lambda>_. 0)"
    and dst: "dst_file fs s d content file put"
  shows "snd (file w) \<le> length (fst (file w)) \<Longrightarrow>
    \<exists>w'. cp_loop fs s d w = Some (Returns (), w') \<and> file w' = file_put (file w) (content w)"
proof (induction w rule: progress_induct [of "\<lambda>w. length (content w)" "\<lambda>_. 0"])
  case (step w)
  have sink: "full_sink (fs_write fs) d put" using dst by (simp add: dst_file_def)
  obtain r w1 where r: "fs_read fs s IO_BUFF_SIZE w = (r, w1)" by fastforce
  have pos: "0 < IO_BUFF_SIZE" by (simp add: IO_BUFF_SIZE_def)
  obtain bs where Inr: "r = Inr bs"
    using stream_source_Inl (3) [OF src pos] r by (cases r) auto
  note f = stream_source_Inr [OF src pos r [unfolded Inr]]
  have fw: "file w1 = file w" using dst r unfolding dst_file_def by (metis snd_conv)
  show ?case
  proof (cases "bs = []")
    case True
    with f r Inr fw show ?thesis
      by (subst cp_loop.simps) (auto simp: file_put_def overwrite_def)
  next
    case False
    let ?w2 = "put w1 bs"
    have wp: "writep (fs_write fs) d bs (length bs) w1 = Some (Inr (length bs), ?w2)"
      using writep_full [OF sink False] .
    have w2: "content ?w2 = content w1" "file ?w2 = file_put (file w) bs"
      using dst fw unfolding dst_file_def by simp_all
    moreover have "snd (file ?w2) \<le> length (fst (file ?w2))"
      using step.prems w2 length_overwrite [of "snd (file w)"] by (simp add: file_put_def)
    moreover have "length (content ?w2) < length (content w)"
      using False f w2 by simp
    ultimately show ?thesis
      using step.IH [of ?w2] step.prems r Inr False wp f
      by (subst cp_loop.simps) (auto simp: file_put_file_put)
  qed
qed

text \<open>The same for \<open>tee\<close>, with two streams to write to.\<close>

definition tee_streams ::
    "'w file_sys \<Rightarrow> fd \<Rightarrow> ('w \<Rightarrow> string) \<Rightarrow> ('w \<Rightarrow> string) \<Rightarrow> ('w \<Rightarrow> string)
      \<Rightarrow> ('w \<Rightarrow> string \<Rightarrow> 'w) \<Rightarrow> ('w \<Rightarrow> string \<Rightarrow> 'w) \<Rightarrow> bool" where
  "tee_streams fs fd content out file put1 put2 \<longleftrightarrow>
     stream_source (fs_read fs) STDIN_FILENO content (\<lambda>_. 0)
     \<and> full_sink (fs_write fs) STDOUT_FILENO put1 \<and> full_sink (fs_write fs) fd put2
     \<and> (\<forall>w bs. content (put1 w bs) = content w \<and> content (put2 w bs) = content w
          \<and> out (put1 w bs) = out w @ bs \<and> out (put2 w bs) = out w
          \<and> file (put1 w bs) = file w \<and> file (put2 w bs) = file w @ bs)
     \<and> (\<forall>n w. out (snd (fs_read fs STDIN_FILENO n w)) = out w
          \<and> file (snd (fs_read fs STDIN_FILENO n w)) = file w)"

lemma tee_loop_copies:
  assumes "tee_streams fs fd content out file put1 put2"
  shows "\<exists>w'. tee_loop fs fd w = Some (Returns (), w')
            \<and> out w' = out w @ content w \<and> file w' = file w @ content w"
proof (induction w rule: progress_induct [of "\<lambda>w. length (content w)" "\<lambda>_. 0"])
  case (step w)
  from assms have src: "stream_source (fs_read fs) STDIN_FILENO content (\<lambda>_. 0)"
    and snk: "full_sink (fs_write fs) STDOUT_FILENO put1" "full_sink (fs_write fs) fd put2"
    by (simp_all add: tee_streams_def)
  obtain r w1 where r: "fs_read fs STDIN_FILENO IO_BUFF_SIZE w = (r, w1)" by fastforce
  have pos: "0 < IO_BUFF_SIZE" by (simp add: IO_BUFF_SIZE_def)
  obtain bs where Inr: "r = Inr bs"
    using stream_source_Inl (3) [OF src pos] r by (cases r) auto
  note f = stream_source_Inr [OF src pos r [unfolded Inr]]
  have fw: "out w1 = out w" "file w1 = file w"
    using assms r unfolding tee_streams_def by (metis snd_conv)+
  show ?case
  proof (cases "bs = []")
    case True
    with f r Inr fw show ?thesis by (subst tee_loop.simps) auto
  next
    case False
    let ?w3 = "put2 (put1 w1 bs) bs"
    have w3: "content ?w3 = content w1" "out ?w3 = out w @ bs" "file ?w3 = file w @ bs"
      using assms fw by (simp_all add: tee_streams_def)
    moreover have "length (content ?w3) < length (content w)"
      using False f w3 by simp
    ultimately show ?thesis
      using step.IH [of ?w3] r Inr False f writep_full [OF snk(1) False] writep_full [OF snk(2) False]
      by (subst tee_loop.simps) auto
  qed
qed

text \<open>
  A file written only by this process: in append mode every write goes to the end; otherwise the
  program moves the offset there first.
\<close>

definition append_file ::
    "'w file_sys \<Rightarrow> fd \<Rightarrow> int \<Rightarrow> ('w \<Rightarrow> string \<times> nat) \<Rightarrow> ('w \<Rightarrow> string \<Rightarrow> 'w) \<Rightarrow> bool" where
  "append_file fs fd mode file put \<longleftrightarrow>
     full_sink (fs_write fs) fd put
     \<and> (\<forall>w bs. file (put w bs) =
          (if mode = O_APPEND then (fst (file w) @ bs, length (fst (file w)) + length bs)
           else file_put (file w) bs))
     \<and> (\<forall>w. \<exists>w' k. fs_lseek fs fd 0 SEEK_END w = (Inr k, w') \<and> file w' = (fst (file w), length (fst (file w))))"

lemma append_loop_appends:
  assumes "append_file fs fd mode file put" "mode = O_APPEND \<or> mode = 0"
  shows "\<exists>w'. append_loop fs fd mode n w = Some (Returns (), w')
            \<and> fst (file w') = fst (file w) @ replicate n (CHR ''x'')"
proof (induction n arbitrary: w)
  case 0
  then show ?case by simp
next
  case (Suc n)
  have wp: "writep (fs_write fs) fd ''x'' 1 v = Some (Inr 1, put v ''x'')" for v
    using assms(1) writep_full [of "fs_write fs" fd put "''x''" v] by (simp add: append_file_def)
  obtain w1 k where w1: "fs_lseek fs fd 0 SEEK_END w = (Inr k, w1)"
    "file w1 = (fst (file w), length (fst (file w)))"
    using assms(1) unfolding append_file_def by blast
  have "fst (file (put w ''x'')) = fst (file w) @ ''x''" if "mode = O_APPEND"
    using assms(1) that by (simp add: append_file_def)
  moreover have "fst (file (put w1 ''x'')) = fst (file w) @ ''x''" if "mode = 0"
    using assms(1) that w1 by (simp add: append_file_def O_APPEND_def file_put_def overwrite_def)
  ultimately show ?case
    using assms(2) Suc.IH [of "put w ''x''"] Suc.IH [of "put w1 ''x''"] w1 wp
    by (auto simp: O_APPEND_def)
qed

subsection \<open>Instances of the laws\<close>

definition two_files :: "(string \<times> string \<times> nat) file_sys" where
  "two_files =
     \<lparr>fs_open = (\<lambda>path flags mode w. (Inr (if flags = O_RDONLY then 3 else 4), w)),
      fs_close = (\<lambda>fd w. w),
      fs_read = (\<lambda>fd n w. if fd = 3 then (Inr (take n (fst w)), (drop n (fst w), snd w)) else (Inl EBADF, w)),
      fs_write = (\<lambda>fd bs w. if fd = 4 then (Inr (length bs), (fst w, file_put (snd w) bs)) else (Inl EBADF, w)),
      fs_lseek = (\<lambda>fd off whence w. (Inr (int (length (fst (snd w)))), (fst w, (fst (snd w), length (fst (snd w))))))\<rparr>"

definition three_streams :: "(string \<times> string \<times> string) file_sys" where
  "three_streams =
     \<lparr>fs_open = (\<lambda>path flags mode w. (Inr 3, w)),
      fs_close = (\<lambda>fd w. w),
      fs_read = (\<lambda>fd n w. (Inr (take n (fst w)), (drop n (fst w), snd w))),
      fs_write = (\<lambda>fd bs w. (Inr (length bs),
         if fd = STDOUT_FILENO then (fst w, fst (snd w) @ bs, snd (snd w))
         else (fst w, fst (snd w), snd (snd w) @ bs))),
      fs_lseek = (\<lambda>fd off whence w. (Inr off, w))\<rparr>"

lemma two_files_dst:
  "dst_file two_files 3 4 fst snd (\<lambda>w bs. (fst w, file_put (snd w) bs))"
  "stream_source (fs_read two_files) 3 fst (\<lambda>_. 0)"
  by (auto simp: dst_file_def full_sink_def stream_source_def two_files_def)

lemma two_files_append:
  "append_file two_files 4 0 snd (\<lambda>w bs. (fst w, file_put (snd w) bs))"
  by (auto simp: append_file_def full_sink_def two_files_def O_APPEND_def)

lemma three_streams_tee:
  "tee_streams three_streams 3 fst (\<lambda>w. fst (snd w)) (\<lambda>w. snd (snd w))
     (\<lambda>w bs. (fst w, fst (snd w) @ bs, snd (snd w))) (\<lambda>w bs. (fst w, fst (snd w), snd (snd w) @ bs))"
  by (auto simp: tee_streams_def full_sink_def stream_source_def three_streams_def STDOUT_FILENO_def)

subsection \<open>Properties\<close>

text \<open>
  When \<open>write\<close> transfers only the first \<open>k\<close> of \<open>n\<close> bytes, \<open>writep\<close> starts again at the beginning of
  the buffer: its second call passes the first \<open>n - k\<close> bytes, and it then reports that all \<open>n\<close> bytes
  were written.
\<close>

theorem writep_short_write:
  assumes "0 < k" "k < n" "n = length buf"
    "wr fd buf w = (Inr k, w1)" "wr fd (take (n - k) buf) w1 = (Inr (n - k), w2)"
  shows "writep wr fd buf n w = Some (Inr n, w2)"
  using assms
  by (auto simp: writep_def writep_loop.simps [of wr fd buf "length buf" 0]
      writep_loop.simps [of wr fd buf "length buf" k] writep_loop.simps [of wr fd buf "length buf" "length buf"])

theorem writep_short_write_witness:
  "writep pipe_write 1 ''hello'' 5 (0, []) = Some (Inr 5, (0, ''helhe''))"
  using writep_short_write [of 3 5 "''hello''" pipe_write 1 "(0, [])" "(0, ''hel'')" "(0, ''helhe'')"]
  by (simp add: pipe_write_def)

text \<open>
  On a regular file, \<open>xwritev\<close> stores the buffers one after the other and \<open>xreadv\<close> scatters the
  bytes back: reading into buffers of the same lengths what \<open>xwritev\<close> appended returns the same
  buffers and the same byte count.
\<close>

theorem xwritev_xreadv_roundtrip:
  assumes "full_sink wr fd put" "full_source rd fd content"
    and "\<And>w bs. content (put w bs) = content w @ bs"
    and "content w = []" "\<forall>v \<in> set iov. v \<noteq> []" "map length bufs = map length iov"
  shows "\<exists>w1 w2. xwritev wr fd iov w = Some (Inr (length (concat iov)), w1)
           \<and> xreadv rd fd bufs w1 = (Inr (length (concat iov)), iov, w2)"
proof -
  have put: "content (foldl put u xs) = content u @ concat xs" for u xs
    by (induction xs arbitrary: u) (simp_all add: assms(3))
  have len: "length (concat bufs) = length (concat iov)"
    using arg_cong [OF assms(6), of sum_list] by (simp add: length_concat)
  have ne: "\<forall>b \<in> set bufs. b \<noteq> []"
  proof
    fix b assume "b \<in> set bufs"
    then have "length b \<in> set (map length iov)" using assms(6) [symmetric] by force
    with assms(5) show "b \<noteq> []" by auto
  qed
  let ?w1 = "foldl put w iov"
  have "xwritev wr fd iov w = Some (Inr (length (concat iov)), ?w1)"
    using xwritev_loop_full [OF assms(1,5), of 0 w] by (simp add: xwritev_def)
  moreover obtain iov' w2 where r: "xreadv rd fd bufs ?w1 = (Inr (length (concat bufs)), iov', w2)"
    "map length iov' = map length bufs" "concat iov' = concat iov"
    using xreadv_loop_full [OF assms(2) ne, of ?w1 0] put assms(4) len by (auto simp: xreadv_def)
  moreover have "iov' = iov"
    using r(2,3) assms(6) by (simp add: concat_eq_lengths)
  ultimately show ?thesis using len by auto
qed

theorem xwritev_xreadv_roundtrip_witness:
  "\<exists>w1 w2. xwritev (\<lambda>fd bs w. (Inr (length bs), w @ bs)) 5 [''aaaa'', ''bb'', ''c''] [] = Some (Inr 7, w1)
     \<and> xreadv (\<lambda>fd n w. (Inr (take n w), drop n w)) 5 [''....'', ''..'', ''.''] w1
         = (Inr 7, [''aaaa'', ''bb'', ''c''], w2)"
  using xwritev_xreadv_roundtrip [of "\<lambda>fd bs w. (Inr (length bs), w @ bs)" 5 "\<lambda>w bs. w @ bs"
      "\<lambda>fd n w. (Inr (take n w), drop n w)" id "[]" "[''aaaa'', ''bb'', ''c'']" "[''....'', ''..'', ''.'']"]
  by (simp add: full_sink_def full_source_def eval_nat_numeral)

text \<open>
  \<open>cp SRC DST\<close> copies: when both files open and are regular files, the program returns 0 and the
  destination starts with exactly the bytes of the source.  It does not truncate the destination:
  what an existing longer file held beyond that length is still there.
\<close>

theorem cp_main_copies:
  assumes "fs_open fs a O_RDONLY 0 w = (Inr s, w1)"
    "fs_open fs b (O_WRONLY OR O_CREAT) S_RW_USR w1 = (Inr d, w2)"
    "stream_source (fs_read fs) s content (\<lambda>_. 0)" "dst_file fs s d content file put"
    "\<And>fd v. file (fs_close fs fd v) = file v" "snd (file w2) = 0"
  shows "\<exists>w'. cp_main fs [prog, a, b] w = Some (Returns 0, w')
            \<and> fst (file w') = content w2 @ drop (length (content w2)) (fst (file w2))"
proof -
  obtain w3 where "cp_loop fs s d w2 = Some (Returns (), w3)" "file w3 = file_put (file w2) (content w2)"
    using cp_loop_copies [OF assms(3,4), of w2] assms(6) by auto
  with assms show ?thesis
    by (auto simp: cp_main_def file_put_def overwrite_def)
qed

theorem cp_main_copies_witness:
  "\<exists>w'. cp_main two_files [''cp'', ''a'', ''b''] (''new'', ''old data'', 0) = Some (Returns 0, w')
      \<and> fst (snd w') = ''new data''"
  using cp_main_copies [of two_files "''a''" "(''new'', ''old data'', 0)" 3 "(''new'', ''old data'', 0)"
      "''b''" 4 "(''new'', ''old data'', 0)" fst snd "\<lambda>w bs. (fst w, file_put (snd w) bs)" "''cp''"]
  by (simp add: two_files_dst) (simp add: two_files_def O_RDONLY_def O_WRONLY_def O_CREAT_def)

text \<open>
  \<open>tee FILE\<close> returns 0 after having copied all of its standard input both to standard output
  and to the end of what the opened file holds.
\<close>

theorem tee_main_copies:
  assumes "fs_open fs f (O_WRONLY OR O_CREAT OR O_TRUNC) S_RW_USR w = (Inr fd, w1)"
    "tee_streams fs fd content out file put1 put2"
    "\<And>fd v. file (fs_close fs fd v) = file v \<and> out (fs_close fs fd v) = out v"
  shows "\<exists>w'. tee_main fs [] [f] w = Some (Returns 0, w')
            \<and> out w' = out w1 @ content w1 \<and> file w' = file w1 @ content w1"
  using tee_loop_copies [OF assms(2), of w1] assms(1,3) by (auto simp: tee_main_def)

theorem tee_main_copies_witness:
  "\<exists>w'. tee_main three_streams [] [''log''] (''hello'', [], []) = Some (Returns 0, w')
      \<and> fst (snd w') = ''hello'' \<and> snd (snd w') = ''hello''"
  using tee_main_copies [of three_streams "''log''" "(''hello'', [], [])" 3 "(''hello'', [], [])",
      OF _ three_streams_tee]
  by (simp add: three_streams_def)

text \<open>
  A single \<open>atomic_append\<close> process adds exactly \<open>count\<close> bytes to the end of the file, in append
  mode as well as when it seeks to the end before each write.
\<close>

theorem atomic_append_adds:
  assumes "append_file fs fd mode file put" "mode = O_APPEND \<or> mode = 0"
  shows "\<exists>w'. append_loop fs fd mode n w = Some (Returns (), w')
            \<and> fst (file w') = fst (file w) @ replicate n (CHR ''x'')
            \<and> length (fst (file w')) = length (fst (file w)) + n"
  using append_loop_appends [OF assms, of n w] by auto

theorem atomic_append_adds_witness:
  "\<exists>w'. append_loop two_files 4 0 3 ([], ''ab'', 0) = Some (Returns (), w')
      \<and> fst (snd w') = ''ab'' @ replicate 3 (CHR ''x'') \<and> length (fst (snd w')) = 2 + 3"
  using atomic_append_adds [OF two_files_append, of 3 "([], ''ab'', 0)"] by simp

end
