(* ===== verification/Watch_Cache.thy ===== *)
theory Watch_Cache
  imports C_String
begin

text \<open>
  The watch cache of \<open>tlpi-dist/inotify/inotify_dtree.c\<close>: a growing array of slots, each unused
  (descriptor \<open>-1\<close>) or holding a watch descriptor and the pathname it watches.  The array
  operations are shown to implement a finite map from watch descriptors to pathnames; the locale
  \<open>watch_map\<close> states that interface and what follows from it for renaming and removing subtrees.
\<close>

definition PATH_MAX :: nat where "PATH_MAX = 4096"

record watch =
  wd :: int          \<comment> \<open>watch descriptor, -1 if the slot is unused\<close>
  path :: string     \<comment> \<open>cached pathname\<close>

type_synonym cache = "watch list"

definition unused :: watch where
  "unused = \<lparr>wd = -1, path = []\<rparr>"

text \<open>A linear scan for the first slot with a property, as the C loops do it; \<open>-1\<close> is \<^const>\<open>None\<close>.\<close>

fun scan :: "(watch \<Rightarrow> bool) \<Rightarrow> cache \<Rightarrow> nat \<Rightarrow> nat option" where
  "scan P [] j = None"
| "scan P (e # c) j = (if P e then Some j else scan P c (Suc j))"

definition findWatch :: "cache \<Rightarrow> int \<Rightarrow> nat option" where
  "findWatch c w = scan (\<lambda>e. wd e = w) c 0"

definition markCacheSlotEmpty :: "cache \<Rightarrow> nat \<Rightarrow> cache" where
  "markCacheSlotEmpty c slot = c[slot := unused]"

definition ALLOC_INCR :: nat where "ALLOC_INCR = 200"

text \<open>
  \<open>findEmptyCacheSlot\<close> returns the grown cache and the slot; \<open>realloc\<close> is taken to succeed (its
  failure ends the process).
\<close>

definition findEmptyCacheSlot :: "cache \<Rightarrow> cache \<times> nat" where
  "findEmptyCacheSlot c =
     (case scan (\<lambda>e. wd e = -1) c 0 of
        Some j \<Rightarrow> (c, j)
      | None \<Rightarrow> (c @ replicate ALLOC_INCR unused, length c))"

definition addWatchToCache :: "cache \<Rightarrow> int \<Rightarrow> string \<Rightarrow> cache \<times> nat" where
  "addWatchToCache c w pathname =
     (let (c', slot) = findEmptyCacheSlot c
      in (c'[slot := \<lparr>wd = w, path = take PATH_MAX pathname\<rparr>], slot))"

definition pathnameToCacheSlot :: "cache \<Rightarrow> string \<Rightarrow> nat option" where
  "pathnameToCacheSlot c pathname = scan (\<lambda>e. wd e \<ge> 0 \<and> path e = pathname) c 0"

definition pathnameInCache :: "cache \<Rightarrow> string \<Rightarrow> bool" where
  "pathnameInCache c pathname \<longleftrightarrow> pathnameToCacheSlot c pathname \<noteq> None"

text \<open>
  The test of \<open>rewriteCachedPaths\<close> and \<open>zapSubtree\<close>: \<open>p\<close> is the directory \<open>dir\<close> or lies below it.
\<close>

definition in_subtree :: "string \<Rightarrow> string \<Rightarrow> bool" where
  "in_subtree dir p \<longleftrightarrow>
     has_prefix dir p \<and> (length p = length dir \<or> p ! length dir = CHR ''/'')"

definition rewriteEntry :: "string \<Rightarrow> string \<Rightarrow> watch \<Rightarrow> watch" where
  "rewriteEntry fullPath newPrefix e =
     (if in_subtree fullPath (path e)
      then e\<lparr>path := take PATH_MAX (snprintf PATH_MAX (newPrefix @ drop (length fullPath) (path e)))\<rparr>
      else e)"

definition rewriteCachedPaths :: "cache \<Rightarrow> string \<Rightarrow> string \<Rightarrow> string \<Rightarrow> string \<Rightarrow> cache" where
  "rewriteCachedPaths c oldPathPrefix oldName newPathPrefix newName =
     (let fullPath = snprintf PATH_MAX (oldPathPrefix @ ''/'' @ oldName);
          newPrefix = snprintf PATH_MAX (newPathPrefix @ ''/'' @ newName)
      in map (rewriteEntry fullPath newPrefix) c)"

subsection \<open>Scanning\<close>

lemma scan_Some:
  "scan P c j = Some i \<Longrightarrow> j \<le> i \<and> i < j + length c \<and> P (c ! (i - j)) \<and> (\<forall>k < i - j. \<not> P (c ! k))"
proof (induction c arbitrary: j)
  case Nil
  then show ?case by simp
next
  case (Cons e c)
  show ?case
  proof (cases "P e")
    case True
    with Cons.prems show ?thesis by auto
  next
    case False
    with Cons.prems Cons.IH [of "Suc j"] have
      *: "Suc j \<le> i" "i < Suc j + length c" "P (c ! (i - Suc j))" "\<forall>k < i - Suc j. \<not> P (c ! k)"
      by auto
    then have "i - j = Suc (i - Suc j)" by simp
    moreover have "\<not> P ((e # c) ! k)" if "k < i - j" for k
      using that False * by (cases k) auto
    ultimately show ?thesis using * by auto
  qed
qed

lemma scan_None: "scan P c j = None \<longleftrightarrow> (\<forall>e \<in> set c. \<not> P e)"
  by (induction c arbitrary: j) auto

lemma findWatch_Some:
  "findWatch c w = Some i \<Longrightarrow> i < length c \<and> wd (c ! i) = w"
  using scan_Some [of "\<lambda>e. wd e = w" c 0 i] by (simp add: findWatch_def)

lemma findWatch_None: "findWatch c w = None \<longleftrightarrow> w \<notin> wd ` set c"
  by (auto simp: findWatch_def scan_None)

subsection \<open>The cache as a map\<close>

text \<open>
  Well-formed caches: unused slots hold the empty path, and no descriptor occurs twice.
\<close>

definition cache_inv :: "cache \<Rightarrow> bool" where
  "cache_inv c \<longleftrightarrow>
     (\<forall>e \<in> set c. wd e < 0 \<longrightarrow> e = unused)
     \<and> (\<forall>i < length c. \<forall>j < length c. wd (c ! i) = wd (c ! j) \<longrightarrow> 0 \<le> wd (c ! i) \<longrightarrow> i = j)"

definition cache_lookup :: "cache \<Rightarrow> int \<Rightarrow> string option" where
  "cache_lookup c w =
     (if w < 0 then None else case findWatch c w of None \<Rightarrow> None | Some i \<Rightarrow> Some (path (c ! i)))"

definition cache_entries :: "cache \<Rightarrow> (int \<times> string) set" where
  "cache_entries c = {(wd e, path e) | e. e \<in> set c \<and> 0 \<le> wd e}"

lemma cache_entries_image: "cache_entries c = (\<lambda>e. (wd e, path e)) ` {e \<in> set c. 0 \<le> wd e}"
  by (auto simp: cache_entries_def)

lemma cache_inv_unique:
  assumes "cache_inv c" "i < length c" "j < length c" "wd (c ! i) = wd (c ! j)" "0 \<le> wd (c ! i)"
  shows "i = j"
  using assms by (simp add: cache_inv_def)

lemma cache_lookup_iff:
  assumes "cache_inv c"
  shows "cache_lookup c w = Some p \<longleftrightarrow> (w, p) \<in> cache_entries c"
proof
  assume "cache_lookup c w = Some p"
  then obtain i where "0 \<le> w" "findWatch c w = Some i" "path (c ! i) = p"
    by (auto simp: cache_lookup_def split: if_splits option.splits)
  with findWatch_Some [of c w i] show "(w, p) \<in> cache_entries c"
    by (force simp: cache_entries_def intro!: exI [of _ "c ! i"])
next
  assume "(w, p) \<in> cache_entries c"
  then obtain j where j: "j < length c" "wd (c ! j) = w" "path (c ! j) = p" "0 \<le> w"
    by (auto simp: cache_entries_def in_set_conv_nth)
  then obtain i where i: "findWatch c w = Some i"
    using findWatch_None [of c w] by (cases "findWatch c w") (auto dest: nth_mem)
  with findWatch_Some [OF i] j assms have "i = j"
    using cache_inv_unique [of c i j] by auto
  with i j show "cache_lookup c w = Some p" by (simp add: cache_lookup_def)
qed

lemma cache_inv_Nil [simp]: "cache_inv []"
  by (simp add: cache_inv_def)

lemma cache_entries_Nil [simp]: "cache_entries [] = {}"
  by (simp add: cache_entries_def)

text \<open>Overwriting one slot.\<close>

lemma cache_entries_update:
  assumes "cache_inv c" "i < length c"
  shows "cache_entries (c[i := e]) =
    cache_entries c - {(wd (c ! i), path (c ! i))} \<union> (if 0 \<le> wd e then {(wd e, path e)} else {})"
proof -
  have "cache_entries (c[i := e]) =
      {(wd (c ! k), path (c ! k)) | k. k < length c \<and> k \<noteq> i \<and> 0 \<le> wd (c ! k)}
      \<union> (if 0 \<le> wd e then {(wd e, path e)} else {})"
    using assms(2) by (fastforce simp: cache_entries_def in_set_conv_nth nth_list_update split: if_splits)
  moreover have "{(wd (c ! k), path (c ! k)) | k. k < length c \<and> k \<noteq> i \<and> 0 \<le> wd (c ! k)} =
      cache_entries c - {(wd (c ! i), path (c ! i))}"
    using assms cache_inv_unique [OF assms(1), of _ i]
    by (fastforce simp: cache_entries_def in_set_conv_nth)
  ultimately show ?thesis by simp
qed

lemma cache_inv_update:
  assumes "cache_inv c" "i < length c" "wd e < 0 \<Longrightarrow> e = unused"
    "0 \<le> wd e \<Longrightarrow> \<forall>k < length c. k \<noteq> i \<longrightarrow> wd (c ! k) \<noteq> wd e"
  shows "cache_inv (c[i := e])"
proof -
  have "\<forall>x \<in> set (c[i := e]). wd x < 0 \<longrightarrow> x = unused"
    using assms(1,3) set_update_subset_insert [of c i e] by (auto simp: cache_inv_def)
  moreover have "k = l" if "k < length c" "l < length c" "wd (c[i := e] ! k) = wd (c[i := e] ! l)"
      "0 \<le> wd (c[i := e] ! k)" for k l
    using that assms(2,4) cache_inv_unique [OF assms(1), of k l]
    by (cases "k = i"; cases "l = i") (auto simp: nth_list_update)
  ultimately show ?thesis by (simp add: cache_inv_def)
qed

lemma markCacheSlotEmpty_inv: "cache_inv c \<Longrightarrow> cache_inv (markCacheSlotEmpty c i)"
  using cache_inv_update [of c i unused]
  by (cases "i < length c") (auto simp: markCacheSlotEmpty_def unused_def list_update_beyond)

lemma markCacheSlotEmpty_entries:
  "cache_inv c \<Longrightarrow> i < length c \<Longrightarrow>
   cache_entries (markCacheSlotEmpty c i) = cache_entries c - {(wd (c ! i), path (c ! i))}"
  using cache_entries_update [of c i unused] by (simp add: markCacheSlotEmpty_def unused_def)

lemma findEmptyCacheSlot_spec:
  assumes "cache_inv c" "findEmptyCacheSlot c = (c', slot)"
  shows "cache_inv c'" "cache_entries c' = cache_entries c" "slot < length c'" "c' ! slot = unused"
proof -
  have "cache_inv c' \<and> cache_entries c' = cache_entries c \<and> slot < length c' \<and> c' ! slot = unused"
  proof (cases "scan (\<lambda>e. wd e = -1) c 0")
    case None
    with assms have c': "c' = c @ replicate ALLOC_INCR unused" "slot = length c"
      by (auto simp: findEmptyCacheSlot_def)
    have "cache_inv c'"
      using assms(1) unfolding cache_inv_def c'
      by (auto simp: nth_append unused_def split: if_splits)
    then show ?thesis
      by (auto simp: c' cache_entries_def unused_def ALLOC_INCR_def nth_append)
  next
    case (Some j)
    with assms scan_Some [OF Some] show ?thesis
      by (auto simp: findEmptyCacheSlot_def cache_inv_def)
  qed
  then show "cache_inv c'" "cache_entries c' = cache_entries c" "slot < length c'" "c' ! slot = unused"
    by auto
qed

lemma addWatchToCache_spec:
  assumes "cache_inv c" "0 \<le> w" "findWatch c w = None" "addWatchToCache c w p = (c', slot)"
  shows "cache_inv c'" "cache_entries c' = insert (w, take PATH_MAX p) (cache_entries c)"
    "slot < length c'" "c' ! slot = \<lparr>wd = w, path = take PATH_MAX p\<rparr>"
proof -
  obtain c1 where c1: "findEmptyCacheSlot c = (c1, slot)"
    and c': "c' = c1[slot := \<lparr>wd = w, path = take PATH_MAX p\<rparr>]"
    using assms(4) by (auto simp: addWatchToCache_def Let_def split: prod.splits)
  note s = findEmptyCacheSlot_spec [OF assms(1) c1]
  have "wd (c1 ! k) \<noteq> w" if "k < length c1" for k
  proof
    assume "wd (c1 ! k) = w"
    with that assms(2) have "(w, path (c1 ! k)) \<in> cache_entries c1"
      by (auto simp: cache_entries_def)
    with s(2) have "w \<in> wd ` set c" by (auto simp: cache_entries_def)
    with assms(3) show False by (simp add: findWatch_None)
  qed
  then show "cache_inv c'"
    unfolding c' using s assms(2) by (intro cache_inv_update) auto
  show "cache_entries c' = insert (w, take PATH_MAX p) (cache_entries c)"
    unfolding c' using cache_entries_update [OF s(1,3)] s assms(2)
    by (auto simp: unused_def cache_entries_def)
  show "slot < length c'" "c' ! slot = \<lparr>wd = w, path = take PATH_MAX p\<rparr>"
    using s by (simp_all add: c')
qed

subsection \<open>Pathnames below a directory\<close>

lemma in_subtree_iff: "in_subtree dir p \<longleftrightarrow> p = dir \<or> (\<exists>t. p = dir @ ''/'' @ t)"
proof
  assume "in_subtree dir p"
  then obtain t where t: "p = dir @ t" and d: "length p = length dir \<or> p ! length dir = CHR ''/''"
    by (auto simp: in_subtree_def has_prefix_iff)
  show "p = dir \<or> (\<exists>t. p = dir @ ''/'' @ t)"
    using t d by (cases t) (auto simp: nth_append)
qed (auto simp: in_subtree_def has_prefix_iff)

lemma in_subtree_refl [simp]: "in_subtree dir dir"
  by (simp add: in_subtree_iff)

lemma not_in_subtree_Nil [simp]: "dir \<noteq> [] \<Longrightarrow> \<not> in_subtree dir []"
  by (simp add: in_subtree_iff)

text \<open>The pathname of an object after the directory \<open>old\<close> has been renamed to \<open>new\<close>.\<close>

definition moved :: "string \<Rightarrow> string \<Rightarrow> string \<Rightarrow> string" where
  "moved old new p = (if in_subtree old p then new @ drop (length old) p else p)"

lemma moved_self [simp]: "moved old new old = new"
  by (simp add: moved_def)

lemma in_subtree_moved: "in_subtree old p \<Longrightarrow> in_subtree new (moved old new p)"
  by (auto simp: moved_def in_subtree_iff)

lemma moved_back: "\<not> in_subtree new p \<Longrightarrow> moved new old (moved old new p) = p"
  by (cases "in_subtree old p") (auto simp: moved_def in_subtree_iff)

subsection \<open>Renaming\<close>

lemma joined_path_nonempty [simp]: "snprintf PATH_MAX (a @ CHR ''/'' # b) \<noteq> []"
  by (cases a) (auto simp: snprintf_def PATH_MAX_def)

lemma wd_rewriteEntry [simp]: "wd (rewriteEntry old new e) = wd e"
  by (simp add: rewriteEntry_def)

lemma rewriteEntry_unused [simp]: "old \<noteq> [] \<Longrightarrow> rewriteEntry old new unused = unused"
  by (simp add: rewriteEntry_def unused_def)

lemma path_rewriteEntry:
  "length (moved old new (path e)) < PATH_MAX \<Longrightarrow> path (rewriteEntry old new e) = moved old new (path e)"
  by (auto simp: rewriteEntry_def moved_def split: if_splits)

lemma rewriteCachedPaths_inv:
  assumes "cache_inv c"
  shows "cache_inv (rewriteCachedPaths c a b d e)"
proof -
  have "rewriteEntry (snprintf PATH_MAX (a @ CHR ''/'' # b)) new x = unused" if "x \<in> set c" "wd x < 0" for x new
  proof -
    have "x = unused" using assms that by (simp add: cache_inv_def)
    then show ?thesis by simp
  qed
  with assms show ?thesis
    by (auto simp: cache_inv_def rewriteCachedPaths_def Let_def)
qed

lemma rewriteCachedPaths_entries:
  assumes "length (a @ ''/'' @ b) < PATH_MAX" "length (d @ ''/'' @ e) < PATH_MAX"
    and "\<forall>(w, p) \<in> cache_entries c. length (moved (a @ ''/'' @ b) (d @ ''/'' @ e) p) < PATH_MAX"
  shows "cache_entries (rewriteCachedPaths c a b d e) =
    (\<lambda>(w, p). (w, moved (a @ ''/'' @ b) (d @ ''/'' @ e) p)) ` cache_entries c"
proof -
  let ?r = "rewriteEntry (a @ ''/'' @ b) (d @ ''/'' @ e)" and ?m = "moved (a @ ''/'' @ b) (d @ ''/'' @ e)"
  have r: "rewriteCachedPaths c a b d e = map ?r c"
    using assms(1,2) by (simp add: rewriteCachedPaths_def Let_def)
  have p: "path (?r x) = ?m (path x)" if "x \<in> set c" "0 \<le> wd x" for x
  proof (rule path_rewriteEntry)
    have "(wd x, path x) \<in> cache_entries c" using that by (auto simp: cache_entries_def)
    with assms(3) show "length (?m (path x)) < PATH_MAX" by fast
  qed
  have "cache_entries (map ?r c) = (\<lambda>x. (wd x, path (?r x))) ` {x \<in> set c. 0 \<le> wd x}"
  proof -
    have "{x \<in> set (map ?r c). 0 \<le> wd x} = ?r ` {x \<in> set c. 0 \<le> wd x}" by auto
    then show ?thesis by (simp add: cache_entries_image image_image)
  qed
  also have "\<dots> = (\<lambda>x. (wd x, ?m (path x))) ` {x \<in> set c. 0 \<le> wd x}"
    using p by (intro image_cong) auto
  also have "\<dots> = (\<lambda>(w, p). (w, ?m p)) ` cache_entries c"
    by (auto simp: cache_entries_image image_image)
  finally show ?thesis by (simp add: r)
qed

lemma pathnameInCache_iff: "pathnameInCache c p \<longleftrightarrow> (\<exists>w. (w, p) \<in> cache_entries c)"
  by (auto simp: pathnameInCache_def pathnameToCacheSlot_def scan_None cache_entries_def)

subsection \<open>The interface of the cache\<close>

text \<open>
  What the event handlers rely on: a finite map from watch descriptors to pathnames with insertion
  of a new descriptor, removal of a descriptor, and renaming of a directory.
\<close>

locale watch_map =
  fixes invar :: "'c \<Rightarrow> bool"
    and lookup :: "'c \<Rightarrow> int \<Rightarrow> string option"
    and insert_watch :: "'c \<Rightarrow> int \<Rightarrow> string \<Rightarrow> 'c"
    and remove_watch :: "'c \<Rightarrow> int \<Rightarrow> 'c"
    and rename_dir :: "'c \<Rightarrow> string \<Rightarrow> string \<Rightarrow> string \<Rightarrow> string \<Rightarrow> 'c"
  assumes invar_insert: "invar c \<Longrightarrow> 0 \<le> w \<Longrightarrow> lookup c w = None \<Longrightarrow> invar (insert_watch c w p)"
    and invar_remove: "invar c \<Longrightarrow> invar (remove_watch c w)"
    and invar_rename: "invar c \<Longrightarrow> invar (rename_dir c a b d e)"
    and lookup_insert: "invar c \<Longrightarrow> 0 \<le> w \<Longrightarrow> lookup c w = None \<Longrightarrow> length p \<le> PATH_MAX \<Longrightarrow>
      lookup (insert_watch c w p) = (lookup c)(w \<mapsto> p)"
    and lookup_remove: "invar c \<Longrightarrow> 0 \<le> w \<Longrightarrow> lookup (remove_watch c w) = (lookup c)(w := None)"
    and lookup_rename: "invar c \<Longrightarrow> length (a @ ''/'' @ b) < PATH_MAX \<Longrightarrow> length (d @ ''/'' @ e) < PATH_MAX \<Longrightarrow>
      \<forall>w p. lookup c w = Some p \<longrightarrow> length (moved (a @ ''/'' @ b) (d @ ''/'' @ e) p) < PATH_MAX \<Longrightarrow>
      lookup (rename_dir c a b d e) w = map_option (moved (a @ ''/'' @ b) (d @ ''/'' @ e)) (lookup c w)"
begin

lemma insert_then_remove:
  assumes "invar c" "0 \<le> w" "lookup c w = None" "length p \<le> PATH_MAX"
  shows "lookup (remove_watch (insert_watch c w p) w) = lookup c"
  using assms by (simp add: lookup_insert lookup_remove invar_insert fun_upd_idem)

lemma rename_dom:
  assumes "invar c" "length (a @ ''/'' @ b) < PATH_MAX" "length (d @ ''/'' @ e) < PATH_MAX"
    "\<forall>w p. lookup c w = Some p \<longrightarrow> length (moved (a @ ''/'' @ b) (d @ ''/'' @ e) p) < PATH_MAX"
  shows "dom (lookup (rename_dir c a b d e)) = dom (lookup c)"
  using lookup_rename [OF assms] by (auto simp: dom_def)

text \<open>Renaming a directory and renaming it back restores every pathname.\<close>

lemma rename_there_and_back:
  assumes "invar c" "length (a @ ''/'' @ b) < PATH_MAX" "length (d @ ''/'' @ e) < PATH_MAX"
    "\<forall>w p. lookup c w = Some p \<longrightarrow> length p < PATH_MAX
        \<and> length (moved (a @ ''/'' @ b) (d @ ''/'' @ e) p) < PATH_MAX
        \<and> \<not> in_subtree (d @ ''/'' @ e) p"
  shows "lookup (rename_dir (rename_dir c a b d e) d e a b) = lookup c"
proof
  fix w
  let ?old = "a @ ''/'' @ b" and ?new = "d @ ''/'' @ e"
  have 1: "lookup (rename_dir c a b d e) v = map_option (moved ?old ?new) (lookup c v)" for v
    using assms by (intro lookup_rename) auto
  have "\<forall>v q. lookup (rename_dir c a b d e) v = Some q \<longrightarrow> length (moved ?new ?old q) < PATH_MAX"
  proof (intro allI impI)
    fix v q assume "lookup (rename_dir c a b d e) v = Some q"
    then obtain p where "lookup c v = Some p" "q = moved ?old ?new p" using 1 by auto
    with assms(4) show "length (moved ?new ?old q) < PATH_MAX"
      using moved_back [of ?new p ?old] by auto
  qed
  with assms have "lookup (rename_dir (rename_dir c a b d e) d e a b) w =
      map_option (moved ?new ?old) (lookup (rename_dir c a b d e) w)"
    by (intro lookup_rename invar_rename) auto
  also have "\<dots> = lookup c w"
    using assms(4) moved_back [of ?new _ ?old] by (cases "lookup c w") (auto simp: 1)
  finally show "lookup (rename_dir (rename_dir c a b d e) d e a b) w = lookup c w" .
qed

end

definition removeWatchFromCache :: "cache \<Rightarrow> int \<Rightarrow> cache" where
  "removeWatchFromCache c w = (case findWatch c w of None \<Rightarrow> c | Some i \<Rightarrow> markCacheSlotEmpty c i)"

lemma cache_lookup_None_findWatch: "0 \<le> w \<Longrightarrow> cache_lookup c w = None \<longleftrightarrow> findWatch c w = None"
  by (simp add: cache_lookup_def split: option.splits)

lemma cache_lookup_eqI:
  assumes "cache_inv c" "\<And>w p. f w = Some p \<longleftrightarrow> (w, p) \<in> cache_entries c"
  shows "cache_lookup c = f"
proof
  fix w
  show "cache_lookup c w = f w"
    using cache_lookup_iff [OF assms(1), of w] assms(2) [of w]
    by (metis option.exhaust option.inject)
qed

lemma cache_lookup_insert:
  assumes "cache_inv c" "0 \<le> w" "cache_lookup c w = None" "length p \<le> PATH_MAX"
  shows "cache_lookup (fst (addWatchToCache c w p)) = (cache_lookup c)(w \<mapsto> p)"
proof -
  obtain c' i where c': "addWatchToCache c w p = (c', i)" by fastforce
  have f: "findWatch c w = None" using assms by (simp add: cache_lookup_None_findWatch)
  note s = addWatchToCache_spec [OF assms(1,2) f c']
  have "(w, q) \<notin> cache_entries c" for q
    using assms(3) cache_lookup_iff [OF assms(1), of w q] by simp
  with s assms show ?thesis
    by (intro cache_lookup_eqI) (auto simp: c' cache_lookup_iff)
qed

lemma cache_lookup_remove:
  assumes "cache_inv c" "0 \<le> w"
  shows "cache_lookup (removeWatchFromCache c w) = (cache_lookup c)(w := None)"
proof (cases "findWatch c w")
  case None
  with assms show ?thesis
    by (simp add: removeWatchFromCache_def fun_upd_idem cache_lookup_None_findWatch)
next
  case (Some i)
  note i = findWatch_Some [OF Some]
  with assms(2) have "(w, path (c ! i)) \<in> cache_entries c"
    by (auto simp: cache_entries_def)
  then have "q = path (c ! i)" if "(w, q) \<in> cache_entries c" for q
    using that cache_lookup_iff [OF assms(1), of w] by (metis option.inject)
  then show ?thesis
    using assms i Some
    by (intro cache_lookup_eqI)
      (auto simp: removeWatchFromCache_def markCacheSlotEmpty_inv markCacheSlotEmpty_entries cache_lookup_iff)
qed

lemma cache_lookup_rename:
  assumes "cache_inv c" "length (a @ ''/'' @ b) < PATH_MAX" "length (d @ ''/'' @ e) < PATH_MAX"
    "\<forall>w p. cache_lookup c w = Some p \<longrightarrow> length (moved (a @ ''/'' @ b) (d @ ''/'' @ e) p) < PATH_MAX"
  shows "cache_lookup (rewriteCachedPaths c a b d e) w =
    map_option (moved (a @ ''/'' @ b) (d @ ''/'' @ e)) (cache_lookup c w)"
proof -
  have "cache_entries (rewriteCachedPaths c a b d e) =
      (\<lambda>(w, p). (w, moved (a @ ''/'' @ b) (d @ ''/'' @ e) p)) ` cache_entries c"
    using assms by (intro rewriteCachedPaths_entries) (auto simp: cache_lookup_iff)
  then have "cache_lookup (rewriteCachedPaths c a b d e) =
      (\<lambda>w. map_option (moved (a @ ''/'' @ b) (d @ ''/'' @ e)) (cache_lookup c w))"
    using assms(1)
    by (intro cache_lookup_eqI rewriteCachedPaths_inv) (force simp: cache_lookup_iff image_iff)+
  then show ?thesis by simp
qed

interpretation wc: watch_map cache_inv cache_lookup "\<lambda>c w p. fst (addWatchToCache c w p)"
  removeWatchFromCache rewriteCachedPaths
proof unfold_locales
  fix c w p assume "cache_inv c" "0 \<le> w" "cache_lookup c w = None"
  then show "cache_inv (fst (addWatchToCache c w p))"
    using addWatchToCache_spec(1) [of c w p] by (cases "addWatchToCache c w p") (simp add: cache_lookup_None_findWatch)
next
  fix c w assume "cache_inv c"
  then show "cache_inv (removeWatchFromCache c w)"
    by (simp add: removeWatchFromCache_def markCacheSlotEmpty_inv split: option.splits)
qed (fact rewriteCachedPaths_inv cache_lookup_insert cache_lookup_remove cache_lookup_rename)+

subsection \<open>Properties\<close>



text \<open>
  \<open>rewriteCachedPaths\<close> replaces the prefix \<open>old\<close> by \<open>new\<close> in the pathname of the renamed directory
  and of every directory below it, and leaves all other pathnames alone (a sibling \<open>old2\<close> included),
  as long as no new pathname overflows a buffer; no watch appears or disappears.
\<close>

theorem rewriteCachedPaths_renames:
  assumes "cache_inv c" "length (a @ ''/'' @ b) < PATH_MAX" "length (d @ ''/'' @ e) < PATH_MAX"
    "\<forall>w p. cache_lookup c w = Some p \<longrightarrow> length p + length (d @ ''/'' @ e) < PATH_MAX"
  shows "cache_lookup (rewriteCachedPaths c a b d e) w =
     (case cache_lookup c w of
        None \<Rightarrow> None
      | Some p \<Rightarrow> if p = a @ ''/'' @ b then Some (d @ ''/'' @ e)
                  else if has_prefix (a @ ''/'' @ b @ ''/'') p
                  then Some (d @ ''/'' @ e @ drop (length (a @ ''/'' @ b)) p) else Some p)"
proof -
  let ?old = "a @ ''/'' @ b" and ?new = "d @ ''/'' @ e"
  have len: "length (moved ?old ?new p) \<le> length p + length ?new" for p
    by (simp add: moved_def)
  have sub: "in_subtree ?old p \<longleftrightarrow> p = ?old \<or> has_prefix (?old @ ''/'') p" for p
    by (auto simp: in_subtree_iff has_prefix_iff)
  have "cache_lookup (rewriteCachedPaths c a b d e) w = map_option (moved ?old ?new) (cache_lookup c w)"
    using assms len by (intro wc.lookup_rename) (auto intro: le_less_trans)
  then show ?thesis
    using sub by (auto simp: moved_def split: option.splits)
qed

theorem rewriteCachedPaths_renames_witness:
  "map (cache_lookup (rewriteCachedPaths [\<lparr>wd = 1, path = ''/a/b/x''\<rparr>, \<lparr>wd = 2, path = ''/a/bc''\<rparr>] ''/a'' ''b'' ''/q'' ''r'')) [1, 2]
   = [Some ''/q/r/x'', Some ''/a/bc'']"
proof -
  let ?c = "[\<lparr>wd = 1, path = ''/a/b/x''\<rparr>, \<lparr>wd = 2, path = ''/a/bc''\<rparr>]"
  have inv: "cache_inv ?c" by (auto simp: cache_inv_def less_Suc_eq nth_Cons split: nat.splits)
  have look: "cache_lookup ?c w = (if w = 1 then Some ''/a/b/x'' else if w = 2 then Some ''/a/bc'' else None)" for w
    by (auto simp: cache_lookup_def findWatch_def)
  have "cache_lookup (rewriteCachedPaths ?c ''/a'' ''b'' ''/q'' ''r'') w =
     (case cache_lookup ?c w of
        None \<Rightarrow> None
      | Some p \<Rightarrow> if p = ''/a'' @ ''/'' @ ''b'' then Some (''/q'' @ ''/'' @ ''r'')
                  else if has_prefix (''/a'' @ ''/'' @ ''b'' @ ''/'') p
                  then Some (''/q'' @ ''/'' @ ''r'' @ drop (length (''/a'' @ ''/'' @ ''b'')) p) else Some p)" for w
    by (rule rewriteCachedPaths_renames [OF inv]) (auto simp: look PATH_MAX_def split: if_splits)
  then show ?thesis by (simp add: look)
qed

text \<open>
  Renaming a directory to a pathname under which nothing is cached and renaming it back restores
  every cached pathname.
\<close>

theorem rewriteCachedPaths_there_and_back:
  assumes "cache_inv c" "length (a @ ''/'' @ b) < PATH_MAX" "length (d @ ''/'' @ e) < PATH_MAX"
    "\<forall>w p. cache_lookup c w = Some p \<longrightarrow> length p < PATH_MAX
        \<and> length (moved (a @ ''/'' @ b) (d @ ''/'' @ e) p) < PATH_MAX
        \<and> \<not> in_subtree (d @ ''/'' @ e) p"
  shows "cache_lookup (rewriteCachedPaths (rewriteCachedPaths c a b d e) d e a b) = cache_lookup c"
  by (rule wc.rename_there_and_back [OF assms])

theorem rewriteCachedPaths_there_and_back_witness:
  "cache_lookup (rewriteCachedPaths (rewriteCachedPaths [\<lparr>wd = 1, path = ''/a/b/x''\<rparr>] ''/a'' ''b'' ''/q'' ''r'')
      ''/q'' ''r'' ''/a'' ''b'') 1 = Some ''/a/b/x''"
proof -
  let ?c = "[\<lparr>wd = 1, path = ''/a/b/x''\<rparr>]"
  have inv: "cache_inv ?c" by (simp add: cache_inv_def)
  have look: "cache_lookup ?c w = (if w = 1 then Some ''/a/b/x'' else None)" for w
    by (simp add: cache_lookup_def findWatch_def)
  have "cache_lookup (rewriteCachedPaths (rewriteCachedPaths ?c ''/a'' ''b'' ''/q'' ''r'') ''/q'' ''r'' ''/a'' ''b'')
      = cache_lookup ?c"
    by (rule rewriteCachedPaths_there_and_back [OF inv])
      (auto simp: look PATH_MAX_def moved_def in_subtree_def split: if_splits)
  then show ?thesis by (simp add: look)
qed

end
