(* ===== verification/Inotify_Dtree.thy ===== *)
theory Inotify_Dtree
  imports Watch_Cache
begin

text \<open>
  The rest of \<open>tlpi-dist/inotify/inotify_dtree.c\<close>: logging, the list of monitored root directories,
  adding watches by walking a tree, removing a subtree, rebuilding everything, the event handler
  and the interactive commands.  The global variables of the program are the fields of one record;
  the inotify calls, \<open>nftw\<close>, \<open>lstat\<close> and \<open>fopen\<close> are the fields of another and act on an abstract
  world.  An \<open>nftw\<close> walk is the list of the objects visited, with the error that ended it, if any.
  A function that can end the process returns an \<^typ>\<open>'a outcome\<close>.
\<close>

unbundle bit_operations_syntax

subsection \<open>State and environment\<close>

record 'w dtree =
  verboseMask :: int
  checkCache :: bool
  dumpCache :: bool
  readBufferSize :: int
  stopFile :: "string option"
  abortOnCacheProblem :: bool
  logfp :: "string option"        \<comment> \<open>contents of the log file, if there is one\<close>
  err_out :: string               \<comment> \<open>what has been written to stderr\<close>
  std_out :: string
  inotifyReadCnt :: nat
  wlCache :: cache
  rootDirPaths :: "string option list"
  ignoreRootDirs :: nat
  dirCnt :: nat
  ifd :: fd
  inotifyFd :: fd                 \<comment> \<open>local variable of \<open>main\<close>, passed by reference\<close>
  reinitCnt :: nat
  overflowCnt :: nat
  world :: 'w

record stat =
  st_isdir :: bool
  st_ino :: int
  st_dev :: int

definition IN_MOVED_FROM :: int where "IN_MOVED_FROM = 0x40"
definition IN_MOVED_TO :: int where "IN_MOVED_TO = 0x80"
definition IN_CREATE :: int where "IN_CREATE = 0x100"
definition IN_DELETE_SELF :: int where "IN_DELETE_SELF = 0x400"
definition IN_MOVE_SELF :: int where "IN_MOVE_SELF = 0x800"
definition IN_UNMOUNT :: int where "IN_UNMOUNT = 0x2000"
definition IN_Q_OVERFLOW :: int where "IN_Q_OVERFLOW = 0x4000"
definition IN_IGNORED :: int where "IN_IGNORED = 0x8000"
definition IN_ONLYDIR :: int where "IN_ONLYDIR = 0x1000000"
definition IN_ISDIR :: int where "IN_ISDIR = 0x40000000"

lemmas in_masks = IN_MOVED_FROM_def IN_MOVED_TO_def IN_CREATE_def IN_DELETE_SELF_def IN_MOVE_SELF_def
  IN_UNMOUNT_def IN_Q_OVERFLOW_def IN_IGNORED_def IN_ONLYDIR_def IN_ISDIR_def

definition NAME_MAX :: nat where "NAME_MAX = 255"

text \<open>
  An event as it lies in the buffer: a fixed part of 16 bytes and \<open>ev_len\<close> bytes for the null-padded
  name.
\<close>

record inotify_event =
  ev_wd :: int
  ev_mask :: int
  ev_cookie :: nat
  ev_len :: nat
  ev_name :: string

record 'w inotify_sys =
  sys_inotify_init :: "'w \<Rightarrow> fd sysres \<times> 'w"
  sys_add_watch :: "fd \<Rightarrow> string \<Rightarrow> int \<Rightarrow> 'w \<Rightarrow> int sysres \<times> 'w"
  sys_rm_watch :: "fd \<Rightarrow> int \<Rightarrow> 'w \<Rightarrow> unit sysres \<times> 'w"
  sys_close :: "fd \<Rightarrow> 'w \<Rightarrow> 'w"
  sys_nftw :: "string \<Rightarrow> 'w \<Rightarrow> ((string \<times> bool) list \<times> errno option) \<times> 'w"
  sys_lstat :: "string \<Rightarrow> 'w \<Rightarrow> stat sysres"
  sys_write_file :: "string \<Rightarrow> string \<Rightarrow> 'w \<Rightarrow> 'w option"   \<comment> \<open>\<open>fopen(f, "w+")\<close>, write, close\<close>
  sys_create :: "string \<Rightarrow> 'w \<Rightarrow> 'w"   \<comment> \<open>\<open>open(f, O_CREAT | O_RDWR, 0600)\<close>, result ignored\<close>
  sys_show_ptrs :: "nat \<Rightarrow> inotify_event \<Rightarrow> string"   \<comment> \<open>\<open>%p %p\<close> of a slot's path and an event's name\<close>
  sys_strerror :: "errno \<Rightarrow> string"
  sys_progname :: string

definition sizeof_event :: nat where "sizeof_event = 16"
definition INOTIFY_READ_BUF_LEN :: int where
  "INOTIFY_READ_BUF_LEN = 100 * (int sizeof_event + int NAME_MAX + 1)"

definition ev_size :: "inotify_event \<Rightarrow> int" where
  "ev_size ev = int sizeof_event + int (ev_len ev)"

definition has_mask :: "inotify_event \<Rightarrow> int \<Rightarrow> bool" where
  "has_mask ev m \<longleftrightarrow> ev_mask ev AND m \<noteq> 0"

subsection \<open>Logging\<close>

definition VB_BASIC :: int where "VB_BASIC = 1"
definition VB_NOISY :: int where "VB_NOISY = 2"

definition logMessage :: "int \<Rightarrow> string \<Rightarrow> 'w dtree \<Rightarrow> 'w dtree" where
  "logMessage vb_mask msg s =
     (let s1 = (if vb_mask = 0 \<or> vb_mask AND verboseMask s \<noteq> 0
                then s\<lparr>err_out := err_out s @ msg\<rparr> else s)
      in case logfp s1 of None \<Rightarrow> s1 | Some l \<Rightarrow> s1\<lparr>logfp := Some (l @ msg)\<rparr>)"

text \<open>The width of \<open>%4d\<close>.\<close>

definition pad4 :: "string \<Rightarrow> string" where
  "pad4 t = replicate (4 - length t) (CHR '' '') @ t"

definition displayInotifyEvent :: "inotify_event \<Rightarrow> 'w dtree \<Rightarrow> 'w dtree" where
  "displayInotifyEvent ev s =
     (let say = (\<lambda>m t s. if has_mask ev m then logMessage VB_NOISY t s else s);
          s = logMessage VB_NOISY (''==> wd = '' @ show_int (ev_wd ev) @ ''; '') s;
          s = (if ev_cookie ev > 0
               then logMessage VB_NOISY (''cookie = '' @ pad4 (show_int (int (ev_cookie ev))) @ ''; '') s else s);
          s = logMessage VB_NOISY ''mask = '' s;
          s = say IN_ISDIR ''IN_ISDIR '' s;
          s = say IN_CREATE ''IN_CREATE '' s;
          s = say IN_DELETE_SELF ''IN_DELETE_SELF '' s;
          s = say IN_MOVE_SELF ''IN_MOVE_SELF '' s;
          s = say IN_MOVED_FROM ''IN_MOVED_FROM '' s;
          s = say IN_MOVED_TO ''IN_MOVED_TO '' s;
          s = say IN_IGNORED ''IN_IGNORED '' s;
          s = say IN_Q_OVERFLOW ''IN_Q_OVERFLOW '' s;
          s = say IN_UNMOUNT ''IN_UNMOUNT '' s;
          s = logMessage VB_NOISY ''\<newline>'' s
      in if ev_len ev > 0
         then logMessage VB_NOISY (''        name = '' @ ev_name ev @ ''\<newline>'') s else s)"

fun cache_lines :: "cache \<Rightarrow> nat \<Rightarrow> string" where
  "cache_lines [] j = []"
| "cache_lines (e # c) j =
     (if wd e \<ge> 0
      then show_int (int j) @ '': wd = '' @ show_int (wd e) @ ''; '' @ path e @ ''\<newline>''
      else [])
     @ cache_lines c (Suc j)"

definition used_slots :: "cache \<Rightarrow> nat" where
  "used_slots c = length (filter (\<lambda>e. wd e \<ge> 0) c)"

text \<open>\<open>dumpCacheToLog\<close> writes to the log file without checking that there is one.\<close>

definition dumpCacheToLog :: "'w dtree \<Rightarrow> unit outcome \<times> 'w dtree" where
  "dumpCacheToLog s =
     (case logfp s of
        None \<Rightarrow> (Undefined, s)
      | Some l \<Rightarrow>
          (Returns (), s\<lparr>logfp := Some (l @ cache_lines (wlCache s) 0
              @ ''Total entries: '' @ show_int (int (used_slots (wlCache s))) @ ''\<newline>'')\<rparr>))"

definition createStopFileAndAbort :: "'w inotify_sys \<Rightarrow> 'w dtree \<Rightarrow> 'a outcome \<times> 'w dtree" where
  "createStopFileAndAbort sys s =
     (let s = (case stopFile s of None \<Rightarrow> s | Some f \<Rightarrow> s\<lparr>world := sys_create sys f (world s)\<rparr>)
      in andthen (dumpCacheToLog s) (\<lambda>_ s. (Aborts, s)))"

subsection \<open>Cache operations on the state\<close>

definition freeCache :: "'w dtree \<Rightarrow> 'w dtree" where
  "freeCache s = s\<lparr>wlCache := []\<rparr>"

text \<open>
  \<open>checkCacheConsistency\<close>: the \<open>else if\<close> belongs to the test of the descriptor, so it is unused slots
  whose \<open>st_mode\<close> is examined, in the structure left by the last successful \<open>lstat\<close> (uninitialised
  if there was none).
\<close>

fun check_slots ::
    "'w inotify_sys \<Rightarrow> cache \<Rightarrow> nat \<Rightarrow> stat option \<Rightarrow> nat \<Rightarrow> 'w dtree \<Rightarrow> nat outcome \<times> 'w dtree" where
  "check_slots sys [] j sb failures s = (Returns failures, s)"
| "check_slots sys (e # c) j sb failures s =
     (if wd e \<ge> 0 then
        (case sys_lstat sys (path e) (world s) of
           Inl err \<Rightarrow>
             check_slots sys c (Suc j) sb (Suc failures)
               (logMessage 0 (''checkCacheConsistency: stat: [slot = '' @ show_int (int j) @ ''; wd = ''
                  @ show_int (wd e) @ ''] '' @ path e @ '': '' @ sys_strerror sys err @ ''\<newline>'') s)
         | Inr sb' \<Rightarrow> check_slots sys c (Suc j) (Some sb') failures s)
      else
        (case sb of
           None \<Rightarrow> (Undefined, s)
         | Some st \<Rightarrow>
             if \<not> st_isdir st
             then (Exits 1, logMessage 0 (''checkCacheConsistency: '' @ path e @ '' is not a directory\<newline>'') s)
             else check_slots sys c (Suc j) sb failures s))"

definition checkCacheConsistency :: "'w inotify_sys \<Rightarrow> 'w dtree \<Rightarrow> unit outcome \<times> 'w dtree" where
  "checkCacheConsistency sys s =
     andthen (check_slots sys (wlCache s) 0 None 0 s)
       (\<lambda>failures s.
          (Returns (),
           if failures > 0
           then logMessage VB_NOISY (''checkCacheConsistency: '' @ show_int (int failures) @ '' failures\<newline>'') s
           else s))"

definition findWatchChecked :: "'w inotify_sys \<Rightarrow> int \<Rightarrow> 'w dtree \<Rightarrow> nat option outcome \<times> 'w dtree" where
  "findWatchChecked sys w s =
     (case findWatch (wlCache s) w of
        Some slot \<Rightarrow> (Returns (Some slot), s)
      | None \<Rightarrow>
          (let s1 = logMessage 0 (''Could not find watch '' @ show_int w @ ''\<newline>'') s
           in if abortOnCacheProblem s1 then createStopFileAndAbort sys s1 else (Returns None, s1)))"

definition slot_path :: "'w dtree \<Rightarrow> nat \<Rightarrow> string" where
  "slot_path s slot = path (wlCache s ! slot)"

definition clear_slot :: "nat \<Rightarrow> 'w dtree \<Rightarrow> 'w dtree" where
  "clear_slot slot s =
     (let s1 = logMessage VB_NOISY
                 (''        markCacheSlotEmpty: slot = '' @ show_int (int slot) @ '';  wd = ''
                  @ show_int (wd (wlCache s ! slot)) @ ''; path = '' @ slot_path s slot @ ''\<newline>'') s
      in s1\<lparr>wlCache := markCacheSlotEmpty (wlCache s1) slot\<rparr>)"

text \<open>
  \<open>rewriteCachedPaths\<close> reports each entry it rewrites, and a pathname that did not fit its buffer when
  the untruncated length exceeds (not: reaches) the size of the buffer.
\<close>

fun rewrite_log :: "string \<Rightarrow> string \<Rightarrow> cache \<Rightarrow> nat \<Rightarrow> 'w dtree \<Rightarrow> 'w dtree" where
  "rewrite_log fullPath newPrefix [] j s = s"
| "rewrite_log fullPath newPrefix (e # c) j s =
     (if in_subtree fullPath (path e) then
        (let long = newPrefix @ drop (length fullPath) (path e);
             newPath = snprintf PATH_MAX long;
             s = (if length long > PATH_MAX
                  then logMessage VB_BASIC (''Truncated pathname: '' @ newPath @ ''\<newline>'') s else s)
         in rewrite_log fullPath newPrefix c (Suc j)
              (logMessage VB_NOISY (''    wd '' @ show_int (wd e) @ '' [cache slot '' @ show_int (int j)
                 @ ''] ==> '' @ newPath @ ''\<newline>'') s))
      else rewrite_log fullPath newPrefix c (Suc j) s)"

definition rename_dir :: "string \<Rightarrow> string \<Rightarrow> string \<Rightarrow> string \<Rightarrow> 'w dtree \<Rightarrow> 'w dtree" where
  "rename_dir oldPathPrefix oldName newPathPrefix newName s =
     (let fullPath = snprintf PATH_MAX (oldPathPrefix @ ''/'' @ oldName);
          newPrefix = snprintf PATH_MAX (newPathPrefix @ ''/'' @ newName);
          s = logMessage VB_BASIC (''Rename: '' @ fullPath @ '' ==> '' @ newPrefix @ ''\<newline>'') s;
          s = rewrite_log fullPath newPrefix (wlCache s) 0 s
      in s\<lparr>wlCache := rewriteCachedPaths (wlCache s) oldPathPrefix oldName newPathPrefix newName\<rparr>)"

subsection \<open>Root directories\<close>

text \<open>
  The two loops of \<open>copyRootDirPaths\<close>: checking the arguments, then recording them while rejecting
  two names of the same file system object.  \<open>Inl\<close> is the message printed before the exit.
\<close>

fun copyRootDirPaths_check :: "'w inotify_sys \<Rightarrow> 'w \<Rightarrow> string list \<Rightarrow> string option" where
  "copyRootDirPaths_check sys w [] = None"
| "copyRootDirPaths_check sys w (p # ps) =
     (case sys_lstat sys p w of
        Inl e \<Rightarrow> Some (''lstat() failed on '' @ [CHR 0x27] @ p @ [CHR 0x27] @ ''\<newline>'')
      | Inr sb \<Rightarrow>
          if \<not> st_isdir sb then Some ([CHR 0x27] @ p @ [CHR 0x27] @ '' is not a directory\<newline>'')
          else copyRootDirPaths_check sys w ps)"

fun copyRootDirPaths_copy ::
    "'w inotify_sys \<Rightarrow> 'w \<Rightarrow> string list \<Rightarrow> (stat \<times> string) list \<Rightarrow> string + (stat \<times> string) list" where
  "copyRootDirPaths_copy sys w [] done = Inr done"
| "copyRootDirPaths_copy sys w (p # ps) done =
     (case sys_lstat sys p w of
        Inl e \<Rightarrow> Inl (''lstat: '' @ sys_strerror sys e @ ''\<newline>'')
      | Inr sb \<Rightarrow>
          (case filter (\<lambda>k. st_ino sb = st_ino (fst k) \<and> st_dev sb = st_dev (fst k)) done of
             k # _ \<Rightarrow> Inl (''Duplicate filesystem objects: '' @ p @ '', '' @ snd k @ ''\<newline>'')
           | [] \<Rightarrow> copyRootDirPaths_copy sys w ps (done @ [(sb, p)])))"

definition copyRootDirPaths :: "'w inotify_sys \<Rightarrow> string list \<Rightarrow> 'w dtree \<Rightarrow> unit outcome \<times> 'w dtree" where
  "copyRootDirPaths sys argv s =
     (case copyRootDirPaths_check sys (world s) argv of
        Some msg \<Rightarrow> (Exits 1, s\<lparr>err_out := err_out s @ msg\<rparr>)
      | None \<Rightarrow>
          (case copyRootDirPaths_copy sys (world s) argv [] of
             Inl msg \<Rightarrow> (Exits 1, s\<lparr>err_out := err_out s @ msg\<rparr>)
           | Inr roots \<Rightarrow>
               (Returns (), s\<lparr>rootDirPaths := map (\<lambda>r. Some (snd r)) roots, ignoreRootDirs := 0\<rparr>)))"

fun find_root :: "string \<Rightarrow> string option list \<Rightarrow> nat \<Rightarrow> nat option" where
  "find_root p [] j = None"
| "find_root p (r # rs) j = (if r = Some p then Some j else find_root p rs (Suc j))"

definition findRootDirPath :: "string \<Rightarrow> 'w dtree \<Rightarrow> nat option" where
  "findRootDirPath p s = find_root p (rootDirPaths s) 0"

definition isRootDirPath :: "string \<Rightarrow> 'w dtree \<Rightarrow> bool" where
  "isRootDirPath p s \<longleftrightarrow> findRootDirPath p s \<noteq> None"

definition zapRootDirPath :: "string \<Rightarrow> 'w dtree \<Rightarrow> unit outcome \<times> 'w dtree" where
  "zapRootDirPath p s =
     (let s = s\<lparr>std_out := std_out s @ ''zapRootDirPath: '' @ p @ ''\<newline>''\<rparr>
      in case findRootDirPath p s of
           None \<Rightarrow> (Exits 1, s\<lparr>err_out := err_out s @ ''zapRootDirPath(): path not found!\<newline>''\<rparr>)
         | Some j \<Rightarrow>
             (let s = s\<lparr>rootDirPaths := (rootDirPaths s)[j := None],
                        ignoreRootDirs := Suc (ignoreRootDirs s)\<rparr>
              in if ignoreRootDirs s = length (rootDirPaths s)
                 then (Exits 0, s\<lparr>err_out := err_out s @ ''No more root paths left to monitor; bye!\<newline>''\<rparr>)
                 else (Returns (), s)))"

subsection \<open>Adding watches\<close>

definition watch_flags :: "string \<Rightarrow> 'w dtree \<Rightarrow> int" where
  "watch_flags pathname s =
     (let flags = IN_CREATE OR IN_MOVED_FROM OR IN_MOVED_TO OR IN_DELETE_SELF
      in if isRootDirPath pathname s then flags OR IN_MOVE_SELF else flags)"

definition cache_new_watch :: "int \<Rightarrow> string \<Rightarrow> 'w dtree \<Rightarrow> 'w dtree" where
  "cache_new_watch w pathname s =
     (if findWatch (wlCache s) w \<noteq> None
      then logMessage VB_BASIC (''WD '' @ show_int w @ '' already in cache ('' @ pathname @ '')\<newline>'') s
      else
        (let s = s\<lparr>dirCnt := Suc (dirCnt s)\<rparr>;
             (c, slot) = addWatchToCache (wlCache s) w pathname;
             s = s\<lparr>wlCache := c\<rparr>
         in logMessage VB_NOISY
              (''    watchDir: wd = '' @ show_int w @ '' [cache slot: '' @ show_int (int slot)
               @ '']; '' @ pathname @ ''\<newline>'') s))"

text \<open>The callback of \<open>nftw\<close>; it always lets the walk continue, or ends the process.\<close>

definition traverseTree :: "'w inotify_sys \<Rightarrow> string \<Rightarrow> bool \<Rightarrow> 'w dtree \<Rightarrow> unit outcome \<times> 'w dtree" where
  "traverseTree sys pathname isdir s =
     (if \<not> isdir then (Returns (), s)
      else
        (let (r, w') = sys_add_watch sys (ifd s) pathname (watch_flags pathname s OR IN_ONLYDIR) (world s);
             s = s\<lparr>world := w'\<rparr>
         in case r of
              Inl e \<Rightarrow>
                (let s = logMessage VB_BASIC (''inotify_add_watch: '' @ pathname @ '': '' @ sys_strerror sys e @ ''\<newline>'') s
                 in if e = ENOENT then (Returns (), s) else (Exits 1, s))
            | Inr w \<Rightarrow> (Returns (), cache_new_watch w pathname s)))"

fun traverse_all :: "'w inotify_sys \<Rightarrow> (string \<times> bool) list \<Rightarrow> 'w dtree \<Rightarrow> unit outcome \<times> 'w dtree" where
  "traverse_all sys [] s = (Returns (), s)"
| "traverse_all sys ((p, d) # es) s =
     andthen (traverseTree sys p d s) (\<lambda>_ s. traverse_all sys es s)"

definition watchDir :: "'w inotify_sys \<Rightarrow> fd \<Rightarrow> string \<Rightarrow> 'w dtree \<Rightarrow> nat outcome \<times> 'w dtree" where
  "watchDir sys fd pathname s =
     (let s = s\<lparr>dirCnt := 0, ifd := fd\<rparr>;
          ((entries, err), w') = sys_nftw sys pathname (world s);
          s = s\<lparr>world := w'\<rparr>
      in andthen (traverse_all sys entries s)
           (\<lambda>_ s.
              (let s = (case err of
                          None \<Rightarrow> s
                        | Some e \<Rightarrow> logMessage VB_BASIC (''nftw: '' @ pathname @ '': '' @ sys_strerror sys e
                                      @ '' (directory probably deleted before we could watch)\<newline>'') s)
               in (Returns (dirCnt s), s))))"

definition watchSubtree :: "'w inotify_sys \<Rightarrow> fd \<Rightarrow> string \<Rightarrow> 'w dtree \<Rightarrow> unit outcome \<times> 'w dtree" where
  "watchSubtree sys fd p s =
     andthen (watchDir sys fd p s)
       (\<lambda>cnt s. (Returns (), logMessage VB_BASIC
            (''    watchSubtree: '' @ p @ '': '' @ show_int (int cnt) @ '' entries added\<newline>'') s))"

subsection \<open>Removing and rebuilding\<close>

text \<open>
  \<open>zapSubtree\<close> walks over the slots \<open>j, j + 1, \<dots>\<close>; the result \<open>None\<close> is the \<open>-1\<close> returned when a watch
  could not be removed.  The slots before the failing one have been emptied then.
\<close>

fun zap_slots ::
    "'w inotify_sys \<Rightarrow> fd \<Rightarrow> string \<Rightarrow> nat list \<Rightarrow> nat \<Rightarrow> 'w dtree \<Rightarrow> nat option \<times> 'w dtree" where
  "zap_slots sys fd pn [] cnt s = (Some cnt, s)"
| "zap_slots sys fd pn (j # js) cnt s =
     (let e = wlCache s ! j
      in if wd e \<ge> 0 \<and> in_subtree pn (path e) then
           (let s = logMessage VB_NOISY
                      (''    removing watch: wd = '' @ show_int (wd e) @ '' ('' @ path e @ '')\<newline>'') s;
                (r, w') = sys_rm_watch sys fd (wd e) (world s);
                s = s\<lparr>world := w'\<rparr>
            in case r of
                 Inl err \<Rightarrow>
                   (None, logMessage 0 (''inotify_rm_watch wd = '' @ show_int (wd e) @ '' ('' @ path e @ ''): ''
                            @ sys_strerror sys err @ ''\<newline>'') s)
               | Inr _ \<Rightarrow> zap_slots sys fd pn js (Suc cnt) (clear_slot j s))
         else zap_slots sys fd pn js cnt s)"

definition zapSubtree :: "'w inotify_sys \<Rightarrow> fd \<Rightarrow> string \<Rightarrow> 'w dtree \<Rightarrow> nat option \<times> 'w dtree" where
  "zapSubtree sys fd pn s =
     (let s = logMessage VB_NOISY (''Zapping subtree: '' @ pn @ ''\<newline>'') s
      in zap_slots sys fd pn [0..<length (wlCache s)] 0 s)"

fun watch_roots :: "'w inotify_sys \<Rightarrow> fd \<Rightarrow> string option list \<Rightarrow> 'w dtree \<Rightarrow> unit outcome \<times> 'w dtree" where
  "watch_roots sys fd [] s = (Returns (), s)"
| "watch_roots sys fd (r # rs) s =
     (case r of
        None \<Rightarrow> watch_roots sys fd rs s
      | Some p \<Rightarrow> andthen (watchSubtree sys fd p s) (\<lambda>_ s. watch_roots sys fd rs s))"

definition reinitialize :: "'w inotify_sys \<Rightarrow> fd \<Rightarrow> 'w dtree \<Rightarrow> fd outcome \<times> 'w dtree" where
  "reinitialize sys oldInotifyFd s =
     (let s = (if oldInotifyFd \<ge> 0 then
                 (let s = s\<lparr>world := sys_close sys oldInotifyFd (world s), reinitCnt := Suc (reinitCnt s)\<rparr>
                  in logMessage 0 (''Reinitializing cache and inotify FD (reinitCnt = ''
                        @ show_int (int (reinitCnt s)) @ '')\<newline>'') s)
               else (logMessage 0 ''Initializing cache\<newline>'' s)\<lparr>reinitCnt := 0\<rparr>);
          (r, w') = sys_inotify_init sys (world s);
          s = s\<lparr>world := w'\<rparr>
      in case r of
           Inl e \<Rightarrow> (Exits 1, s)
         | Inr fd \<Rightarrow>
             (let s = logMessage VB_BASIC (''    new inotifyFd = '' @ show_int fd @ ''\<newline>'') s;
                  s = freeCache s
              in andthen (watch_roots sys fd (rootDirPaths s) s)
                   (\<lambda>_ s. (Returns fd,
                      if oldInotifyFd \<ge> 0
                      then logMessage 0 (''Rebuilt cache with '' @ show_int (int (used_slots (wlCache s)))
                              @ '' entries\<newline>'') s
                      else s))))"

end
