(* ===== verification/Inotify_Events.thy ===== *)
theory Inotify_Events
  imports Inotify_Dtree
begin

text \<open>
  Event processing and interactive commands of \<open>tlpi-dist/inotify/inotify_dtree.c\<close>.  A buffer of
  events is the list of the events in it together with the number of bytes the program believes it
  to hold; \<open>read\<close> on an inotify descriptor returns whole events.
\<close>

unbundle bit_operations_syntax

subsection \<open>One event\<close>

text \<open>
  A handler ends the function early with a result (\<open>Inl\<close>) or goes on to the common tail with the
  number of bytes consumed (\<open>Inr\<close>).  The cache slot of the event is undefined for events that have
  no watch descriptor.
\<close>

definition discard_all :: "'w inotify_sys \<Rightarrow> 'w dtree \<Rightarrow> (int + int) outcome \<times> 'w dtree" where
  "discard_all sys s =
     andthen (reinitialize sys (inotifyFd s) s)
       (\<lambda>fd s. (Returns (Inl INOTIFY_READ_BUF_LEN), s\<lparr>inotifyFd := fd\<rparr>))"

definition ev_fullPath :: "inotify_event \<Rightarrow> nat \<Rightarrow> 'w dtree \<Rightarrow> string" where
  "ev_fullPath ev slot s = snprintf (PATH_MAX + NAME_MAX) (slot_path s slot @ ''/'' @ ev_name ev)"

definition on_create ::
    "'w inotify_sys \<Rightarrow> inotify_event \<Rightarrow> nat \<Rightarrow> 'w dtree \<Rightarrow> (int + int) outcome \<times> 'w dtree" where
  "on_create sys ev slot s =
     (let fullPath = ev_fullPath ev slot s;
          s = logMessage VB_BASIC
                (''Directory creation on wd '' @ show_int (ev_wd ev) @ '': '' @ fullPath @ ''\<newline>'') s
      in if \<not> pathnameInCache (wlCache s) fullPath
         then andthen (watchSubtree sys (inotifyFd s) fullPath s) (\<lambda>_ s. (Returns (Inr (ev_size ev)), s))
         else (Returns (Inr (ev_size ev)), s))"

definition on_delete_self ::
    "inotify_event \<Rightarrow> nat \<Rightarrow> 'w dtree \<Rightarrow> (int + int) outcome \<times> 'w dtree" where
  "on_delete_self ev slot s =
     (let s = logMessage VB_BASIC
                (''Clearing watchlist item '' @ show_int (ev_wd ev) @ '' ('' @ slot_path s slot @ '')\<newline>'') s
      in andthen (if isRootDirPath (slot_path s slot) s then zapRootDirPath (slot_path s slot) s
                  else (Returns (), s))
           (\<lambda>_ s. (Returns (Inr (ev_size ev)), clear_slot slot s)))"

definition on_moved_out ::
    "'w inotify_sys \<Rightarrow> inotify_event \<Rightarrow> int \<Rightarrow> bool \<Rightarrow> nat \<Rightarrow> 'w dtree \<Rightarrow> (int + int) outcome \<times> 'w dtree" where
  "on_moved_out sys ev bufSize firstTry slot s =
     (let s = logMessage VB_NOISY (''MOVED_OUT: '' @ sys_show_ptrs sys slot ev @ ''\<newline>'') s;
          s = logMessage VB_NOISY (''firstTry = '' @ show_int (of_bool firstTry) @ ''; remaining bytes = ''
                @ show_int (bufSize - ev_size ev) @ ''\<newline>'') s
      in case zapSubtree sys (inotifyFd s) (ev_fullPath ev slot s) s of
           (None, s) \<Rightarrow> discard_all sys s
         | (Some cnt, s) \<Rightarrow> (Returns (Inr (ev_size ev)), s))"

definition on_rename ::
    "'w inotify_sys \<Rightarrow> inotify_event \<Rightarrow> nat \<Rightarrow> inotify_event \<Rightarrow> 'w dtree
      \<Rightarrow> (int + int) outcome \<times> 'w dtree" where
  "on_rename sys ev slot nextEv s =
     andthen (findWatchChecked sys (ev_wd nextEv) s)
       (\<lambda>r s. case r of
          None \<Rightarrow> discard_all sys s
        | Some nextSlot \<Rightarrow>
            (Returns (Inr (ev_size ev + ev_size nextEv)),
             rename_dir (slot_path s slot) (ev_name ev) (slot_path s nextSlot) (ev_name nextEv) s))"

definition on_moved_from ::
    "'w inotify_sys \<Rightarrow> inotify_event \<Rightarrow> inotify_event list \<Rightarrow> int \<Rightarrow> bool \<Rightarrow> nat \<Rightarrow> 'w dtree
      \<Rightarrow> (int + int) outcome \<times> 'w dtree" where
  "on_moved_from sys ev rest bufSize firstTry slot s =
     (if ev_size ev < bufSize then
        (case rest of
           [] \<Rightarrow> (Undefined, s)
         | nextEv # _ \<Rightarrow>
             if has_mask nextEv IN_MOVED_TO \<and> ev_cookie nextEv = ev_cookie ev
             then on_rename sys ev slot nextEv s
             else on_moved_out sys ev bufSize firstTry slot s)
      else if \<not> firstTry then on_moved_out sys ev bufSize firstTry slot s
      else (Returns (Inl (-1)), logMessage VB_NOISY ''HANGING IN_MOVED_FROM\<newline>'' s))"

definition on_q_overflow ::
    "'w inotify_sys \<Rightarrow> 'w dtree \<Rightarrow> (int + int) outcome \<times> 'w dtree" where
  "on_q_overflow sys s =
     (let s = s\<lparr>overflowCnt := Suc (overflowCnt s)\<rparr>;
          s = logMessage 0 (''Queue overflow ('' @ show_int (int (overflowCnt s)) @ '') (inotifyReadCnt = ''
                @ show_int (int (inotifyReadCnt s)) @ '')\<newline>'') s
      in andthen (reinitialize sys (inotifyFd s) s)
           (\<lambda>fd s. (Returns (Inr INOTIFY_READ_BUF_LEN), s\<lparr>inotifyFd := fd\<rparr>)))"

definition on_unmount :: "inotify_event \<Rightarrow> nat \<Rightarrow> 'w dtree \<Rightarrow> (int + int) outcome \<times> 'w dtree" where
  "on_unmount ev slot s =
     (let s = logMessage 0 (''Filesystem unmounted: '' @ slot_path s slot @ ''\<newline>'') s
      in (Returns (Inr (ev_size ev)), clear_slot slot s))"

definition on_move_self ::
    "'w inotify_sys \<Rightarrow> inotify_event \<Rightarrow> nat \<Rightarrow> 'w dtree \<Rightarrow> (int + int) outcome \<times> 'w dtree" where
  "on_move_self sys ev slot s =
     (let s = logMessage 0 (''Root path moved: '' @ slot_path s slot @ ''\<newline>'') s
      in andthen (zapRootDirPath (slot_path s slot) s)
           (\<lambda>_ s.
              case zapSubtree sys (inotifyFd s) (slot_path s slot) s of
                (None, s) \<Rightarrow> discard_all sys s
              | (Some cnt, s) \<Rightarrow> (Returns (Inr (ev_size ev)), s)))"

definition with_slot ::
    "nat option \<Rightarrow> (nat \<Rightarrow> 'w dtree \<Rightarrow> 'a outcome \<times> 'w dtree) \<Rightarrow> 'w dtree \<Rightarrow> 'a outcome \<times> 'w dtree" where
  "with_slot slot k s = (case slot of None \<Rightarrow> (Undefined, s) | Some i \<Rightarrow> k i s)"

definition dispatch ::
    "'w inotify_sys \<Rightarrow> inotify_event \<Rightarrow> inotify_event list \<Rightarrow> int \<Rightarrow> bool \<Rightarrow> nat option \<Rightarrow> 'w dtree
      \<Rightarrow> (int + int) outcome \<times> 'w dtree" where
  "dispatch sys ev rest bufSize firstTry slot s =
     (if has_mask ev IN_ISDIR \<and> has_mask ev (IN_CREATE OR IN_MOVED_TO)
      then with_slot slot (on_create sys ev) s
      else if has_mask ev IN_DELETE_SELF then with_slot slot (on_delete_self ev) s
      else if ev_mask ev AND (IN_MOVED_FROM OR IN_ISDIR) = (IN_MOVED_FROM OR IN_ISDIR)
      then with_slot slot (on_moved_from sys ev rest bufSize firstTry) s
      else if has_mask ev IN_Q_OVERFLOW then on_q_overflow sys s
      else if has_mask ev IN_UNMOUNT then with_slot slot (on_unmount ev) s
      else if has_mask ev IN_MOVE_SELF
      then with_slot slot
             (\<lambda>i s. if isRootDirPath (slot_path s i) s then on_move_self sys ev i s
                    else (Returns (Inr (ev_size ev)), s)) s
      else (Returns (Inr (ev_size ev)), s))"

definition after_event :: "'w inotify_sys \<Rightarrow> int + int \<Rightarrow> 'w dtree \<Rightarrow> int outcome \<times> 'w dtree" where
  "after_event sys r s =
     (case r of
        Inl n \<Rightarrow> (Returns n, s)
      | Inr evLen \<Rightarrow>
          andthen (if checkCache s then checkCacheConsistency sys s else (Returns (), s))
            (\<lambda>_ s. andthen (if dumpCache s then dumpCacheToLog s else (Returns (), s))
               (\<lambda>_ s. (Returns evLen, s))))"

definition processNextInotifyEvent ::
    "'w inotify_sys \<Rightarrow> inotify_event list \<Rightarrow> int \<Rightarrow> bool \<Rightarrow> 'w dtree \<Rightarrow> int outcome \<times> 'w dtree" where
  "processNextInotifyEvent sys evs bufSize firstTry s =
     (case evs of
        [] \<Rightarrow> (Undefined, s)
      | ev # rest \<Rightarrow>
          (let s = displayInotifyEvent ev s
           in if ev_wd ev \<noteq> -1 \<and> \<not> has_mask ev IN_IGNORED
              then
                andthen (findWatchChecked sys (ev_wd ev) s)
                  (\<lambda>r s. case r of
                     None \<Rightarrow> andthen (discard_all sys s) (after_event sys)
                   | Some slot \<Rightarrow>
                       andthen (dispatch sys ev rest bufSize firstTry (Some slot) s) (after_event sys))
              else andthen (dispatch sys ev rest bufSize firstTry None s) (after_event sys)))"

subsection \<open>A block of events\<close>

fun buf_size :: "inotify_event list \<Rightarrow> int" where
  "buf_size [] = 0"
| "buf_size (ev # evs) = ev_size ev + buf_size evs"

text \<open>The events that start at or after byte \<open>n\<close> of the buffer.\<close>

fun skip_bytes :: "int \<Rightarrow> inotify_event list \<Rightarrow> inotify_event list" where
  "skip_bytes n [] = []"
| "skip_bytes n (ev # evs) = (if n \<le> 0 then ev # evs else skip_bytes (n - ev_size ev) evs)"

text \<open>
  The second \<open>read\<close>, made to look for the other half of a rename.  Its return value is added to the
  byte count whenever \<open>errno\<close> is not \<open>-1\<close>, which it never is; after an interruption the program
  therefore believes that the buffer is one byte shorter.
\<close>

definition log_secondary :: "int \<Rightarrow> 'w dtree \<Rightarrow> 'w dtree" where
  "log_secondary nr s =
     logMessage VB_NOISY (''\<newline>==========> SECONDARY Read '' @ show_int (int (inotifyReadCnt s))
       @ '': got '' @ show_int nr @ '' bytes\<newline>'') s"

definition secondary_read ::
    "(fd \<Rightarrow> int \<Rightarrow> 'w \<Rightarrow> inotify_event list sysres \<times> 'w) \<Rightarrow> inotify_event list \<Rightarrow> int \<Rightarrow> 'w dtree
      \<Rightarrow> (inotify_event list \<times> int) outcome \<times> 'w dtree" where
  "secondary_read rd evs numRead s =
     (let (r, w') = rd (inotifyFd s) (INOTIFY_READ_BUF_LEN - numRead) (world s);
          s = s\<lparr>world := w'\<rparr>;
          s2 = s\<lparr>inotifyReadCnt := Suc (inotifyReadCnt s)\<rparr>
      in case r of
           Inl e \<Rightarrow>
             if e \<noteq> EINTR then (Exits 1, s)
             else (Returns (evs, numRead + -1), log_secondary (-1) s2)
         | Inr evs' \<Rightarrow>
             if evs' = [] then
               (Exits 1, s\<lparr>err_out := err_out s @ ''read() from inotify fd returned 0!''\<rparr>)
             else (Returns (evs @ evs', numRead + buf_size evs'), log_secondary (buf_size evs') s2))"

partial_function (option) process_block ::
    "'w inotify_sys \<Rightarrow> (fd \<Rightarrow> int \<Rightarrow> 'w \<Rightarrow> inotify_event list sysres \<times> 'w)
      \<Rightarrow> inotify_event list \<Rightarrow> int \<Rightarrow> bool \<Rightarrow> 'w dtree \<Rightarrow> (unit outcome \<times> 'w dtree) option" where
  "process_block sys rd evs numRead firstTry s =
     (if numRead > 0 then
        (case processNextInotifyEvent sys evs numRead firstTry s of
           (Returns evLen, s) \<Rightarrow>
             if evLen > 0
             then process_block sys rd (skip_bytes evLen evs) (numRead - evLen) True s
             else
               (case secondary_read rd evs numRead s of
                  (Returns (evs', numRead'), s) \<Rightarrow> process_block sys rd evs' numRead' False s
                | (Exits k, s) \<Rightarrow> Some (Exits k, s)
                | (Aborts, s) \<Rightarrow> Some (Aborts, s)
                | (Undefined, s) \<Rightarrow> Some (Undefined, s))
         | (Exits k, s) \<Rightarrow> Some (Exits k, s)
         | (Aborts, s) \<Rightarrow> Some (Aborts, s)
         | (Undefined, s) \<Rightarrow> Some (Undefined, s))
      else Some (Returns (), s))"

definition processInotifyEvents ::
    "'w inotify_sys \<Rightarrow> (fd \<Rightarrow> int \<Rightarrow> 'w \<Rightarrow> inotify_event list sysres \<times> 'w) \<Rightarrow> 'w dtree
      \<Rightarrow> (unit outcome \<times> 'w dtree) option" where
  "processInotifyEvents sys rd s =
     (let cnt = (if readBufferSize s > 0 then readBufferSize s else INOTIFY_READ_BUF_LEN);
          (r, w') = rd (inotifyFd s) cnt (world s);
          s = s\<lparr>world := w'\<rparr>
      in case r of
           Inl e \<Rightarrow> Some (Exits 1, s)
         | Inr evs \<Rightarrow>
             if evs = [] then
               Some (Exits 1, s\<lparr>err_out := err_out s @ ''read() from inotify fd returned 0!''\<rparr>)
             else
               (let s = s\<lparr>inotifyReadCnt := Suc (inotifyReadCnt s)\<rparr>;
                    s = logMessage VB_NOISY (''\<newline>==========> Read '' @ show_int (int (inotifyReadCnt s))
                          @ '': got '' @ show_int (buf_size evs) @ '' bytes\<newline>'') s
                in process_block sys rd evs (buf_size evs) True s))"

subsection \<open>Interactive commands\<close>

text \<open>\<open>sscanf(line, "%c %s\n", &cmd, arg)\<close>; without a second word \<open>arg\<close> stays uninitialised.\<close>

definition parse_command :: "string \<Rightarrow> char \<times> string option" where
  "parse_command line =
     (let word = takeWhile (\<lambda>c. \<not> isspace c) (dropWhile isspace (tl line))
      in (hd line, if word = [] then None else Some word))"

fun verify_slots ::
    "'w inotify_sys \<Rightarrow> bool \<Rightarrow> cache \<Rightarrow> nat \<Rightarrow> nat \<Rightarrow> nat \<Rightarrow> 'w dtree \<Rightarrow> (nat \<times> nat) outcome \<times> 'w dtree" where
  "verify_slots sys loud [] j cnt failures s = (Returns (cnt, failures), s)"
| "verify_slots sys loud (e # c) j cnt failures s =
     (if wd e \<ge> 0 then
        (let tag = ''[slot = '' @ show_int (int j) @ ''; wd = '' @ show_int (wd e) @ ''] '' @ path e
         in case sys_lstat sys (path e) (world s) of
              Inl err \<Rightarrow>
                verify_slots sys loud c (Suc j) cnt (Suc failures)
                  (if loud then logMessage VB_BASIC (''stat: '' @ tag @ '': '' @ sys_strerror sys err @ ''\<newline>'') s
                   else s)
            | Inr sb \<Rightarrow>
                if \<not> st_isdir sb
                then (Exits 1, if loud then logMessage 0 (path e @ '' is not a directory\<newline>'') s else s)
                else verify_slots sys loud c (Suc j) (Suc cnt) failures
                       (if loud then logMessage VB_NOISY (''OK: '' @ tag @ ''\<newline>'') s else s))
      else verify_slots sys loud c (Suc j) cnt failures s)"

fun list_slots :: "cache \<Rightarrow> nat \<Rightarrow> 'w dtree \<Rightarrow> 'w dtree" where
  "list_slots [] j s = s"
| "list_slots (e # c) j s =
     list_slots c (Suc j)
       (if wd e \<ge> 0
        then logMessage 0 (show_int (int j) @ '': '' @ show_int (wd e) @ '' '' @ path e @ ''\<newline>'') s else s)"

definition print :: "string \<Rightarrow> 'w dtree \<Rightarrow> 'w dtree" where
  "print t s = s\<lparr>std_out := std_out s @ t\<rparr>"

definition on_off :: "bool \<Rightarrow> string" where
  "on_off b = (if b then ''on\<newline>'' else ''off\<newline>'')"

definition zap_count :: "nat option \<Rightarrow> int" where
  "zap_count r = (case r of None \<Rightarrow> -1 | Some n \<Rightarrow> int n)"

definition cmd_add :: "'w inotify_sys \<Rightarrow> string \<Rightarrow> 'w dtree \<Rightarrow> unit outcome \<times> 'w dtree" where
  "cmd_add sys arg s =
     (let (r, s) = zapSubtree sys (inotifyFd s) arg s;
          s = (if zap_count r = 0 then logMessage VB_BASIC (''Adding new subtree: '' @ arg @ ''\<newline>'') s
               else logMessage VB_BASIC (''Zapped: '' @ arg @ '', '' @ show_int (zap_count r) @ '' entries\<newline>'') s)
      in watchSubtree sys (inotifyFd s) arg s)"

definition cmd_check :: "'w inotify_sys \<Rightarrow> char \<Rightarrow> 'w dtree \<Rightarrow> unit outcome \<times> 'w dtree" where
  "cmd_check sys cmd s =
     andthen (verify_slots sys (cmd = CHR ''c'') (wlCache s) 0 0 0 s)
       (\<lambda>(cnt, failures) s.
          (Returns (), logMessage 0 (''Failures: '' @ show_int (int failures) @ ''\<newline>'')
             (logMessage 0 (''Successfully verified '' @ show_int (int cnt) @ '' entries\<newline>'') s)))"

definition cmd_verbose :: "string option \<Rightarrow> 'w dtree \<Rightarrow> 'w dtree" where
  "cmd_verbose arg s =
     (case arg of
        Some a \<Rightarrow> s\<lparr>verboseMask := atoi a\<rparr>
      | None \<Rightarrow>
          (let v = (if verboseMask s = 0 then 1 else 0)
           in print (on_off (v \<noteq> 0)) (s\<lparr>verboseMask := v\<rparr>)))"

definition cmd_write :: "'w inotify_sys \<Rightarrow> string \<Rightarrow> 'w dtree \<Rightarrow> unit outcome \<times> 'w dtree" where
  "cmd_write sys arg s =
     (case sys_write_file sys arg
             (concat (map (\<lambda>e. if wd e \<ge> 0 then path e @ ''\<newline>'' else []) (wlCache s))) (world s) of
        None \<Rightarrow> (Undefined, s)
      | Some w' \<Rightarrow> (Returns (), s\<lparr>world := w'\<rparr>))"

definition cmd_rebuild :: "'w inotify_sys \<Rightarrow> 'w dtree \<Rightarrow> unit outcome \<times> 'w dtree" where
  "cmd_rebuild sys s =
     andthen (reinitialize sys (-1) (s\<lparr>world := sys_close sys (inotifyFd s) (world s)\<rparr>))
       (\<lambda>fd s. (Returns (), s\<lparr>inotifyFd := fd\<rparr>))"

definition help_text :: string where
  "help_text =
     ''Commands:\<newline>''
     @ ''0        Rebuild cache\<newline>''
     @ ''a path   Add/refresh pathname watches and cache\<newline>''
     @ ''c        Verify cached pathnames\<newline>''
     @ ''d        Toggle cache dumping\<newline>''
     @ ''l        List cached pathnames\<newline>''
     @ ''q        Quit\<newline>''
     @ ''v [n]    Toggle/set verbose level for messages to stderr\<newline>''
     @ ''             0 = no messages\<newline>''
     @ ''             1 = basic messages\<newline>''
     @ ''             2 = verbose messages\<newline>''
     @ ''             3 = basic and verbose messages\<newline>''
     @ ''w file   Write directory list to file\<newline>''
     @ ''x        Toggle cache checking\<newline>''
     @ ''z path   Zap pathname and watches from cache\<newline>''"

definition with_arg ::
    "string option \<Rightarrow> (string \<Rightarrow> 'w dtree \<Rightarrow> unit outcome \<times> 'w dtree) \<Rightarrow> 'w dtree \<Rightarrow> unit outcome \<times> 'w dtree" where
  "with_arg arg k s = (case arg of None \<Rightarrow> (Undefined, s) | Some a \<Rightarrow> k a s)"

text \<open>\<open>input\<close> is what \<open>read\<close> on standard input returned: nothing at end of file or on an error.\<close>

definition executeCommand :: "'w inotify_sys \<Rightarrow> string \<Rightarrow> 'w dtree \<Rightarrow> unit outcome \<times> 'w dtree" where
  "executeCommand sys input s =
     (if input = [] then (Exits 1, print ''bye!\<newline>'' s)
      else
        (let line = butlast input
         in if line = [] then (Returns (), s)
            else
              (let (cmd, arg) = parse_command line
               in if cmd = CHR ''a'' then with_arg arg (cmd_add sys) s
                  else if cmd = CHR ''c'' \<or> cmd = CHR ''C'' then cmd_check sys cmd s
                  else if cmd = CHR ''l'' then
                    (Returns (), logMessage VB_BASIC
                       (''Total entries: '' @ show_int (int (used_slots (wlCache s))) @ ''\<newline>'')
                       (list_slots (wlCache s) 0 s))
                  else if cmd = CHR ''q'' then (Exits 0, s)
                  else if cmd = CHR ''v'' then (Returns (), cmd_verbose arg s)
                  else if cmd = CHR ''d'' then
                    (Returns (), print (on_off (\<not> dumpCache s)) (s\<lparr>dumpCache := \<not> dumpCache s\<rparr>))
                  else if cmd = CHR ''x'' then
                    (Returns (), print (on_off (\<not> checkCache s)) (s\<lparr>checkCache := \<not> checkCache s\<rparr>))
                  else if cmd = CHR ''w'' then with_arg arg (cmd_write sys) s
                  else if cmd = CHR ''z'' then
                    with_arg arg
                      (\<lambda>a s. let (r, s) = zapSubtree sys (inotifyFd s) a s
                             in (Returns (), logMessage VB_BASIC
                                   (''Zapped: '' @ a @ '', '' @ show_int (zap_count r) @ '' entries\<newline>'') s)) s
                  else if cmd = CHR ''0'' then cmd_rebuild sys s
                  else (Returns (), print help_text (print (''Unrecognized command: '' @ [cmd] @ ''\<newline>'') s)))))"

subsection \<open>The main program\<close>

text \<open>
  \<open>opts\<close> is the sequence of options that \<open>getopt\<close> returns, with their arguments (\<open>?\<close> for an invalid
  one), \<open>args\<close> the remaining arguments.  Opening the log file is taken to succeed and yields an
  empty file.
\<close>

definition set_option :: "char \<Rightarrow> string \<Rightarrow> 'w dtree \<Rightarrow> 'w dtree option" where
  "set_option opt optarg s =
     (if opt = CHR ''a'' then Some (s\<lparr>abortOnCacheProblem := True, stopFile := Some optarg\<rparr>)
      else if opt = CHR ''x'' then Some (s\<lparr>checkCache := True\<rparr>)
      else if opt = CHR ''d'' then Some (s\<lparr>dumpCache := True\<rparr>)
      else if opt = CHR ''v'' then Some (s\<lparr>verboseMask := atoi optarg\<rparr>)
      else if opt = CHR ''b'' then Some (s\<lparr>readBufferSize := atoi optarg\<rparr>)
      else if opt = CHR ''l'' then Some (s\<lparr>logfp := Some []\<rparr>)
      else None)"

fun set_options :: "(char \<times> string) list \<Rightarrow> 'w dtree \<Rightarrow> 'w dtree option" where
  "set_options [] s = Some s"
| "set_options ((opt, optarg) # opts) s =
     (case set_option opt optarg s of None \<Rightarrow> None | Some s' \<Rightarrow> set_options opts s')"

definition initial_state :: "'w \<Rightarrow> 'w dtree" where
  "initial_state w =
     \<lparr>verboseMask = 0, checkCache = False, dumpCache = False, readBufferSize = 0,
      stopFile = None, abortOnCacheProblem = False, logfp = None, err_out = [], std_out = [], inotifyReadCnt = 0,
      wlCache = [], rootDirPaths = [], ignoreRootDirs = 0, dirCnt = 0, ifd = 0, inotifyFd = -1,
      reinitCnt = 0, overflowCnt = 0, world = w\<rparr>"

definition main_start ::
    "'w inotify_sys \<Rightarrow> (char \<times> string) list \<Rightarrow> string list \<Rightarrow> 'w \<Rightarrow> unit outcome \<times> 'w dtree" where
  "main_start sys opts args w =
     (case set_options opts (initial_state w) of
        None \<Rightarrow> (Exits 1, initial_state w)
      | Some s \<Rightarrow>
          if args = [] then (Exits 1, s)
          else
            andthen (copyRootDirPaths sys args s)
              (\<lambda>_ s. andthen (reinitialize sys (-1) s)
                 (\<lambda>fd s. (Returns (), print (sys_progname sys @ ''> '') (s\<lparr>inotifyFd := fd\<rparr>)))))"

text \<open>
  One pass of the endless loop, after \<open>select\<close> has reported a command line (\<open>Some\<close> of what is read)
  and whether there are events.
\<close>

definition main_step ::
    "'w inotify_sys \<Rightarrow> (fd \<Rightarrow> int \<Rightarrow> 'w \<Rightarrow> inotify_event list sysres \<times> 'w) \<Rightarrow> string option \<Rightarrow> bool
      \<Rightarrow> 'w dtree \<Rightarrow> (unit outcome \<times> 'w dtree) option" where
  "main_step sys rd input events s =
     (case (case input of
              None \<Rightarrow> (Returns (), s)
            | Some line \<Rightarrow>
                andthen (executeCommand sys line s)
                  (\<lambda>_ s. (Returns (), print (sys_progname sys @ ''> '') s))) of
        (Returns _, s) \<Rightarrow> if events then processInotifyEvents sys rd s else Some (Returns (), s)
      | (Exits k, s) \<Rightarrow> Some (Exits k, s)
      | (Aborts, s) \<Rightarrow> Some (Aborts, s)
      | (Undefined, s) \<Rightarrow> Some (Undefined, s))"

end
