(* ===== verification/Inotify_Invariant.thy ===== *)
theory Inotify_Invariant
  imports Inotify_Events
begin

text \<open>
  Invariants of \<open>inotify_dtree.c\<close>.  A relation \<open>J\<close> between the cache and the outside world that the
  system calls and the primitive cache operations keep is kept by every function of the program, on
  every path on which the process goes on or ends.  It is used with two relations: no watch
  descriptor is cached twice and unused slots are clean (this needs only that \<open>inotify_add_watch\<close>
  returns nonnegative descriptors); and the number of bytes of events still to be read does not grow.
\<close>

definition stable :: "'w inotify_sys \<Rightarrow> (cache \<Rightarrow> 'w \<Rightarrow> bool) \<Rightarrow> bool" where
  "stable sys J \<longleftrightarrow>
     (\<forall>c w. J c w \<longrightarrow>
        (\<forall>fd p m r w'. sys_add_watch sys fd p m w = (r, w') \<longrightarrow>
            J c w' \<and> (\<forall>v. r = Inr v \<longrightarrow> findWatch c v = None \<longrightarrow> J (fst (addWatchToCache c v p)) w'))
        \<and> (\<forall>fd v r w'. sys_rm_watch sys fd v w = (r, w') \<longrightarrow> J c w')
        \<and> (\<forall>r w'. sys_inotify_init sys w = (r, w') \<longrightarrow> J c w')
        \<and> (\<forall>p r w'. sys_nftw sys p w = (r, w') \<longrightarrow> J c w')
        \<and> (\<forall>f t w'. sys_write_file sys f t w = Some w' \<longrightarrow> J c w')
        \<and> (\<forall>fd. J c (sys_close sys fd w)) \<and> (\<forall>f. J c (sys_create sys f w))
        \<and> J [] w \<and> (\<forall>i. J (markCacheSlotEmpty c i) w)
        \<and> (\<forall>a b d e. J (rewriteCachedPaths c a b d e) w))"

definition kept :: "(cache \<Rightarrow> 'w \<Rightarrow> bool) \<Rightarrow> 'w dtree \<Rightarrow> bool" where
  "kept J s \<longleftrightarrow> J (wlCache s) (world s)"

lemma stableD:
  assumes "stable sys J" "J c w"
  shows "sys_add_watch sys fd p m w = (r, w') \<Longrightarrow> J c w'"
    and "sys_add_watch sys fd p m w = (Inr v, w') \<Longrightarrow> findWatch c v = None \<Longrightarrow> J (fst (addWatchToCache c v p)) w'"
    and "sys_rm_watch sys fd v w = (r', w') \<Longrightarrow> J c w'"
    and "sys_inotify_init sys w = (q, w') \<Longrightarrow> J c w'"
    and "sys_nftw sys p w = (x, w') \<Longrightarrow> J c w'"
    and "sys_write_file sys f t w = Some w' \<Longrightarrow> J c w'"
    and "J c (sys_close sys fd w)" "J c (sys_create sys f w)"
    and "J [] w" "J (markCacheSlotEmpty c i) w" "J (rewriteCachedPaths c a b d e) w"
  using assms(1) [unfolded stable_def, THEN spec, THEN spec, THEN mp, OF assms(2)] by metis+

subsection \<open>What logging leaves alone\<close>

lemma logMessage_frame [simp]:
  "wlCache (logMessage m t s) = wlCache s"
  "world (logMessage m t s) = world s"
  "inotifyFd (logMessage m t s) = inotifyFd s"
  "rootDirPaths (logMessage m t s) = rootDirPaths s"
  "ignoreRootDirs (logMessage m t s) = ignoreRootDirs s"
  "abortOnCacheProblem (logMessage m t s) = abortOnCacheProblem s"
  "checkCache (logMessage m t s) = checkCache s"
  "dumpCache (logMessage m t s) = dumpCache s"
  "dirCnt (logMessage m t s) = dirCnt s"
  "ifd (logMessage m t s) = ifd s"
  by (simp_all add: logMessage_def Let_def split: option.splits)

lemma logMessage_if_frame [simp]:
  "wlCache (if b then logMessage m t s else s) = wlCache s"
  "world (if b then logMessage m t s else s) = world s"
  "inotifyFd (if b then logMessage m t s else s) = inotifyFd s"
  "rootDirPaths (if b then logMessage m t s else s) = rootDirPaths s"
  "abortOnCacheProblem (if b then logMessage m t s else s) = abortOnCacheProblem s"
  "checkCache (if b then logMessage m t s else s) = checkCache s"
  "dumpCache (if b then logMessage m t s else s) = dumpCache s"
  by simp_all

lemma displayInotifyEvent_frame [simp]:
  "wlCache (displayInotifyEvent ev s) = wlCache s"
  "world (displayInotifyEvent ev s) = world s"
  "inotifyFd (displayInotifyEvent ev s) = inotifyFd s"
  "rootDirPaths (displayInotifyEvent ev s) = rootDirPaths s"
  "abortOnCacheProblem (displayInotifyEvent ev s) = abortOnCacheProblem s"
  "checkCache (displayInotifyEvent ev s) = checkCache s"
  "dumpCache (displayInotifyEvent ev s) = dumpCache s"
  by (simp_all add: displayInotifyEvent_def Let_def)

lemma kept_log [simp]: "kept J (logMessage m t s) = kept J s"
  by (simp add: kept_def)

lemma kept_display [simp]: "kept J (displayInotifyEvent ev s) = kept J s"
  by (simp add: kept_def)

lemma kept_updates [simp]:
  "kept J (s\<lparr>inotifyFd := fd\<rparr>) = kept J s" "kept J (s\<lparr>stopFile := f\<rparr>) = kept J s"
  "kept J (s\<lparr>std_out := t\<rparr>) = kept J s" "kept J (s\<lparr>err_out := t\<rparr>) = kept J s"
  "kept J (s\<lparr>logfp := l\<rparr>) = kept J s" "kept J (s\<lparr>dirCnt := n\<rparr>) = kept J s"
  "kept J (s\<lparr>ifd := fd\<rparr>) = kept J s" "kept J (s\<lparr>reinitCnt := n\<rparr>) = kept J s"
  "kept J (s\<lparr>overflowCnt := n\<rparr>) = kept J s" "kept J (s\<lparr>inotifyReadCnt := n\<rparr>) = kept J s"
  "kept J (s\<lparr>rootDirPaths := r\<rparr>) = kept J s" "kept J (s\<lparr>ignoreRootDirs := n\<rparr>) = kept J s"
  "kept J (s\<lparr>verboseMask := v\<rparr>) = kept J s" "kept J (s\<lparr>checkCache := b\<rparr>) = kept J s"
  "kept J (s\<lparr>dumpCache := b\<rparr>) = kept J s" "kept J (s\<lparr>readBufferSize := v\<rparr>) = kept J s"
  "kept J (s\<lparr>abortOnCacheProblem := b\<rparr>) = kept J s"
  by (simp_all add: kept_def)

lemma andthen_kept:
  "kept J (snd m) \<Longrightarrow> (\<And>x s. kept J s \<Longrightarrow> kept J (snd (k x s))) \<Longrightarrow> kept J (snd (andthen m k))"
  by (rule andthen_snd_inv) auto

lemma rewrite_log_frame [simp]:
  "wlCache (rewrite_log f n c j s) = wlCache s" "world (rewrite_log f n c j s) = world s"
  by (induction f n c j s rule: rewrite_log.induct) (simp_all add: Let_def)

lemma rename_dir_frame [simp]:
  "wlCache (rename_dir a b c d s) = rewriteCachedPaths (wlCache s) a b c d"
  "world (rename_dir a b c d s) = world s"
  by (simp_all add: rename_dir_def Let_def)

lemma kept_dumpCacheToLog: "kept J s \<Longrightarrow> kept J (snd (dumpCacheToLog s))"
  by (simp add: dumpCacheToLog_def split: option.splits)

lemma kept_check_slots: "kept J s \<Longrightarrow> kept J (snd (check_slots sys c j sb failures s))"
  by (induction sys c j sb failures s rule: check_slots.induct) (auto split: sum.splits option.splits)

lemma kept_checkCacheConsistency: "kept J s \<Longrightarrow> kept J (snd (checkCacheConsistency sys s))"
  unfolding checkCacheConsistency_def by (rule andthen_kept) (auto simp: kept_check_slots)

lemma kept_zapRootDirPath: "kept J s \<Longrightarrow> kept J (snd (zapRootDirPath p s))"
  by (auto simp: zapRootDirPath_def Let_def split: option.splits)

lemma kept_copyRootDirPaths: "kept J s \<Longrightarrow> kept J (snd (copyRootDirPaths sys args s))"
  by (auto simp: copyRootDirPaths_def split: option.splits sum.splits)

lemma kept_after_event: "kept J s \<Longrightarrow> kept J (snd (after_event sys r s))"
  unfolding after_event_def
  by (auto split: sum.splits intro!: andthen_kept kept_checkCacheConsistency kept_dumpCacheToLog)

lemma kept_print [simp]: "kept J (print t s) = kept J s"
  by (simp add: print_def)

lemma kept_verify_slots: "kept J s \<Longrightarrow> kept J (snd (verify_slots sys loud c j cnt failures s))"
  by (induction sys loud c j cnt failures s rule: verify_slots.induct) (auto simp: Let_def split: sum.splits)

lemma kept_list_slots: "kept J s \<Longrightarrow> kept J (list_slots c j s)"
  by (induction c j s rule: list_slots.induct) auto

lemma kept_set_options: "set_options opts s = Some t \<Longrightarrow> kept J s \<Longrightarrow> kept J t"
  by (induction opts s rule: set_options.induct)
    (auto simp: set_option_def split: option.splits if_splits)

subsection \<open>Every function keeps a stable relation\<close>

locale dtree_invariant =
  fixes sys :: "'w inotify_sys"
    and rd :: "fd \<Rightarrow> int \<Rightarrow> 'w \<Rightarrow> inotify_event list sysres \<times> 'w"
    and J :: "cache \<Rightarrow> 'w \<Rightarrow> bool"
  assumes stable: "stable sys J"
    and reads: "J c w \<Longrightarrow> rd fd n w = (r, w') \<Longrightarrow> J c w'"
begin

lemma kept_world:
  assumes "kept J s"
  shows "sys_add_watch sys fd p m (world s) = (r, w') \<Longrightarrow> kept J (s\<lparr>world := w'\<rparr>)"
    and "sys_rm_watch sys fd v (world s) = (r', w') \<Longrightarrow> kept J (s\<lparr>world := w'\<rparr>)"
    and "sys_inotify_init sys (world s) = (q, w') \<Longrightarrow> kept J (s\<lparr>world := w'\<rparr>)"
    and "sys_nftw sys p (world s) = (x, w') \<Longrightarrow> kept J (s\<lparr>world := w'\<rparr>)"
    and "sys_write_file sys f t (world s) = Some w' \<Longrightarrow> kept J (s\<lparr>world := w'\<rparr>)"
    and "rd fd n (world s) = (evs, w') \<Longrightarrow> kept J (s\<lparr>world := w'\<rparr>)"
    and "kept J (s\<lparr>world := sys_close sys fd (world s)\<rparr>)"
    and "kept J (s\<lparr>world := sys_create sys f (world s)\<rparr>)"
  using assms stable unfolding kept_def by (auto dest: stableD reads)

lemma kept_cache:
  assumes "kept J s"
  shows "kept J (freeCache s)" "kept J (clear_slot i s)" "kept J (rename_dir a b c d s)"
  using assms stable unfolding kept_def
  by (auto simp: freeCache_def clear_slot_def Let_def dest: stableD)

lemma kept_createStopFileAndAbort: "kept J s \<Longrightarrow> kept J (snd (createStopFileAndAbort sys s))"
  unfolding createStopFileAndAbort_def Let_def
  by (rule andthen_kept) (auto simp: kept_dumpCacheToLog kept_world split: option.splits)

lemma kept_findWatchChecked: "kept J s \<Longrightarrow> kept J (snd (findWatchChecked sys w s))"
  by (auto simp: findWatchChecked_def Let_def kept_createStopFileAndAbort split: option.splits)

lemma kept_traverseTree:
  assumes "kept J s"
  shows "kept J (snd (traverseTree sys p d s))"
proof -
  have new: "kept J (cache_new_watch v p (s\<lparr>world := w'\<rparr>))"
    if "sys_add_watch sys fd p m (world s) = (Inr v, w')" for fd m v w'
    using that assms stable kept_world(1) [OF assms that]
    unfolding cache_new_watch_def kept_def by (auto simp: Let_def split: prod.splits dest: stableD(2))
  show ?thesis
    using assms by (auto simp: traverseTree_def Let_def kept_world new split: prod.splits sum.splits)
qed

lemma kept_traverse_all: "kept J s \<Longrightarrow> kept J (snd (traverse_all sys es s))"
proof (induction es arbitrary: s)
  case (Cons e es)
  then show ?case by (cases e) (auto intro!: andthen_kept kept_traverseTree)
qed simp

lemma kept_watchDir: "kept J s \<Longrightarrow> kept J (snd (watchDir sys fd p s))"
  unfolding watchDir_def Let_def
  by (auto split: prod.splits option.splits intro!: andthen_kept kept_traverse_all kept_world(4))

lemma kept_watchSubtree: "kept J s \<Longrightarrow> kept J (snd (watchSubtree sys fd p s))"
  unfolding watchSubtree_def by (auto intro!: andthen_kept kept_watchDir)

lemma kept_zap_slots: "kept J s \<Longrightarrow> kept J (snd (zap_slots sys fd pn js cnt s))"
  by (induction js arbitrary: cnt s)
    (auto simp: Let_def kept_world kept_cache split: prod.splits sum.splits)

lemma kept_zapSubtree: "kept J s \<Longrightarrow> kept J (snd (zapSubtree sys fd p s))"
  by (simp add: zapSubtree_def Let_def kept_zap_slots)

lemma kept_watch_roots: "kept J s \<Longrightarrow> kept J (snd (watch_roots sys fd rs s))"
  by (induction rs arbitrary: s) (auto split: option.splits intro!: andthen_kept kept_watchSubtree)

lemma kept_reinitialize:
  assumes "kept J s"
  shows "kept J (snd (reinitialize sys fd s))"
proof -
  let ?s = "if fd \<ge> 0 then
       (let s = s\<lparr>world := sys_close sys fd (world s), reinitCnt := Suc (reinitCnt s)\<rparr>
        in logMessage 0 (''Reinitializing cache and inotify FD (reinitCnt = ''
              @ show_int (int (reinitCnt s)) @ '')\<newline>'') s)
     else (logMessage 0 ''Initializing cache\<newline>'' s)\<lparr>reinitCnt := 0\<rparr>"
  have "kept J ?s" using assms by (simp add: Let_def kept_world)
  then show ?thesis
    unfolding reinitialize_def Let_def
    by (auto split: prod.splits sum.splits intro!: andthen_kept kept_watch_roots kept_cache kept_world(3))
qed

lemmas kept_steps = kept_reinitialize kept_watchSubtree kept_zapSubtree kept_zapRootDirPath
  kept_findWatchChecked kept_cache kept_checkCacheConsistency kept_dumpCacheToLog

lemma kept_discard_all: "kept J s \<Longrightarrow> kept J (snd (discard_all sys s))"
  unfolding discard_all_def by (auto intro!: andthen_kept kept_steps)

lemma kept_zap_case:
  assumes "kept J s" "\<And>cnt t. kept J t \<Longrightarrow> kept J (snd (k cnt t))"
  shows "kept J (snd (case zapSubtree sys fd p s of (None, t) \<Rightarrow> discard_all sys t | (Some cnt, t) \<Rightarrow> k cnt t))"
  using assms kept_zapSubtree [OF assms(1), of fd p]
  by (auto split: prod.splits option.splits intro!: kept_discard_all)

lemma kept_on_rename: "kept J s \<Longrightarrow> kept J (snd (on_rename sys ev slot nextEv s))"
  unfolding on_rename_def
  by (intro andthen_kept kept_findWatchChecked)
    (auto intro: kept_cache kept_discard_all split: option.splits)

lemma kept_dispatch:
  assumes "kept J s"
  shows "kept J (snd (dispatch sys ev rest bufSize firstTry slot s))"
proof -
  have 1: "kept J (snd (on_create sys ev i s))" for i
    using assms unfolding on_create_def Let_def by (auto intro!: andthen_kept kept_steps)
  have 2: "kept J (snd (on_delete_self ev i s))" for i
    using assms unfolding on_delete_self_def Let_def by (auto intro!: andthen_kept kept_steps)
  have 3: "kept J (snd (on_moved_out sys ev bufSize firstTry i s))" for i
    unfolding on_moved_out_def Let_def by (rule kept_zap_case) (use assms in auto)
  have 4: "kept J (snd (on_moved_from sys ev rest bufSize firstTry i s))" for i
    using assms 3 unfolding on_moved_from_def by (auto intro: kept_on_rename split: list.splits)
  have 5: "kept J (snd (on_q_overflow sys s))"
    using assms unfolding on_q_overflow_def Let_def by (auto intro!: andthen_kept kept_steps)
  have 6: "kept J (snd (on_unmount ev i s))" for i
    using assms unfolding on_unmount_def Let_def by (auto intro: kept_steps)
  have 7: "kept J (snd (on_move_self sys ev i s))" for i
    using assms unfolding on_move_self_def Let_def
    by (intro andthen_kept kept_zap_case) (auto intro: kept_steps)
  show ?thesis
    using assms 1 2 4 5 6 7 by (simp add: dispatch_def with_slot_def split: option.splits)
qed

lemma kept_processNext:
  assumes "kept J s"
  shows "kept J (snd (processNextInotifyEvent sys evs n f s))"
  using assms unfolding processNextInotifyEvent_def Let_def
  by (auto split: list.splits option.splits
      intro!: andthen_kept kept_dispatch kept_after_event kept_discard_all kept_findWatchChecked)

lemma kept_secondary_read: "kept J s \<Longrightarrow> kept J (snd (secondary_read rd evs n s))"
  by (auto simp: secondary_read_def Let_def log_secondary_def kept_world split: prod.splits sum.splits)

lemma kept_process_block:
  assumes ret: "process_block sys rd evs n f s = Some r" and inv: "kept J s"
  shows "kept J (snd r)"
proof -
  have "kept J s \<longrightarrow> kept J (snd r)"
  proof (rule process_block.raw_induct
      [where P = "\<lambda>sys' rd' evs n f s r. sys' = sys \<and> rd' = rd \<longrightarrow> kept J s \<longrightarrow> kept J (snd r)", OF _ ret, THEN mp])
    fix pb sys' rd' evs n f and s :: "'w dtree" and r
    assume IH: "\<And>sys' rd' evs n f (s :: 'w dtree) r. pb sys' rd' evs n f s = Some r
        \<Longrightarrow> sys' = sys \<and> rd' = rd \<longrightarrow> kept J s \<longrightarrow> kept J (snd r)"
      and eq: "(if n > 0 then
        (case processNextInotifyEvent sys' evs n f s of
           (Returns evLen, s) \<Rightarrow>
             if evLen > 0
             then pb sys' rd' (skip_bytes evLen evs) (n - evLen) True s
             else
               (case secondary_read rd' evs n s of
                  (Returns (evs', numRead'), s) \<Rightarrow> pb sys' rd' evs' numRead' False s
                | (Exits k, s) \<Rightarrow> Some (Exits k, s)
                | (Aborts, s) \<Rightarrow> Some (Aborts, s)
                | (Undefined, s) \<Rightarrow> Some (Undefined, s))
         | (Exits k, s) \<Rightarrow> Some (Exits k, s)
         | (Aborts, s) \<Rightarrow> Some (Aborts, s)
         | (Undefined, s) \<Rightarrow> Some (Undefined, s))
      else Some (Returns (), s)) = Some r"
    show "sys' = sys \<and> rd' = rd \<longrightarrow> kept J s \<longrightarrow> kept J (snd r)"
    proof (intro impI)
      assume sys': "sys' = sys \<and> rd' = rd" and s: "kept J s"
      obtain x t where nxt: "processNextInotifyEvent sys evs n f s = (x, t)" by fastforce
      have t: "kept J t" using kept_processNext [OF s, of evs n f] nxt by simp
      obtain y u where snd_rd: "secondary_read rd evs n t = (y, u)" by fastforce
      have u: "kept J u" using kept_secondary_read [OF t, of evs n] snd_rd by simp
      show "kept J (snd r)"
      proof (cases "n > 0 \<and> (\<exists>k. x = Returns k)")
        case True
        then obtain k where x: "x = Returns k" "n > 0" by blast
        show ?thesis
        proof (cases "k > 0")
          case True
          then show ?thesis using eq IH [of sys' rd' "skip_bytes k evs" "n - k" True t r] sys' t nxt x by simp
        next
          case False
          then show ?thesis
            using eq sys' u nxt x snd_rd IH [of sys' rd' _ _ False u r] by (cases y) auto
        qed
      qed (use eq sys' s t nxt in \<open>cases x; auto split: if_splits\<close>)
    qed
  qed simp
  with inv show ?thesis by blast
qed

lemma kept_processInotifyEvents:
  assumes "processInotifyEvents sys rd s = Some r" "kept J s"
  shows "kept J (snd r)"
  using assms
  by (auto simp: processInotifyEvents_def Let_def kept_world split: prod.splits sum.splits if_splits
      intro: kept_process_block)

lemma kept_executeCommand:
  assumes "kept J s"
  shows "kept J (snd (executeCommand sys input s))"
proof -
  have add: "kept J (snd (cmd_add sys a s))" for a
    using assms kept_zapSubtree [OF assms, of "inotifyFd s" a]
    by (auto simp: cmd_add_def Let_def split: prod.splits intro!: kept_watchSubtree)
  have chk: "kept J (snd (cmd_check sys c s))" for c
    unfolding cmd_check_def by (intro andthen_kept) (auto simp: kept_verify_slots assms split: prod.splits)
  have wr: "kept J (snd (cmd_write sys a s))" for a
    using assms by (simp add: cmd_write_def kept_world split: option.splits)
  have reb: "kept J (snd (cmd_rebuild sys s))"
    unfolding cmd_rebuild_def by (intro andthen_kept kept_reinitialize) (auto simp: assms kept_world)
  have zap: "kept J t" if "zapSubtree sys fd a s = (r, t)" for fd a r t
    using kept_zapSubtree [OF assms, of fd a] that by simp
  have vb: "kept J (cmd_verbose a s)" for a
    using assms by (simp add: cmd_verbose_def Let_def split: option.splits)
  show ?thesis
    using assms add chk wr reb vb kept_list_slots [OF assms]
    by (auto simp: executeCommand_def Let_def with_arg_def split: prod.splits option.splits intro: zap)
qed

lemma kept_main_start: "kept J (initial_state w) \<Longrightarrow> kept J (snd (main_start sys opts args w))"
  by (auto simp: main_start_def dest: kept_set_options split: option.splits
      intro!: andthen_kept kept_reinitialize kept_copyRootDirPaths)

lemma kept_main_step:
  assumes "main_step sys rd input events s = Some r" "kept J s"
  shows "kept J (snd r)"
proof -
  let ?m = "case input of None \<Rightarrow> (Returns (), s)
      | Some line \<Rightarrow> andthen (executeCommand sys line s) (\<lambda>_ s. (Returns (), print (sys_progname sys @ ''> '') s))"
  have "kept J (snd ?m)"
    using assms by (auto split: option.splits intro!: andthen_kept kept_executeCommand)
  moreover obtain x t where m: "?m = (x, t)" by fastforce
  ultimately have "kept J t" by simp
  moreover have "main_step sys rd input events s =
      (case (x, t) of
        (Returns _, s) \<Rightarrow> if events then processInotifyEvents sys rd s else Some (Returns (), s)
      | (Exits k, s) \<Rightarrow> Some (Exits k, s)
      | (Aborts, s) \<Rightarrow> Some (Aborts, s)
      | (Undefined, s) \<Rightarrow> Some (Undefined, s))"
    unfolding main_step_def m ..
  ultimately show ?thesis
    using assms kept_processInotifyEvents [of t r]
    by (auto split: outcome.splits if_splits)
qed

end

subsection \<open>Runs of the program\<close>

text \<open>The states of the program between two passes of its main loop.\<close>

inductive reachable ::
    "'w inotify_sys \<Rightarrow> (fd \<Rightarrow> int \<Rightarrow> 'w \<Rightarrow> inotify_event list sysres \<times> 'w) \<Rightarrow> 'w dtree \<Rightarrow> bool"
  for sys rd where
  start: "main_start sys opts args w = (Returns (), s) \<Longrightarrow> reachable sys rd s"
| step: "reachable sys rd s \<Longrightarrow> main_step sys rd input events s = Some (Returns (), t) \<Longrightarrow> reachable sys rd t"

subsection \<open>The cache\<close>

text \<open>Documented behaviour of \<open>inotify_add_watch\<close>: the descriptors it returns are not negative.\<close>

definition wd_law :: "'w inotify_sys \<Rightarrow> bool" where
  "wd_law sys \<longleftrightarrow> (\<forall>fd p m w v w'. sys_add_watch sys fd p m w = (Inr v, w') \<longrightarrow> 0 \<le> v)"

lemma stable_cache_inv: "stable sys (\<lambda>c w. wd_law sys \<longrightarrow> cache_inv c)"
proof (cases "wd_law sys")
  case True
  have "cache_inv (fst (addWatchToCache c v p))"
    if "cache_inv c" "0 \<le> v" "findWatch c v = None" for c v p
    using addWatchToCache_spec(1) [OF that] by (metis surjective_pairing)
  with True show ?thesis
    unfolding stable_def
    by (auto simp: markCacheSlotEmpty_inv rewriteCachedPaths_inv) (metis wd_law_def)
qed (simp add: stable_def)

interpretation cached: dtree_invariant sys rd "\<lambda>c w. wd_law sys \<longrightarrow> cache_inv c" for sys rd
  by unfold_locales (auto simp: stable_cache_inv)

lemma reachable_cache_inv: "reachable sys rd s \<Longrightarrow> wd_law sys \<Longrightarrow> cache_inv (wlCache s)"
proof (induction rule: reachable.induct)
  case (start opts args w s)
  then show ?case
    using cached.kept_main_start [of sys w opts args] by (simp add: kept_def initial_state_def)
next
  case (step s input events t)
  then show ?case
    using cached.kept_main_step [of sys rd input events s "(Returns (), t)"] by (simp add: kept_def)
qed

subsection \<open>The events still to be read\<close>

text \<open>
  \<open>pending w\<close> is the number of bytes of events that reads will still deliver.  It is finite and no
  system call that the program makes adds to it.
\<close>

definition quiet :: "'w inotify_sys \<Rightarrow> ('w \<Rightarrow> nat) \<Rightarrow> bool" where
  "quiet sys pending \<longleftrightarrow> (\<forall>b. stable sys (\<lambda>c w. pending w \<le> b))"

text \<open>
  Reading returns whole events whose bytes are no longer pending, fails, or is interrupted.
\<close>

definition event_source ::
    "(fd \<Rightarrow> int \<Rightarrow> 'w \<Rightarrow> inotify_event list sysres \<times> 'w) \<Rightarrow> ('w \<Rightarrow> nat) \<Rightarrow> bool" where
  "event_source rd pending \<longleftrightarrow>
     (\<forall>fd n w. case rd fd n w of
         (Inl e, w') \<Rightarrow> pending w' \<le> pending w
       | (Inr evs, w') \<Rightarrow> int (pending w') + buf_size evs \<le> int (pending w))"

lemma event_sourceD:
  assumes "event_source rd pending"
  shows "rd fd n w = (Inl e, w') \<Longrightarrow> pending w' \<le> pending w"
    and "rd fd n w = (Inr evs, w') \<Longrightarrow> int (pending w') + buf_size evs \<le> int (pending w)"
  using assms [unfolded event_source_def, rule_format, of w fd n] by simp_all

lemma buf_size_nonneg [simp]: "0 \<le> buf_size evs"
  by (induction evs) (simp_all add: ev_size_def)

interpretation draining: dtree_invariant sys rd
    "\<lambda>c w. quiet sys pending \<and> event_source rd pending \<longrightarrow> pending w \<le> b" for sys rd pending b
proof unfold_locales
  show "stable sys (\<lambda>c w. quiet sys pending \<and> event_source rd pending \<longrightarrow> pending w \<le> b)"
  proof (cases "quiet sys pending \<and> event_source rd pending")
    case False
    then show ?thesis by (simp only: False) (simp add: stable_def)
  qed (simp add: quiet_def)
next
  fix c w fd n r w'
  assume *: "quiet sys pending \<and> event_source rd pending \<longrightarrow> pending w \<le> b" and rd: "rd fd n w = (r, w')"
  show "quiet sys pending \<and> event_source rd pending \<longrightarrow> pending w' \<le> b"
  proof
    assume q: "quiet sys pending \<and> event_source rd pending"
    have "pending w' \<le> pending w"
    proof (cases r)
      case (Inr evs)
      then have "int (pending w') + buf_size evs \<le> int (pending w)"
        using event_sourceD(2) [of rd pending fd n w evs w'] q rd by simp
      with buf_size_nonneg [of evs] show ?thesis by linarith
    qed (use event_sourceD(1) [of rd pending fd n w _ w'] q rd in simp)
    with * q show "pending w' \<le> b" by simp
  qed
qed

end
