(* ===== verification/Inotify_Props.thy ===== *)
theory Inotify_Props
  imports Inotify_Invariant
begin

text \<open>
  The functional behaviour of \<open>inotify_dtree.c\<close>: what the operations do to the cache of watches, that
  event processing always makes progress, and that it ends when the stream of events does.
\<close>

unbundle bit_operations_syntax

subsection \<open>Removing a subtree\<close>

definition hit :: "string \<Rightarrow> watch \<Rightarrow> bool" where
  "hit p e \<longleftrightarrow> wd e \<ge> 0 \<and> in_subtree p (path e)"

definition zapped :: "string \<Rightarrow> watch \<Rightarrow> watch" where
  "zapped p e = (if hit p e then unused else e)"

definition zap_result :: "'w inotify_sys \<Rightarrow> fd \<Rightarrow> string \<Rightarrow> cache \<Rightarrow> nat \<Rightarrow> nat \<Rightarrow> nat option \<times> 'w dtree \<Rightarrow> bool" where
  "zap_result sys fd p c i cnt res \<longleftrightarrow>
     (case res of
        (Some n, t) \<Rightarrow> wlCache t = take i c @ map (zapped p) (drop i c)
                        \<and> n = cnt + length (filter (hit p) (drop i c))
      | (None, t) \<Rightarrow> (\<exists>k \<ge> i. k < length c \<and> hit p (c ! k)
                        \<and> (\<exists>w e w'. sys_rm_watch sys fd (wd (c ! k)) w = (Inl e, w'))
                        \<and> wlCache t = take i c @ map (zapped p) (take (k - i) (drop i c)) @ drop k c))"

lemma clear_slot_cache [simp]: "wlCache (clear_slot i s) = (wlCache s)[i := unused]"
  by (simp add: clear_slot_def Let_def markCacheSlotEmpty_def)

lemma zap_result_step:
  assumes i: "i < length c" and c': "c' = c[i := zapped p (c ! i)]"
    and res: "zap_result sys fd p c' (Suc i) cnt' res" "cnt' = cnt + (if hit p (c ! i) then 1 else 0)"
  shows "zap_result sys fd p c i cnt res"
proof -
  obtain r t where rt: "res = (r, t)" by fastforce
  have tk: "take (Suc i) c' = take i c @ [zapped p (c ! i)]" "drop (Suc i) c' = drop (Suc i) c"
    "drop i c = c ! i # drop (Suc i) c" "length c' = length c"
    using i by (simp_all add: c' take_Suc_conv_app_nth Cons_nth_drop_Suc)
  show ?thesis
  proof (cases r)
    case None
    with res(1) rt obtain k where k: "Suc i \<le> k" "k < length c'" "hit p (c' ! k)"
      "\<exists>w e w'. sys_rm_watch sys fd (wd (c' ! k)) w = (Inl e, w')"
      "wlCache t = take (Suc i) c' @ map (zapped p) (take (k - Suc i) (drop (Suc i) c')) @ drop k c'"
      unfolding zap_result_def by fastforce
    have "take (k - i) (drop i c) = c ! i # take (k - Suc i) (drop (Suc i) c)"
      using k(1) by (simp add: tk(3) take_Cons')
    moreover have "c' ! k = c ! k" "drop k c' = drop k c" using k(1) by (simp_all add: c')
    ultimately show ?thesis
      using k tk rt None unfolding zap_result_def by (auto intro!: exI [of _ k])
  qed (use res rt tk in \<open>simp add: zap_result_def\<close>)
qed

lemma zap_slots_spec:
  "i \<le> length (wlCache s) \<Longrightarrow>
     zap_result sys fd p (wlCache s) i cnt (zap_slots sys fd p [i..<length (wlCache s)] cnt s)"
proof (induction "length (wlCache s) - i" arbitrary: i cnt s)
  case 0
  then show ?case by (simp add: zap_result_def)
next
  case (Suc d)
  let ?c = "wlCache s"
  have i: "i < length ?c" "[i..<length ?c] = i # [Suc i..<length ?c]"
    using Suc by (simp_all add: upt_conv_Cons)
  show ?case
  proof (cases "hit p (?c ! i)")
    case False
    then have skip: "zap_slots sys fd p [i..<length ?c] cnt s = zap_slots sys fd p [Suc i..<length ?c] cnt s"
      and same: "?c = ?c[i := zapped p (?c ! i)]"
      using i by (simp_all add: hit_def [symmetric] zapped_def Let_def)
    show ?thesis
      unfolding skip by (rule zap_result_step [OF i(1) same Suc(1)]) (use Suc(2) i False in simp_all)
  next
    case True
    let ?s = "logMessage VB_NOISY (''    removing watch: wd = '' @ show_int (wd (?c ! i)) @ '' ('' @ path (?c ! i) @ '')\<newline>'') s"
    obtain r w' where rm: "sys_rm_watch sys fd (wd (?c ! i)) (world s) = (r, w')" by fastforce
    show ?thesis
    proof (cases r)
      case (Inl e)
      then show ?thesis
        using True i rm by (auto simp: zap_result_def hit_def Let_def intro!: exI [of _ i])
    next
      case (Inr u)
      let ?t = "clear_slot i (?s\<lparr>world := w'\<rparr>)"
      have zap: "zap_slots sys fd p [i..<length ?c] cnt s = zap_slots sys fd p [Suc i..<length (wlCache ?t)] (Suc cnt) ?t"
        using True i rm Inr by (simp add: hit_def Let_def)
      have upd: "wlCache ?t = ?c[i := zapped p (?c ! i)]" using True by (simp add: zapped_def)
      show ?thesis
        unfolding zap by (rule zap_result_step [OF i(1) upd Suc(1)]) (use Suc(2) i True in simp_all)
    qed
  qed
qed

subsection \<open>Progress\<close>

definition step_result :: "inotify_event \<Rightarrow> int \<Rightarrow> bool \<Rightarrow> int \<Rightarrow> bool" where
  "step_result ev bufSize firstTry k \<longleftrightarrow>
     0 < k \<or> k = -1 \<and> firstTry \<and> bufSize \<le> ev_size ev
             \<and> ev_mask ev AND (IN_MOVED_FROM OR IN_ISDIR) = (IN_MOVED_FROM OR IN_ISDIR)"

lemma ev_size_pos [simp]: "0 < ev_size ev"
  by (simp add: ev_size_def sizeof_event_def)

lemma buf_len_pos [simp]: "0 < INOTIFY_READ_BUF_LEN"
  by (simp add: INOTIFY_READ_BUF_LEN_def)

lemma discard_all_result: "discard_all sys s = (Returns r, t) \<Longrightarrow> r = Inl INOTIFY_READ_BUF_LEN"
  by (auto simp: discard_all_def andthen_Returns_iff)

lemma after_event_result: "after_event sys r s = (Returns k, t) \<Longrightarrow> r = Inl k \<or> r = Inr k"
  by (auto simp: after_event_def andthen_Returns_iff split: sum.splits)

lemma zap_case_result:
  assumes "(case zapSubtree sys fd p s of (None, t) \<Rightarrow> discard_all sys t | (Some cnt, t) \<Rightarrow> (Returns (Inr n), t)) = (Returns r, u)"
    "0 < n"
  shows "\<exists>k > 0. r = Inl k \<or> r = Inr k"
  using assms by (auto split: prod.splits option.splits dest!: discard_all_result)

lemma on_rename_result:
  "on_rename sys ev i ev' s = (Returns r, t) \<Longrightarrow> \<exists>k > 0. r = Inl k \<or> r = Inr k"
  using ev_size_pos [of ev] ev_size_pos [of ev']
  by (auto simp: on_rename_def andthen_Returns_iff split: option.splits dest!: discard_all_result simp del: ev_size_pos)

lemma dispatch_result:
  assumes "dispatch sys ev rest n f slot s = (Returns r, t)"
  shows "\<exists>k. (r = Inl k \<or> r = Inr k) \<and> step_result ev n f k"
proof -
  have 1: "on_create sys ev i s = (Returns r, t) \<Longrightarrow> r = Inr (ev_size ev)" for i
    by (auto simp: on_create_def Let_def andthen_Returns_iff split: if_splits)
  have 2: "on_delete_self ev i s = (Returns r, t) \<Longrightarrow> r = Inr (ev_size ev)" for i
    by (auto simp: on_delete_self_def Let_def andthen_Returns_iff)
  have out: "on_moved_out sys ev n f i s = (Returns r, t) \<Longrightarrow> \<exists>k > 0. r = Inl k \<or> r = Inr k" for i
    unfolding on_moved_out_def Let_def by (erule zap_case_result) simp
  have 3: "\<exists>k. (r = Inl k \<or> r = Inr k) \<and> (0 < k \<or> k = -1 \<and> f \<and> n \<le> ev_size ev)"
    if "on_moved_from sys ev rest n f i s = (Returns r, t)" for i
    using that out on_rename_result [of sys ev i _ s r t]
    by (auto simp: on_moved_from_def split: if_splits list.splits)
  have 4: "on_q_overflow sys s = (Returns r, t) \<Longrightarrow> r = Inr INOTIFY_READ_BUF_LEN"
    by (auto simp: on_q_overflow_def Let_def andthen_Returns_iff)
  have 5: "on_unmount ev i s = (Returns r, t) \<Longrightarrow> r = Inr (ev_size ev)" for i
    by (auto simp: on_unmount_def Let_def)
  have 6: "on_move_self sys ev i s = (Returns r, t) \<Longrightarrow> \<exists>k > 0. r = Inl k \<or> r = Inr k" for i
    by (auto simp: on_move_self_def Let_def andthen_Returns_iff dest!: zap_case_result)
  show ?thesis
    using assms unfolding dispatch_def with_slot_def step_result_def
    by (auto split: if_splits option.splits dest!: 1 2 3 4 5 6)
qed

lemma processNext_result:
  assumes "processNextInotifyEvent sys (ev # rest) n f s = (Returns k, t)"
  shows "step_result ev n f k"
  using assms unfolding processNextInotifyEvent_def Let_def
  by (auto simp: andthen_Returns_iff step_result_def [of ev n f INOTIFY_READ_BUF_LEN] split: if_splits option.splits
      dest!: dispatch_result after_event_result discard_all_result)

lemma processNext_hanging:
  assumes "processNextInotifyEvent sys evs n f s = (Returns k, t)" "\<not> 0 < k"
  shows f
proof (cases evs)
  case Nil
  with assms show ?thesis by (simp add: processNextInotifyEvent_def)
next
  case (Cons ev rest)
  with assms processNext_result [of sys ev rest n f s k t] show ?thesis by (simp add: step_result_def)
qed

subsection \<open>The event loop ends\<close>

lemma processNext_pending:
  assumes "quiet sys pending" "event_source rd pending" "processNextInotifyEvent sys evs n f s = (x, t)"
  shows "pending (world t) \<le> pending (world s)"
  using draining.kept_processNext [of sys pending rd "pending (world s)" s evs n f] assms
  by (simp add: kept_def)

lemma secondary_read_pending:
  assumes "event_source rd pending" "secondary_read rd evs n s = (Returns (evs', n'), t)"
  shows "n' < n \<and> pending (world t) \<le> pending (world s) 
    \<or> n \<le> n' \<and> n' + int (pending (world t)) \<le> n + int (pending (world s))"
  using assms event_sourceD [OF assms(1), of "inotifyFd s" "INOTIFY_READ_BUF_LEN - n" "world s"]
  by (auto simp: secondary_read_def Let_def log_secondary_def split: prod.splits sum.splits if_splits)

lemma process_block_returns:
  assumes "quiet sys pending" "event_source rd pending"
  shows "\<exists>r. process_block sys rd evs n f s = Some r"
proof (induction "(nat n + pending (world s), f)" arbitrary: evs n f s
    rule: wf_induct [OF wf_lex_prod [OF wf_less wf_measure [of "\<lambda>b. if b then 1 else 0"]]])
  case 1
  obtain x t where nxt: "processNextInotifyEvent sys evs n f s = (x, t)" by fastforce
  have pt: "pending (world t) \<le> pending (world s)" by (rule processNext_pending [OF assms nxt])
  show ?case
  proof (cases "0 < n \<and> (\<exists>k. x = Returns k)")
    case False
    then show ?thesis using nxt by (cases x) (auto simp: process_block.simps [of sys rd evs n f s])
  next
    case True
    then obtain k where x: "x = Returns k" and n: "0 < n" by blast
    show ?thesis
    proof (cases "0 < k")
      case True
      then have "\<exists>r. process_block sys rd (skip_bytes k evs) (n - k) True t = Some r"
        using pt n by (intro 1 [rule_format]) auto
      then show ?thesis using x n nxt True by (simp add: process_block.simps [of sys rd evs n f s])
    next
      case False
      with nxt x have f: f using processNext_hanging by blast
      obtain y u where sr: "secondary_read rd evs n t = (y, u)" by fastforce
      have "\<exists>r. process_block sys rd evs' n' False u = Some r" if "y = Returns (evs', n')" for evs' n'
        using secondary_read_pending [OF assms(2), of evs n t evs' n' u] sr that pt n f
        by (intro 1 [rule_format]) auto
      then show ?thesis
        using x n nxt False sr by (cases y) (auto simp: process_block.simps [of sys rd evs n f s])
    qed
  qed
qed

subsection \<open>Root directories\<close>

lemma copyRootDirPaths_copy_spec:
  "copyRootDirPaths_copy sys w args done = Inr roots \<Longrightarrow>
     distinct (map (\<lambda>k. (st_ino (fst k), st_dev (fst k))) done) \<Longrightarrow>
     \<exists>sbs. roots = done @ zip sbs args \<and> length sbs = length args
        \<and> map (\<lambda>p. sys_lstat sys p w) args = map Inr sbs
        \<and> distinct (map (\<lambda>k. (st_ino (fst k), st_dev (fst k))) roots)"
proof (induction sys w args "done" rule: copyRootDirPaths_copy.induct)
  case (2 sys w p ps "done")
  then obtain sb where sb: "sys_lstat sys p w = Inr sb" by (auto split: sum.splits)
  with "2.prems" have new: "filter (\<lambda>k. st_ino sb = st_ino (fst k) \<and> st_dev sb = st_dev (fst k)) done = []"
    by (auto split: list.splits)
  then have "distinct (map (\<lambda>k. (st_ino (fst k), st_dev (fst k))) (done @ [(sb, p)]))"
    using "2.prems" by (auto simp: filter_empty_conv)
  with "2.IH" [OF sb new] "2.prems" sb new obtain sbs where
    "roots = (done @ [(sb, p)]) @ zip sbs ps" "length sbs = length ps"
    "map (\<lambda>p. sys_lstat sys p w) ps = map Inr sbs"
    "distinct (map (\<lambda>k. (st_ino (fst k), st_dev (fst k))) roots)"
    by auto
  with sb show ?case by (intro exI [of _ "sb # sbs"]) simp
qed simp

lemma copyRootDirPaths_check_spec:
  "copyRootDirPaths_check sys w args = None \<Longrightarrow> \<forall>p \<in> set args. \<exists>sb. sys_lstat sys p w = Inr sb \<and> st_isdir sb"
  by (induction args) (auto split: sum.splits if_splits)

subsection \<open>A small system\<close>

text \<open>
  A system with one directory per pathname, whose watch descriptors are handed out in order and whose
  reads deliver a list of prepared blocks of events.
\<close>

definition demo_sys :: "(nat \<times> inotify_event list list) inotify_sys" where
  "demo_sys =
     \<lparr>sys_inotify_init = (\<lambda>w. (Inr 5, w)),
      sys_add_watch = (\<lambda>fd p m (k, q). (Inr (int k), (Suc k, q))),
      sys_rm_watch = (\<lambda>fd v w. (Inr (), w)),
      sys_close = (\<lambda>fd w. w),
      sys_nftw = (\<lambda>p w. (([(p, True)], None), w)),
      sys_lstat = (\<lambda>p w. Inr \<lparr>st_isdir = True, st_ino = int (length p), st_dev = 1\<rparr>),
      sys_write_file = (\<lambda>f t w. Some w),
      sys_create = (\<lambda>f w. w),
      sys_show_ptrs = (\<lambda>i ev. []),
      sys_strerror = (\<lambda>e. []),
      sys_progname = ''dtree''\<rparr>"

definition demo_rd :: "fd \<Rightarrow> int \<Rightarrow> nat \<times> inotify_event list list \<Rightarrow> inotify_event list sysres \<times> (nat \<times> inotify_event list list)" where
  "demo_rd fd n w = (case snd w of [] \<Rightarrow> (Inl EBADF, w) | evs # q \<Rightarrow> (Inr evs, (fst w, q)))"

definition demo_pending :: "nat \<times> inotify_event list list \<Rightarrow> nat" where
  "demo_pending w = nat (buf_size (concat (snd w)))"

lemma buf_size_append [simp]: "buf_size (a @ b) = buf_size a + buf_size b"
  by (induction a) simp_all

lemma demo_sys_wd_law: "wd_law demo_sys"
  by (auto simp: wd_law_def demo_sys_def)

lemma demo_sys_quiet: "quiet demo_sys demo_pending"
  by (auto simp: quiet_def stable_def demo_sys_def demo_pending_def)

lemma demo_rd_source: "event_source demo_rd demo_pending"
  by (auto simp: event_source_def demo_rd_def demo_pending_def split: list.splits)

lemma cache_inv_distinct:
  assumes "cache_inv c"
  shows "distinct (map wd (filter (\<lambda>e. 0 \<le> wd e) c))"
proof -
  have "distinct (map (\<lambda>i. wd (c ! i)) (filter (\<lambda>i. 0 \<le> wd (c ! i)) [0..<length c]))"
    using assms unfolding cache_inv_def by (auto simp: distinct_map inj_on_def)
  moreover have "map (\<lambda>i. wd (c ! i)) (filter (\<lambda>i. 0 \<le> wd (c ! i)) [0..<length c])
      = map wd (filter (\<lambda>e. 0 \<le> wd e) (map ((!) c) [0..<length c]))"
    by (simp add: filter_map comp_def)
  ultimately show ?thesis by (simp add: map_nth)
qed

text \<open>
  C17: in every state that the program reaches, no watch descriptor occupies two slots of the cache,
  and every slot that is not in use is clean (descriptor \<open>-1\<close>, empty pathname).
\<close>

theorem reachable_watches_distinct:
  assumes "reachable sys rd s" "wd_law sys"
  shows "distinct (map wd (filter (\<lambda>e. 0 \<le> wd e) (wlCache s)))
         \<and> (\<forall>e \<in> set (wlCache s). wd e < 0 \<longrightarrow> e = unused)"
  using reachable_cache_inv [OF assms] cache_inv_distinct by (auto simp: cache_inv_def)

lemma demo_start:
  "main_start demo_sys [] [''/tmp/a'', ''/home''] (7, []) =
     (Returns (), snd (main_start demo_sys [] [''/tmp/a'', ''/home''] (7, [])))
   \<and> map wd (filter (\<lambda>e. 0 \<le> wd e) (wlCache (snd (main_start demo_sys [] [''/tmp/a'', ''/home''] (7, []))))) = [7, 8]"
  by code_simp

theorem reachable_watches_distinct_witness:
  "let s = snd (main_start demo_sys [] [''/tmp/a'', ''/home''] (7, []))
   in distinct (map wd (filter (\<lambda>e. 0 \<le> wd e) (wlCache s)))
      \<and> map wd (filter (\<lambda>e. 0 \<le> wd e) (wlCache s)) = [7, 8]"
  using reachable_watches_distinct [OF reachable.start [OF conjunct1 [OF demo_start]] demo_sys_wd_law] demo_start
  by (simp add: Let_def)


text \<open>
  A call of \<open>processNextInotifyEvent\<close> that returns has consumed a positive number of bytes, unless
  it returns \<open>-1\<close>; and it does so only on the first try, for a directory moved away whose event is
  the last one in the buffer.
\<close>

theorem processNextInotifyEvent_progress:
  assumes "processNextInotifyEvent sys (ev # rest) bufSize firstTry s = (Returns k, t)"
  shows "0 < k \<or> k = -1 \<and> firstTry \<and> bufSize \<le> ev_size ev
           \<and> ev_mask ev AND (IN_MOVED_FROM OR IN_ISDIR) = (IN_MOVED_FROM OR IN_ISDIR)"
  using processNext_result [OF assms] by (simp add: step_result_def)

definition demo_state :: "(nat \<times> inotify_event list list) dtree" where
  "demo_state = (initial_state (0, []))\<lparr>wlCache := [\<lparr>wd = 1, path = ''/a''\<rparr>, \<lparr>wd = 2, path = ''/a/b''\<rparr>, \<lparr>wd = 3, path = ''/ab''\<rparr>]\<rparr>"

definition moved_from :: inotify_event where
  "moved_from = \<lparr>ev_wd = 1, ev_mask = 0x40000040, ev_cookie = 9, ev_len = 16, ev_name = ''b''\<rparr>"

definition moved_to :: inotify_event where
  "moved_to = \<lparr>ev_wd = 3, ev_mask = 0x40000080, ev_cookie = 9, ev_len = 16, ev_name = ''c''\<rparr>"

theorem processNextInotifyEvent_progress_witness:
  "\<exists>t. processNextInotifyEvent demo_sys [moved_from] 32 True demo_state = (Returns (-1), t)
       \<and> 32 \<le> ev_size moved_from"
proof -
  have "fst (processNextInotifyEvent demo_sys [moved_from] 32 True demo_state) = Returns (-1)" by code_simp
  then obtain t where t: "processNextInotifyEvent demo_sys [moved_from] 32 True demo_state = (Returns (-1), t)"
    by (metis prod.collapse)
  from processNextInotifyEvent_progress [OF this] t show ?thesis by auto
qed

text \<open>
  C28: \<open>processInotifyEvents\<close> returns when the stream of events is finite, however the events are split
  over the reads and however often the second read is interrupted.
\<close>

theorem processInotifyEvents_returns:
  assumes "quiet sys pending" "event_source rd pending"
  shows "\<exists>r. processInotifyEvents sys rd s = Some r"
  using process_block_returns [OF assms]
  by (auto simp: processInotifyEvents_def Let_def split: prod.splits sum.splits)

theorem processInotifyEvents_returns_witness:
  "\<exists>r. processInotifyEvents demo_sys demo_rd (demo_state\<lparr>world := (0, [[moved_from], [moved_to]])\<rparr>) = Some r"
  by (rule processInotifyEvents_returns [OF demo_sys_quiet demo_rd_source])

lemma rewrite_log_flags [simp]:
  "checkCache (rewrite_log f n c j s) = checkCache s" "dumpCache (rewrite_log f n c j s) = dumpCache s"
  by (induction f n c j s rule: rewrite_log.induct) (simp_all add: Let_def)



text \<open>
  When \<open>copyRootDirPaths\<close> returns, each argument names a directory, the arguments are recorded in
  order, and no two of them are the same file system object.
\<close>

theorem copyRootDirPaths_distinct:
  assumes "copyRootDirPaths sys args s = (Returns (), t)"
  shows "rootDirPaths t = map Some args \<and> ignoreRootDirs t = 0
     \<and> (\<exists>sbs. map (\<lambda>p. sys_lstat sys p (world s)) args = map Inr sbs
            \<and> (\<forall>sb \<in> set sbs. st_isdir sb) \<and> distinct (map (\<lambda>sb. (st_ino sb, st_dev sb)) sbs))"
proof -
  from assms obtain roots where
    "copyRootDirPaths_check sys (world s) args = None" "copyRootDirPaths_copy sys (world s) args [] = Inr roots"
    and t: "rootDirPaths t = map (\<lambda>r. Some (snd r)) roots" "ignoreRootDirs t = 0"
    by (auto simp: copyRootDirPaths_def split: option.splits sum.splits)
  with copyRootDirPaths_copy_spec [of sys "world s" args "[]" roots] copyRootDirPaths_check_spec [of sys "world s" args]
  obtain sbs where sbs: "roots = zip sbs args" "length sbs = length args"
    "map (\<lambda>p. sys_lstat sys p (world s)) args = map Inr sbs"
    "distinct (map (\<lambda>k. (st_ino (fst k), st_dev (fst k))) roots)"
    and dirs: "\<forall>p \<in> set args. \<exists>sb. sys_lstat sys p (world s) = Inr sb \<and> st_isdir sb"
    by auto
  have "map (\<lambda>k. (st_ino (fst k), st_dev (fst k))) roots = map (\<lambda>sb. (st_ino sb, st_dev sb)) (map fst roots)" by simp
  with sbs have "distinct (map (\<lambda>sb. (st_ino sb, st_dev sb)) sbs)" by simp
  moreover have "st_isdir sb" if "sb \<in> set sbs" for sb
  proof -
    from that have "Inr sb \<in> set (map (\<lambda>p. sys_lstat sys p (world s)) args)" unfolding sbs(3) by simp
    with dirs show ?thesis by auto
  qed
  moreover have "map (\<lambda>r. Some (snd r)) roots = map Some (map snd roots)" by simp
  ultimately show ?thesis using t sbs by auto
qed

theorem copyRootDirPaths_distinct_witness:
  "\<exists>t. copyRootDirPaths demo_sys [''/a'', ''/bc''] demo_state = (Returns (), t)
       \<and> rootDirPaths t = [Some ''/a'', Some ''/bc'']"
proof -
  have "fst (copyRootDirPaths demo_sys [''/a'', ''/bc''] demo_state) = Returns ()" by code_simp
  then obtain t where "copyRootDirPaths demo_sys [''/a'', ''/bc''] demo_state = (Returns (), t)"
    by (metis prod.collapse)
  with copyRootDirPaths_distinct [OF this] show ?thesis by auto
qed

end
