(* ===== verification/Xmalloc.thy ===== *)
theory Xmalloc
  imports Prelude
begin

text \<open>
  The memory allocator of \<open>tlpi-solutions/ex07-2/xmalloc.c\<close>.  Addresses and sizes are 64-bit
  words; the null pointer is 0.  The heap is the
  map from the addresses of block headers to their contents, with the program break as the first
  address that is not mapped; access to a header outside it is \<^const>\<open>Undefined\<close>.  \<open>sbrk\<close> moves the
  break as documented and fails beyond a limit, \<open>brk\<close> unmaps everything above the new break.  A loop
  over a list that is circular does not return, which is the value \<^const>\<open>None\<close>.
\<close>

subsection \<open>Memory\<close>

type_synonym size_t = "64 word"   \<comment> \<open>sizes and addresses\<close>

record freelist_node =
  n_prev :: size_t
  n_next :: size_t
  n_length :: size_t

record heap =
  mem :: "size_t \<Rightarrow> freelist_node option"
  FreeList :: size_t
  brk_start :: size_t
  brk_end :: size_t
  brk_limit :: size_t
  h_errno :: errno

type_synonym 'a hm = "heap \<Rightarrow> ('a outcome \<times> heap) option"

definition MIN_HEAP_ALLOC_SIZE :: size_t where "MIN_HEAP_ALLOC_SIZE = 4096"
definition MIN_HEAP_FREE_SIZE :: size_t where "MIN_HEAP_FREE_SIZE = 8192"
definition sizeof_node :: size_t where "sizeof_node = 24"

definition user_addr :: "size_t \<Rightarrow> size_t" where "user_addr block = block + sizeof_node"
definition malloc_addr :: "size_t \<Rightarrow> size_t" where "malloc_addr p = p - sizeof_node"

definition ret :: "'a \<Rightarrow> 'a hm" where "ret x h = Some (Returns x, h)"

definition hbind :: "'a hm \<Rightarrow> ('a \<Rightarrow> 'b hm) \<Rightarrow> 'b hm" where
  "hbind m k h =
     (case m h of
        None \<Rightarrow> None
      | Some (Returns x, h') \<Rightarrow> k x h'
      | Some (Exits c, h') \<Rightarrow> Some (Exits c, h')
      | Some (Aborts, h') \<Rightarrow> Some (Aborts, h')
      | Some (Undefined, h') \<Rightarrow> Some (Undefined, h'))"

definition load :: "size_t \<Rightarrow> freelist_node hm" where
  "load a h = (case mem h a of None \<Rightarrow> Some (Undefined, h) | Some n \<Rightarrow> Some (Returns n, h))"

definition store :: "size_t \<Rightarrow> freelist_node \<Rightarrow> unit hm" where
  "store a n h = (if a = 0 then Some (Undefined, h) else Some (Returns (), h\<lparr>mem := (mem h)(a \<mapsto> n)\<rparr>))"

definition modify :: "size_t \<Rightarrow> (freelist_node \<Rightarrow> freelist_node) \<Rightarrow> unit hm" where
  "modify a f = hbind (load a) (\<lambda>n. store a (f n))"

definition set_FreeList :: "size_t \<Rightarrow> unit hm" where
  "set_FreeList a h = Some (Returns (), h\<lparr>FreeList := a\<rparr>)"

definition get_FreeList :: "size_t hm" where
  "get_FreeList h = Some (Returns (FreeList h), h)"

definition cassert :: "bool \<Rightarrow> unit hm" where
  "cassert b h = Some (if b then Returns () else Aborts, h)"

subsection \<open>Blocks\<close>

definition block_init :: "size_t \<Rightarrow> unit hm" where
  "block_init block = store block \<lparr>n_prev = 0, n_next = 0, n_length = 0\<rparr>"

text \<open>Returns the left and the right block.\<close>

definition block_split :: "size_t \<Rightarrow> size_t \<Rightarrow> (size_t \<times> size_t) hm" where
  "block_split block sz =
     hbind (load block) (\<lambda>n.
     hbind (cassert (n_length n \<ge> sz + sizeof_node)) (\<lambda>_.
     let right = block + sizeof_node + sz
     in hbind (store right \<lparr>n_prev = block, n_next = n_next n,
                 n_length = n_length n - sz - sizeof_node\<rparr>) (\<lambda>_.
        hbind (modify block (\<lambda>m. m\<lparr>n_length := sz, n_next := right\<rparr>)) (\<lambda>_.
        ret (block, right)))))"

definition block_merge :: "size_t \<Rightarrow> size_t \<Rightarrow> size_t hm" where
  "block_merge left right =
     hbind (load right) (\<lambda>r.
     hbind (modify left (\<lambda>l. l\<lparr>n_length := n_length l + (n_length r + sizeof_node),
                             n_next := n_next r\<rparr>)) (\<lambda>_.
     hbind (if n_next r \<noteq> 0 then modify (n_next r) (\<lambda>n. n\<lparr>n_prev := left\<rparr>) else ret ()) (\<lambda>_.
     hbind (block_init right) (\<lambda>_. ret left))))"

subsection \<open>The free list\<close>

definition freelist_remove :: "size_t \<Rightarrow> unit hm" where
  "freelist_remove block =
     hbind (load block) (\<lambda>b.
     if n_prev b \<noteq> 0 \<and> n_next b \<noteq> 0 then
       hbind (modify (n_prev b) (\<lambda>n. n\<lparr>n_next := n_next b\<rparr>)) (\<lambda>_.
       modify (n_next b) (\<lambda>n. n\<lparr>n_prev := n_prev b\<rparr>))
     else if n_prev b \<noteq> 0 then modify (n_prev b) (\<lambda>n. n\<lparr>n_next := 0\<rparr>)
     else if n_next b \<noteq> 0 then
       hbind (set_FreeList (n_next b)) (\<lambda>_. modify (n_next b) (\<lambda>n. n\<lparr>n_prev := 0\<rparr>))
     else set_FreeList 0)"

definition insert_before :: "size_t \<Rightarrow> size_t \<Rightarrow> size_t \<Rightarrow> unit hm" where
  "insert_before block last_fn fn =
     hbind (modify block (\<lambda>b. b\<lparr>n_next := fn\<rparr>)) (\<lambda>_.
     hbind (load fn) (\<lambda>f.
     hbind (modify block (\<lambda>b. b\<lparr>n_prev := n_prev f\<rparr>)) (\<lambda>_.
     hbind (modify fn (\<lambda>f. f\<lparr>n_prev := block\<rparr>)) (\<lambda>_.
     if last_fn \<noteq> 0 then modify last_fn (\<lambda>l. l\<lparr>n_next := block\<rparr>) else set_FreeList block))))"

definition append_block :: "size_t \<Rightarrow> size_t \<Rightarrow> unit hm" where
  "append_block block last_fn =
     hbind (modify last_fn (\<lambda>l. l\<lparr>n_next := block\<rparr>)) (\<lambda>_.
     modify block (\<lambda>b. b\<lparr>n_prev := last_fn, n_next := 0\<rparr>))"

partial_function (option) insert_loop :: "size_t \<Rightarrow> size_t \<Rightarrow> size_t \<Rightarrow> unit hm" where
  "insert_loop block last_fn fn h =
     (if fn \<noteq> 0 then
        if block = fn then Some (Returns (), h)
        else if block < fn then insert_before block last_fn fn h
        else
          (case mem h fn of
             None \<Rightarrow> Some (Undefined, h)
           | Some n \<Rightarrow> insert_loop block fn (n_next n) h)
      else append_block block last_fn h)"

definition freelist_insert :: "size_t \<Rightarrow> unit hm" where
  "freelist_insert block h =
     (if FreeList h = 0 then set_FreeList block h else insert_loop block 0 (FreeList h) h)"

definition take_split :: "size_t \<Rightarrow> size_t \<Rightarrow> size_t hm" where
  "take_split free_block sz =
     hbind (block_split free_block sz) (\<lambda>(left, right).
     hbind (freelist_remove left) (\<lambda>_.
     hbind (block_init left) (\<lambda>_.
     hbind (modify left (\<lambda>n. n\<lparr>n_length := sz\<rparr>)) (\<lambda>_. ret left))))"

definition take_whole :: "size_t \<Rightarrow> size_t \<Rightarrow> size_t hm" where
  "take_whole free_block free_block_len =
     hbind (freelist_remove free_block) (\<lambda>_.
     hbind (block_init free_block) (\<lambda>_.
     hbind (modify free_block (\<lambda>n. n\<lparr>n_length := free_block_len\<rparr>)) (\<lambda>_. ret free_block)))"

partial_function (option) freelist_get_free_block :: "size_t \<Rightarrow> size_t \<Rightarrow> size_t hm" where
  "freelist_get_free_block free_block sz h =
     (if free_block \<noteq> 0 then
        (case mem h free_block of
           None \<Rightarrow> Some (Undefined, h)
         | Some n \<Rightarrow>
             if n_length n \<ge> sz + sizeof_node then take_split free_block sz h
             else if n_length n \<ge> sz then take_whole free_block (n_length n) h
             else freelist_get_free_block (n_next n) sz h)
      else Some (Returns 0, h))"

subsection \<open>Inspection\<close>

partial_function (option) size_loop :: "size_t \<Rightarrow> size_t \<Rightarrow> size_t hm" where
  "size_loop fp n h =
     (if fp \<noteq> 0 then
        (case mem h fp of None \<Rightarrow> Some (Undefined, h) | Some b \<Rightarrow> size_loop (n_next b) (n + 1) h)
      else Some (Returns n, h))"

definition freelist_size :: "size_t hm" where
  "freelist_size h = size_loop (FreeList h) 0 h"

partial_function (option) item_loop :: "size_t \<Rightarrow> size_t \<Rightarrow> size_t \<Rightarrow> size_t hm" where
  "item_loop fp i index h =
     (if fp \<noteq> 0 then
        if i = index then Some (Returns fp, h)
        else (case mem h fp of None \<Rightarrow> Some (Undefined, h) | Some b \<Rightarrow> item_loop (n_next b) (i + 1) index h)
      else Some (Returns 0, h))"

definition freelist_item :: "size_t \<Rightarrow> size_t hm" where
  "freelist_item index h = item_loop (FreeList h) 0 index h"

partial_function (option) sane_loop :: "size_t \<Rightarrow> size_t \<Rightarrow> bool hm" where
  "sane_loop last_fp fp h =
     (if fp \<noteq> 0 then
        (case mem h fp of
           None \<Rightarrow> Some (Undefined, h)
         | Some b \<Rightarrow> if n_prev b \<noteq> last_fp then Some (Returns False, h) else sane_loop fp (n_next b) h)
      else Some (Returns True, h))"

definition is_freelist_sane :: "bool hm" where
  "is_freelist_sane h = sane_loop 0 (FreeList h) h"

subsection \<open>Allocation\<close>

text \<open>
  The break moves between the start of the heap and a limit; what lies above it is not mapped.
  \<open>sbrk\<close> takes a signed increment, so the \<open>size_t\<close> it is given is converted; it returns the old break,
  or \<open>(void *) -1\<close> (here \<^const>\<open>None\<close>).
\<close>

definition set_brk :: "size_t \<Rightarrow> heap \<Rightarrow> heap" where
  "set_brk a h = h\<lparr>brk_end := a, mem := (\<lambda>x. if x < a then mem h x else None)\<rparr>"

definition sbrk :: "size_t \<Rightarrow> size_t option hm" where
  "sbrk n h =
     (let e = uint (brk_end h) + sint n
      in if uint (brk_start h) \<le> e \<and> e \<le> uint (brk_limit h)
         then Some (Returns (Some (brk_end h)), set_brk (brk_end h + n) h)
         else Some (Returns None, h))"

definition brk :: "size_t \<Rightarrow> unit hm" where
  "brk a h = Some (Returns (), if brk_start h \<le> a \<and> a \<le> brk_limit h then set_brk a h else h)"

definition alloc_size :: "size_t \<Rightarrow> size_t" where
  "alloc_size sz = max (sz + sizeof_node) MIN_HEAP_ALLOC_SIZE"

definition xmalloc :: "size_t \<Rightarrow> size_t hm" where
  "xmalloc sz =
     hbind get_FreeList (\<lambda>fl.
     hbind (freelist_get_free_block fl sz) (\<lambda>new_block.
     if new_block \<noteq> 0 then ret (user_addr new_block)
     else
       hbind (sbrk (alloc_size sz)) (\<lambda>r.
       case r of
         None \<Rightarrow> (\<lambda>h. Some (Returns 0, h\<lparr>h_errno := ENOMEM\<rparr>))
       | Some new_block \<Rightarrow>
           hbind (block_init new_block) (\<lambda>_.
           hbind (\<lambda>h. modify new_block
                        (\<lambda>n. n\<lparr>n_length := brk_end h - new_block - sizeof_node\<rparr>) h) (\<lambda>_.
           hbind (freelist_insert new_block) (\<lambda>_.
           hbind (freelist_get_free_block new_block sz) (\<lambda>new_block.
           hbind (cassert (new_block \<noteq> 0)) (\<lambda>_. ret (user_addr new_block)))))))))"

partial_function (option) last_loop :: "size_t \<Rightarrow> size_t \<Rightarrow> size_t hm" where
  "last_loop last_fp fp h =
     (if fp \<noteq> 0 then
        (case mem h fp of None \<Rightarrow> Some (Undefined, h) | Some b \<Rightarrow> last_loop fp (n_next b) h)
      else Some (Returns last_fp, h))"

definition shrink_heap :: "unit hm" where
  "shrink_heap =
     hbind (\<lambda>h. last_loop 0 (FreeList h) h) (\<lambda>last_fp.
     if last_fp \<noteq> 0 then
       hbind (load last_fp) (\<lambda>l.
       if n_length l \<ge> MIN_HEAP_FREE_SIZE
       then hbind (freelist_remove last_fp) (\<lambda>_. brk last_fp) else ret ())
     else ret ())"

definition ends_at :: "size_t \<Rightarrow> size_t \<Rightarrow> bool hm" where
  "ends_at block addr =
     hbind (load block) (\<lambda>n. ret (block + n_length n + sizeof_node = addr))"

definition merge_prev :: "size_t \<Rightarrow> size_t \<Rightarrow> size_t hm" where
  "merge_prev prev free_block =
     hbind (if prev \<noteq> 0 then ends_at prev free_block else ret False) (\<lambda>m.
     if m then block_merge prev free_block else ret free_block)"

definition merge_next :: "size_t \<Rightarrow> size_t \<Rightarrow> unit hm" where
  "merge_next free_block nxt =
     hbind (if nxt \<noteq> 0 then ends_at free_block nxt else ret False) (\<lambda>m.
     if m then hbind (block_merge free_block nxt) (\<lambda>_. ret ()) else ret ())"

definition xfree :: "size_t \<Rightarrow> unit hm" where
  "xfree ptr =
     (if ptr = 0 then ret ()
      else
        let free_block = malloc_addr ptr
        in hbind (freelist_insert free_block) (\<lambda>_.
           hbind (load free_block) (\<lambda>fb.
           let prev = n_prev fb; nxt = n_next fb
           in hbind (merge_prev prev free_block) (\<lambda>free_block.
              hbind (merge_next free_block nxt) (\<lambda>_.
              shrink_heap)))))"

declare insert_loop.simps [code] freelist_get_free_block.simps [code] size_loop.simps [code]
  item_loop.simps [code] sane_loop.simps [code] last_loop.simps [code]

subsection \<open>Well-formed lists\<close>

text \<open>
  \<open>seg m p a xs b\<close>: the blocks \<open>xs\<close> are linked in both directions, from \<open>a\<close> to \<open>b\<close> exclusively, and the
  first one points back to \<open>p\<close>.
\<close>

fun seg :: "(size_t \<Rightarrow> freelist_node option) \<Rightarrow> size_t \<Rightarrow> size_t \<Rightarrow> size_t list \<Rightarrow> size_t \<Rightarrow> bool" where
  "seg m p a [] b \<longleftrightarrow> a = b"
| "seg m p a (x # xs) b \<longleftrightarrow>
     a = x \<and> x \<noteq> 0 \<and> (case m x of None \<Rightarrow> False | Some n \<Rightarrow> n_prev n = p \<and> seg m x (n_next n) xs b)"

definition flist :: "heap \<Rightarrow> size_t list \<Rightarrow> bool" where
  "flist h xs \<longleftrightarrow> seg (mem h) 0 (FreeList h) xs 0 \<and> sorted_wrt (<) xs"

definition last_of :: "size_t \<Rightarrow> size_t list \<Rightarrow> size_t" where
  "last_of p xs = (if xs = [] then p else last xs)"

lemma last_of_simps [simp]: "last_of p [] = p" "last_of p (xs @ [x]) = x" "last_of p (x # xs) = last_of x xs"
  by (simp_all add: last_of_def)

lemma seg_append: "seg m p a (xs @ ys) b \<longleftrightarrow> (\<exists>c. seg m p a xs c \<and> seg m (last_of p xs) c ys b)"
  by (induction xs arbitrary: p a) (auto split: option.splits)

lemma seg_nonzero: "seg m p a xs b \<Longrightarrow> x \<in> set xs \<Longrightarrow> x \<noteq> 0 \<and> (\<exists>n. m x = Some n)"
  by (induction xs arbitrary: p a) (auto split: option.splits)

lemma seg_frame: "seg m p a xs b \<Longrightarrow> (\<And>x. x \<in> set xs \<Longrightarrow> m' x = m x) \<Longrightarrow> seg m' p a xs b"
  by (induction xs arbitrary: p a) (auto split: option.splits)

lemma seg_upd_other [simp]: "x \<notin> set xs \<Longrightarrow> seg (m(x := v)) p a xs b = seg m p a xs b"
  by (auto intro: seg_frame)

lemma seg_length_upd:
  "m x = Some n \<Longrightarrow> seg (m(x \<mapsto> n\<lparr>n_length := l\<rparr>)) p a xs b = seg m p a xs b"
  by (induction xs arbitrary: p a) (auto split: option.splits)

text \<open>The successor of the last block is changed.\<close>

lemma seg_relink:
  assumes "seg m p a (xs @ [x]) b" "m x = Some n" "x \<notin> set xs"
  shows "seg (m(x \<mapsto> n\<lparr>n_next := c\<rparr>)) p a (xs @ [x]) c"
  using assms by (auto simp: seg_append)

text \<open>The predecessor of the first block is changed.\<close>

lemma seg_repred:
  assumes "seg m p a (x # xs) b" "m x = Some n" "x \<notin> set xs"
  shows "seg (m(x \<mapsto> n\<lparr>n_prev := q\<rparr>)) q a (x # xs) b"
  using assms by auto

lemma seg_split_at:
  assumes "seg m p a (ys @ y # zs) b" "distinct (ys @ y # zs)"
  obtains n where "m y = Some n" "n_prev n = last_of p ys" "seg m p a ys y" "seg m y (n_next n) zs b" "y \<noteq> 0"
    "y \<notin> set ys" "y \<notin> set zs"
  using assms by (auto simp: seg_append split: option.splits)

lemma flist_seg: "flist h xs \<Longrightarrow> seg (mem h) 0 (FreeList h) xs 0"
  by (simp add: flist_def)

lemma flist_distinct: "flist h xs \<Longrightarrow> distinct xs"
  unfolding flist_def using strict_sorted_iff by blast

lemma seg_empty_iff: "seg m p a xs 0 \<Longrightarrow> a = 0 \<longleftrightarrow> xs = []"
  by (cases xs) auto

lemma seg_next:
  assumes "seg m p a xs 0"
  shows "a = (case xs of [] \<Rightarrow> 0 | x # _ \<Rightarrow> x)"
  using assms by (cases xs) auto

text \<open>Two heaps that differ in the links of blocks only.\<close>

definition links_only :: "heap \<Rightarrow> heap \<Rightarrow> bool" where
  "links_only h h' \<longleftrightarrow>
     (\<forall>x. map_option n_length (mem h' x) = map_option n_length (mem h x))
     \<and> brk_end h' = brk_end h \<and> brk_start h' = brk_start h \<and> brk_limit h' = brk_limit h"

lemmas hm_defs = hbind_def load_def store_def modify_def ret_def set_FreeList_def get_FreeList_def cassert_def

subsection \<open>Insertion\<close>

lemma insert_before_correct:
  assumes seg: "seg (mem h) 0 (FreeList h) (ys @ f # zs) 0" and d: "distinct (ys @ f # zs)"
    and b: "b \<notin> set (ys @ f # zs)" "b \<noteq> 0" "mem h b = Some n"
  shows "\<exists>h'. insert_before b (last_of 0 ys) f h = Some (Returns (), h')
     \<and> seg (mem h') 0 (FreeList h') (ys @ b # f # zs) 0 \<and> links_only h h'"
proof -
  obtain fn where f: "mem h f = Some fn" "n_prev fn = last_of 0 ys" "seg (mem h) 0 (FreeList h) ys f"
    "seg (mem h) f (n_next fn) zs 0" "f \<noteq> 0" "f \<notin> set ys" "f \<notin> set zs"
    using seg_split_at [OF seg d] by blast
  show ?thesis
  proof (cases ys rule: rev_cases)
    case Nil
    with f b show ?thesis by (auto simp: insert_before_def hm_defs links_only_def)
  next
    case (snoc us u)
    with f seg_nonzero [OF f(3), of u] obtain un where u: "mem h u = Some un" "u \<noteq> 0" by auto
    have ne: "u \<noteq> b" "u \<noteq> f" "u \<notin> set us" "b \<notin> set us" using b f snoc d by auto
    have "seg ((mem h)(u \<mapsto> un\<lparr>n_next := b\<rparr>)) 0 (FreeList h) (us @ [u]) b"
      using seg_relink [of "mem h" 0 "FreeList h" us u f un b] f snoc u ne by simp
    then show ?thesis
      using f b u ne snoc d by (auto simp: insert_before_def hm_defs links_only_def seg_append)
  qed
qed

lemma append_block_correct:
  assumes seg: "seg (mem h) 0 (FreeList h) (ys @ [u]) 0" and d: "distinct (ys @ [u])"
    and b: "b \<notin> set (ys @ [u])" "b \<noteq> 0" "mem h b = Some n"
  shows "\<exists>h'. append_block b u h = Some (Returns (), h')
     \<and> seg (mem h') 0 (FreeList h') (ys @ [u, b]) 0 \<and> links_only h h'"
proof -
  obtain un where u: "mem h u = Some un" "u \<noteq> 0" using seg_nonzero [OF seg, of u] by auto
  have "seg ((mem h)(u \<mapsto> un\<lparr>n_next := b\<rparr>)) 0 (FreeList h) (ys @ [u]) b"
    using seg_relink [OF seg u(1)] d by simp
  then show ?thesis
    using u b d by (auto simp: append_block_def hm_defs links_only_def seg_append)
qed

lemma insort_between:
  "\<forall>y \<in> set ys. y < (b :: 'a :: linorder) \<Longrightarrow> (\<And>z. z \<in> set zs \<Longrightarrow> b < z) \<Longrightarrow> insort b (ys @ zs) = ys @ b # zs"
  by (induction ys) (auto intro: insort_is_Cons less_imp_le)

lemma insert_loop_correct:
  assumes "flist h (ys @ zs)" "b \<notin> set (ys @ zs)" "b \<noteq> 0" "mem h b = Some n" "\<forall>y \<in> set ys. y < b" "ys @ zs \<noteq> []"
  shows "\<exists>h'. insert_loop b (last_of 0 ys) (case zs of [] \<Rightarrow> 0 | z # _ \<Rightarrow> z) h = Some (Returns (), h')
     \<and> flist h' (insort b (ys @ zs)) \<and> links_only h h'"
  using assms
proof (induction zs arbitrary: ys)
  case Nil
  then obtain us u where ys: "ys = us @ [u]" by (cases ys rule: rev_cases) auto
  have sorted: "sorted_wrt (<) (ys @ [b])" using Nil by (auto simp: flist_def sorted_wrt_append)
  have "\<exists>h'. append_block b u h = Some (Returns (), h') \<and> seg (mem h') 0 (FreeList h') (us @ [u, b]) 0
      \<and> links_only h h'"
    using Nil ys flist_distinct [OF Nil.prems(1)] by (intro append_block_correct) (auto simp: flist_def)
  moreover have "insort b (us @ [u]) = us @ [u, b]"
    using insort_between [of ys b "[]"] Nil.prems(5) ys by simp
  ultimately show ?case
    using ys sorted by (auto simp: insert_loop.simps [of b u 0] flist_def)
next
  case (Cons f zs)
  have srt: "sorted_wrt (<) (ys @ f # zs)" and sg: "seg (mem h) 0 (FreeList h) (ys @ f # zs) 0"
    using Cons.prems(1) by (auto simp: flist_def)
  have d: "distinct (ys @ f # zs)" by (rule flist_distinct [OF Cons.prems(1)])
  obtain fn where f: "mem h f = Some fn" "seg (mem h) f (n_next fn) zs 0" "f \<noteq> 0"
    using seg_split_at [OF sg d] by blast
  show ?case
  proof (cases "b < f")
    case True
    then have gt: "b < z" if "z \<in> set (f # zs)" for z
      using that srt by (auto simp: sorted_wrt_append)
    have "sorted_wrt (<) (ys @ b # f # zs)"
      using srt gt Cons.prems(5) by (auto simp: sorted_wrt_append)
    moreover have "insort b (ys @ f # zs) = ys @ b # f # zs"
      by (rule insort_between [OF Cons.prems(5) gt])
    ultimately show ?thesis
      using insert_before_correct [OF sg d, of b n] Cons.prems True f
      by (auto simp: insert_loop.simps [of b "last_of 0 ys" f] flist_def)
  next
    case False
    then have "f < b" using Cons.prems(2) by auto
    moreover have "n_next fn = (case zs of [] \<Rightarrow> 0 | z # _ \<Rightarrow> z)" by (rule seg_next [OF f(2)])
    ultimately show ?thesis
      using Cons.IH [of "ys @ [f]"] Cons.prems f False
      by (auto simp: insert_loop.simps [of b "last_of 0 ys" f])
  qed
qed

lemma freelist_insert_spec:
  assumes "flist h xs" "b \<notin> set xs" "b \<noteq> 0" "mem h b = Some n" "n_prev n = 0" "n_next n = 0"
  shows "\<exists>h'. freelist_insert b h = Some (Returns (), h') \<and> flist h' (insort b xs) \<and> links_only h h'"
proof (cases xs)
  case Nil
  with assms show ?thesis by (auto simp: freelist_insert_def flist_def links_only_def hm_defs)
next
  case (Cons x ys)
  with assms have "FreeList h = x" "x \<noteq> 0" by (auto simp: flist_def)
  with insert_loop_correct [of h "[]" xs b n] assms Cons show ?thesis
    by (auto simp: freelist_insert_def)
qed

subsection \<open>Removal\<close>

lemma freelist_remove_spec:
  assumes seg: "seg (mem h) 0 (FreeList h) (ys @ b # zs) 0" and d: "distinct (ys @ b # zs)"
  shows "\<exists>h'. freelist_remove b h = Some (Returns (), h') \<and> seg (mem h') 0 (FreeList h') (ys @ zs) 0
     \<and> mem h' b = mem h b \<and> links_only h h'"
proof -
  obtain n where b: "mem h b = Some n" "n_prev n = last_of 0 ys" "seg (mem h) 0 (FreeList h) ys b"
    "seg (mem h) b (n_next n) zs 0" "b \<noteq> 0" "b \<notin> set ys" "b \<notin> set zs"
    using seg_split_at [OF seg d] by blast
  show ?thesis
  proof (cases ys rule: rev_cases)
    case Nil
    show ?thesis
    proof (cases zs)
      case (Cons z zs')
      with b obtain zn where "mem h z = Some zn" "n_next n = z" "z \<noteq> 0" by (auto split: option.splits)
      with b d Nil Cons show ?thesis by (auto simp: freelist_remove_def hm_defs links_only_def)
    qed (use Nil b in \<open>auto simp: freelist_remove_def hm_defs links_only_def\<close>)
  next
    case (snoc us u)
    obtain un where u: "mem h u = Some un" "u \<noteq> 0" using seg_nonzero [OF b(3), of u] snoc by auto
    have ne: "u \<notin> set us" "u \<noteq> b" "b \<notin> set us" "u \<notin> set zs" using d snoc by auto
    have re: "seg ((mem h)(u \<mapsto> un\<lparr>n_next := c\<rparr>)) 0 (FreeList h) (us @ [u]) c" for c
      using seg_relink [of "mem h" 0 "FreeList h" us u b un c] b(3) snoc u ne by simp
    show ?thesis
    proof (cases zs)
      case Nil
      with re [of 0] b u ne snoc show ?thesis by (auto simp: freelist_remove_def hm_defs links_only_def)
    next
      case (Cons z zs')
      with b obtain zn where z: "mem h z = Some zn" "n_next n = z" "z \<noteq> 0" by (auto split: option.splits)
      have "z \<notin> set us" "z \<noteq> u" "z \<notin> set zs'" "z \<noteq> b" "u \<notin> set zs'" using d snoc Cons by auto
      with re [of z] b u ne snoc Cons z show ?thesis
        by (auto simp: freelist_remove_def hm_defs links_only_def seg_append)
    qed
  qed
qed

subsection \<open>Free blocks\<close>

definition blk_len :: "heap \<Rightarrow> size_t \<Rightarrow> size_t" where
  "blk_len h x = (case mem h x of None \<Rightarrow> 0 | Some n \<Rightarrow> n_length n)"

definition blocks :: "heap \<Rightarrow> size_t list \<Rightarrow> (size_t \<times> size_t) list" where
  "blocks h xs = map (\<lambda>x. (x, blk_len h x)) xs"

lemma blocks_simps [simp]:
  "blocks h [] = []" "blocks h (x # xs) = (x, blk_len h x) # blocks h xs"
  "blocks h (xs @ ys) = blocks h xs @ blocks h ys" "map fst (blocks h xs) = xs"
  "length (blocks h xs) = length xs" "(blocks h xs = []) = (xs = [])"
  by (simp_all add: blocks_def comp_def)

lemma links_only_len: "links_only h h' \<Longrightarrow> blk_len h' x = blk_len h x"
  unfolding links_only_def blk_len_def by (metis (no_types, lifting) option.case_eq_if option.map_disc_iff option.map_sel)

lemma links_only_blocks: "links_only h h' \<Longrightarrow> blocks h' xs = blocks h xs"
  by (simp add: blocks_def links_only_len)

lemma links_only_trans: "links_only h h' \<Longrightarrow> links_only h' h'' \<Longrightarrow> links_only h h''"
  by (simp add: links_only_def)

lemma blocks_cong: "(\<And>x. x \<in> set xs \<Longrightarrow> blk_len h' x = blk_len h x) \<Longrightarrow> blocks h' xs = blocks h xs"
  by (simp add: blocks_def)

lemma sorted_split_insort:
  assumes "sorted_wrt (<) xs" "(b :: 'a :: linorder) \<notin> set xs"
  shows "insort b xs = takeWhile (\<lambda>x. x < b) xs @ b # dropWhile (\<lambda>x. x < b) xs"
proof -
  have "b < z" if z: "z \<in> set (dropWhile (\<lambda>x. x < b) xs)" for z
  proof -
    obtain y ys where y: "dropWhile (\<lambda>x. x < b) xs = y # ys" using z by (cases "dropWhile (\<lambda>x. x < b) xs") auto
    then have "\<not> y < b" using hd_dropWhile [of "\<lambda>x. x < b" xs] by simp
    moreover have "y \<in> set xs" using y by (metis list.set_intros(1) set_dropWhileD)
    moreover have "sorted_wrt (<) (y # ys)" using assms(1) y sorted_wrt_dropWhile [of "(<)" xs] by metis
    ultimately show ?thesis using z y assms(2) by (metis less_trans linorder_neqE set_ConsD sorted_wrt.simps(2))
  qed
  then show ?thesis
    using insort_between [of "takeWhile (\<lambda>x. x < b) xs" b "dropWhile (\<lambda>x. x < b) xs"]
    by (metis set_takeWhileD takeWhile_dropWhile_id)
qed

subsection \<open>Merging\<close>

lemma block_merge_spec:
  assumes seg: "seg (mem h) 0 (FreeList h) (ys @ l # r # zs) 0" and d: "distinct (ys @ l # r # zs)"
  shows "\<exists>h'. block_merge l r h = Some (Returns l, h') \<and> seg (mem h') 0 (FreeList h') (ys @ l # zs) 0
     \<and> blk_len h' l = blk_len h l + (blk_len h r + sizeof_node)
     \<and> (\<forall>x. x \<noteq> l \<longrightarrow> x \<noteq> r \<longrightarrow> blk_len h' x = blk_len h x)
     \<and> brk_end h' = brk_end h \<and> brk_start h' = brk_start h \<and> brk_limit h' = brk_limit h"
proof -
  obtain ln where l: "mem h l = Some ln" "n_prev ln = last_of 0 ys" "seg (mem h) 0 (FreeList h) ys l"
    "seg (mem h) l (n_next ln) (r # zs) 0" "l \<noteq> 0" "l \<notin> set ys"
    using seg_split_at [OF seg d] by blast
  then obtain rn where r: "mem h r = Some rn" "n_next ln = r" "r \<noteq> 0" "seg (mem h) r (n_next rn) zs 0"
    by (auto split: option.splits)
  have ne: "l \<noteq> r" "r \<notin> set ys" "l \<notin> set zs" "r \<notin> set zs" using d by auto
  show ?thesis
  proof (cases zs)
    case Nil
    with l r ne show ?thesis
      by (auto simp: block_merge_def block_init_def hm_defs seg_append blk_len_def)
  next
    case (Cons z zs')
    with r obtain zn where z: "mem h z = Some zn" "n_next rn = z" "z \<noteq> 0" "seg (mem h) z (n_next zn) zs' 0"
      by (auto split: option.splits)
    have "z \<notin> set ys" "z \<noteq> l" "z \<noteq> r" "z \<notin> set zs'" using d Cons by auto
    with l r ne z Cons show ?thesis
      by (auto simp: block_merge_def block_init_def hm_defs seg_append blk_len_def)
  qed
qed

subsection \<open>Freeing: the specification\<close>

text \<open>
  Free blocks as pairs of an address and a length, ordered by address: a released block is joined with
  the block that ends where it begins and with the block that begins where it ends.
\<close>

definition glue :: "size_t \<times> size_t \<Rightarrow> size_t \<times> size_t \<Rightarrow> bool" where
  "glue c d \<longleftrightarrow> fst c + snd c + sizeof_node = fst d"

definition join :: "size_t \<times> size_t \<Rightarrow> size_t \<times> size_t \<Rightarrow> size_t \<times> size_t" where
  "join c d = (fst c, snd c + (snd d + sizeof_node))"

definition merge_left ::
    "(size_t \<times> size_t) list \<Rightarrow> size_t \<times> size_t \<Rightarrow> (size_t \<times> size_t) list \<times> (size_t \<times> size_t)" where
  "merge_left ys c =
     (if ys \<noteq> [] \<and> glue (last ys) c then (butlast ys, join (last ys) c) else (ys, c))"

definition merge_right ::
    "size_t \<times> size_t \<Rightarrow> (size_t \<times> size_t) list \<Rightarrow> (size_t \<times> size_t) list" where
  "merge_right c zs =
     (case zs of [] \<Rightarrow> [c] | d # ds \<Rightarrow> if glue c d then join c d # ds else c # d # ds)"

definition release :: "size_t \<times> size_t \<Rightarrow> (size_t \<times> size_t) list \<Rightarrow> (size_t \<times> size_t) list" where
  "release c fs =
     (let (ys, c') = merge_left (takeWhile (\<lambda>x. fst x < fst c) fs) c
      in ys @ merge_right c' (dropWhile (\<lambda>x. fst x < fst c) fs))"

definition same_brk :: "heap \<Rightarrow> heap \<Rightarrow> bool" where
  "same_brk h h' \<longleftrightarrow> brk_end h' = brk_end h \<and> brk_start h' = brk_start h \<and> brk_limit h' = brk_limit h"

lemma same_brk_trans: "same_brk h h' \<Longrightarrow> same_brk h' h'' \<Longrightarrow> same_brk h h''"
  by (simp add: same_brk_def)

lemma hbind_Returns [simp]: "m h = Some (Returns x, h') \<Longrightarrow> hbind m k h = k x h'"
  by (simp add: hbind_def)

lemma hbind_ret [simp]: "hbind (ret x) k = k x"
  by (rule ext) (simp add: hbind_def ret_def)

lemma ends_at_eval:
  assumes "mem h c = Some n"
  shows "ends_at c a h = Some (Returns (glue (c, blk_len h c) (a, l)), h)"
  using assms by (simp add: ends_at_def hm_defs glue_def blk_len_def)

subsection \<open>Freeing: the steps\<close>

lemma merge_prev_spec:
  assumes fl: "flist h (ys @ b # zs)"
  shows "\<exists>h' us c. merge_prev (last_of 0 ys) b h = Some (Returns c, h') \<and> flist h' (us @ c # zs)
     \<and> merge_left (blocks h ys) (b, blk_len h b) = (blocks h' us, (c, blk_len h' c))
     \<and> blocks h' zs = blocks h zs \<and> same_brk h h'"
proof -
  have sg: "seg (mem h) 0 (FreeList h) (ys @ b # zs) 0" and d: "distinct (ys @ b # zs)"
    using flist_seg [OF fl] flist_distinct [OF fl] .
  show ?thesis
  proof (cases "ys \<noteq> [] \<and> glue (last ys, blk_len h (last ys)) (b, blk_len h b)")
    case False
    have "merge_prev (last_of 0 ys) b h = Some (Returns b, h)"
    proof (cases ys rule: rev_cases)
      case (snoc us u)
      then obtain n where "mem h u = Some n" "u \<noteq> 0" using seg_nonzero [OF sg, of u] by auto
      with snoc False show ?thesis
        by (simp add: merge_prev_def ends_at_eval [of h u n b "blk_len h b"] ret_def)
    qed (simp add: merge_prev_def ret_def)
    moreover have "merge_left (blocks h ys) (b, blk_len h b) = (blocks h ys, (b, blk_len h b))"
      using False by (auto simp: merge_left_def blocks_def last_map)
    ultimately show ?thesis using fl by (auto simp: same_brk_def)
  next
    case True
    then obtain us u where ys: "ys = us @ [u]" by (cases ys rule: rev_cases) auto
    with sg d have sg': "seg (mem h) 0 (FreeList h) (us @ u # b # zs) 0" and d': "distinct (us @ u # b # zs)" by auto
    obtain h' where h': "block_merge u b h = Some (Returns u, h')" "seg (mem h') 0 (FreeList h') (us @ u # zs) 0"
      "blk_len h' u = blk_len h u + (blk_len h b + sizeof_node)" "\<forall>x. x \<noteq> u \<longrightarrow> x \<noteq> b \<longrightarrow> blk_len h' x = blk_len h x"
      "same_brk h h'"
      using block_merge_spec [OF sg' d'] by (auto simp: same_brk_def)
    obtain n where n: "mem h u = Some n" "u \<noteq> 0" using seg_nonzero [OF sg', of u] by auto
    have "merge_prev (last_of 0 ys) b h = Some (Returns u, h')"
      using ys n True h'(1) by (simp add: merge_prev_def ends_at_eval [of h u n b "blk_len h b"])
    moreover have "blocks h' us = blocks h us" "blocks h' zs = blocks h zs"
      using h'(4) d' by (auto intro!: blocks_cong)
    moreover have "merge_left (blocks h ys) (b, blk_len h b) = (blocks h us, (u, blk_len h' u))"
      using True ys h'(3) by (auto simp: merge_left_def join_def)
    ultimately show ?thesis
      using h' fl ys by (intro exI [of _ h'] exI [of _ us] exI [of _ u]) (auto simp: flist_def sorted_wrt_append)
  qed
qed

lemma merge_next_spec:
  assumes fl: "flist h (us @ c # zs)"
  shows "\<exists>h' xs. merge_next c (case zs of [] \<Rightarrow> 0 | z # _ \<Rightarrow> z) h = Some (Returns (), h') \<and> flist h' xs
     \<and> blocks h' xs = blocks h us @ merge_right (c, blk_len h c) (blocks h zs) \<and> same_brk h h'"
proof -
  have sg: "seg (mem h) 0 (FreeList h) (us @ c # zs) 0" and d: "distinct (us @ c # zs)"
    using flist_seg [OF fl] flist_distinct [OF fl] .
  obtain n where n: "mem h c = Some n" "c \<noteq> 0" using seg_nonzero [OF sg, of c] by auto
  show ?thesis
  proof (cases zs)
    case Nil
    with fl show ?thesis
      by (intro exI [of _ h] exI [of _ "us @ c # zs"]) (auto simp: merge_next_def merge_right_def ret_def same_brk_def)
  next
    case (Cons z ds)
    then have z: "z \<noteq> 0" using seg_nonzero [OF sg, of z] by auto
    show ?thesis
    proof (cases "glue (c, blk_len h c) (z, blk_len h z)")
      case False
      then have "merge_next c z h = Some (Returns (), h)"
        using n z by (simp add: merge_next_def ends_at_eval [of h c n z "blk_len h z"] ret_def)
      with fl False Cons show ?thesis
        by (intro exI [of _ h] exI [of _ "us @ c # zs"]) (auto simp: merge_right_def same_brk_def)
    next
      case True
      obtain h' where h': "block_merge c z h = Some (Returns c, h')" "seg (mem h') 0 (FreeList h') (us @ c # ds) 0"
        "blk_len h' c = blk_len h c + (blk_len h z + sizeof_node)" "\<forall>x. x \<noteq> c \<longrightarrow> x \<noteq> z \<longrightarrow> blk_len h' x = blk_len h x"
        "same_brk h h'"
        using block_merge_spec [of h us c z ds] sg d Cons by (auto simp: same_brk_def)
      have "merge_next c z h = Some (Returns (), h')"
        using n z True h'(1) by (simp add: merge_next_def ends_at_eval [of h c n z "blk_len h z"] ret_def)
      moreover have "blocks h' us = blocks h us" "blocks h' ds = blocks h ds"
        using h'(4) d Cons by (auto intro!: blocks_cong)
      moreover have "sorted_wrt (<) (us @ c # ds)" using fl Cons by (auto simp: flist_def sorted_wrt_append)
      ultimately show ?thesis
        using h' True Cons
        by (intro exI [of _ h'] exI [of _ "us @ c # ds"]) (auto simp: flist_def merge_right_def join_def)
    qed
  qed
qed

lemma last_loop_eval:
  "seg (mem h) q p xs 0 \<Longrightarrow> last_loop l p h = Some (Returns (last_of l xs), h)"
proof (induction xs arbitrary: q p l)
  case Nil
  then show ?case by (simp add: last_loop.simps [of l 0])
next
  case (Cons x xs)
  then obtain n where "p = x" "x \<noteq> 0" "mem h x = Some n" "seg (mem h) x (n_next n) xs 0"
    by (auto split: option.splits)
  with Cons.IH [of x "n_next n" x] show ?case by (simp add: last_loop.simps [of l x])
qed

lemma shrink_heap_keeps:
  assumes "flist h xs" "xs = [] \<or> blk_len h (last xs) < MIN_HEAP_FREE_SIZE"
  shows "shrink_heap h = Some (Returns (), h)"
proof -
  have l: "last_loop 0 (FreeList h) h = Some (Returns (last_of 0 xs), h)"
    by (rule last_loop_eval [OF flist_seg [OF assms(1)]])
  show ?thesis
  proof (cases xs rule: rev_cases)
    case (snoc us u)
    then obtain n where "mem h u = Some n" "u \<noteq> 0" using seg_nonzero [OF flist_seg [OF assms(1)], of u] by auto
    with assms(2) snoc l show ?thesis by (auto simp: shrink_heap_def hm_defs blk_len_def)
  qed (use l in \<open>simp add: shrink_heap_def hm_defs\<close>)
qed

lemma shrink_heap_shrinks:
  assumes fl: "flist h (us @ [u])" and len: "MIN_HEAP_FREE_SIZE \<le> blk_len h u"
    and range: "brk_start h \<le> u" "u \<le> brk_limit h"
  shows "\<exists>h'. shrink_heap h = Some (Returns (), h') \<and> flist h' us \<and> blocks h' us = blocks h us
     \<and> brk_end h' = u \<and> (\<forall>x \<ge> u. mem h' x = None)"
proof -
  have sg: "seg (mem h) 0 (FreeList h) (us @ [u]) 0" and d: "distinct (us @ [u])"
    using flist_seg [OF fl] flist_distinct [OF fl] .
  have lt: "x < u" if "x \<in> set us" for x
    using fl that by (auto simp: flist_def sorted_wrt_append)
  have srt: "sorted_wrt (<) us" using fl by (simp add: flist_def sorted_wrt_append)
  have l: "last_loop 0 (FreeList h) h = Some (Returns u, h)"
    using last_loop_eval [OF sg, of 0] by simp
  obtain n where n: "mem h u = Some n" "u \<noteq> 0" using seg_nonzero [OF sg, of u] by auto
  obtain h1 where h1: "freelist_remove u h = Some (Returns (), h1)" "seg (mem h1) 0 (FreeList h1) us 0"
    "links_only h h1"
    using freelist_remove_spec [of h us u "[]"] sg d by auto
  have "shrink_heap h = brk u h1"
    using l n len h1(1) by (simp add: shrink_heap_def load_def blk_len_def)
  moreover have "brk u h1 = Some (Returns (), set_brk u h1)"
    using range h1(3) by (simp add: brk_def links_only_def)
  moreover have "flist (set_brk u h1) us"
    using h1(2) srt lt by (auto simp: flist_def set_brk_def intro: seg_frame)
  moreover have "blocks (set_brk u h1) us = blocks h1 us"
    using lt by (intro blocks_cong) (simp add: set_brk_def blk_len_def)
  ultimately show ?thesis
    using links_only_blocks [OF h1(3)] by (auto simp: set_brk_def not_less [symmetric])
qed

lemma merge_right_nonempty [simp]: "merge_right c zs \<noteq> []"
  by (simp add: merge_right_def split: list.splits)

lemma release_nonempty [simp]: "release c fs \<noteq> []"
  by (simp add: release_def split: prod.splits)

lemma takeWhile_blocks:
  "takeWhile (\<lambda>x. fst x < b) (blocks h xs) = blocks h (takeWhile (\<lambda>x. x < b) xs)"
  "dropWhile (\<lambda>x. fst x < b) (blocks h xs) = blocks h (dropWhile (\<lambda>x. x < b) xs)"
  by (simp_all add: blocks_def takeWhile_map dropWhile_map comp_def)

lemma xfree_merged:
  assumes fl: "flist h xs" and b: "b \<notin> set xs" "b \<noteq> 0" "user_addr b \<noteq> 0"
    and hdr: "mem h b = Some \<lparr>n_prev = 0, n_next = 0, n_length = len\<rparr>"
  shows "\<exists>h' ys. xfree (user_addr b) h = shrink_heap h' \<and> flist h' ys
     \<and> blocks h' ys = release (b, len) (blocks h xs) \<and> same_brk h h'"
proof -
  let ?ys = "takeWhile (\<lambda>x. x < b) xs" and ?zs = "dropWhile (\<lambda>x. x < b) xs"
  have srt: "insort b xs = ?ys @ b # ?zs"
    using sorted_split_insort [of xs b] fl b(1) by (simp add: flist_def)
  obtain h1 where h1: "freelist_insert b h = Some (Returns (), h1)" "flist h1 (?ys @ b # ?zs)" "links_only h h1"
    using freelist_insert_spec [OF fl b(1,2) hdr] srt by auto
  obtain n where n: "mem h1 b = Some n" "n_prev n = last_of 0 ?ys" "seg (mem h1) b (n_next n) ?zs 0"
    using seg_split_at [OF flist_seg [OF h1(2)] flist_distinct [OF h1(2)]] by blast
  obtain h2 us c where h2: "merge_prev (last_of 0 ?ys) b h1 = Some (Returns c, h2)" "flist h2 (us @ c # ?zs)"
    "merge_left (blocks h1 ?ys) (b, blk_len h1 b) = (blocks h2 us, (c, blk_len h2 c))"
    "blocks h2 ?zs = blocks h1 ?zs" "same_brk h1 h2"
    using merge_prev_spec [OF h1(2)] by blast
  obtain h3 ys where h3: "merge_next c (case ?zs of [] \<Rightarrow> 0 | z # _ \<Rightarrow> z) h2 = Some (Returns (), h3)" "flist h3 ys"
    "blocks h3 ys = blocks h2 us @ merge_right (c, blk_len h2 c) (blocks h2 ?zs)" "same_brk h2 h3"
    using merge_next_spec [OF h2(2)] by blast
  have "xfree (user_addr b) h = shrink_heap h3"
    using b(3) h1(1) n h2(1) h3(1) seg_next [OF n(3)]
    by (simp add: xfree_def malloc_addr_def user_addr_def load_def)
  moreover have "blk_len h1 b = len" using links_only_len [OF h1(3), of b] hdr by (simp add: blk_len_def)
  then have "blocks h3 ys = release (b, len) (blocks h xs)"
    using h2(3,4) h3(3) links_only_blocks [OF h1(3)] by (simp add: release_def takeWhile_blocks)
  moreover have "same_brk h h3"
    using h1(3) h2(5) h3(4) by (simp add: links_only_def same_brk_def)
  ultimately show ?thesis using h3(2) by blast
qed

lemma release_addrs: "fst ` set (release c fs) \<subseteq> insert (fst c) (fst ` set fs)"
proof -
  let ?P = "\<lambda>x. fst x < fst c"
  obtain ys d where ml: "merge_left (takeWhile ?P fs) c = (ys, d)"
    by (cases "merge_left (takeWhile ?P fs) c")
  have r: "fst ` set (merge_right d zs) \<subseteq> insert (fst d) (fst ` set zs)" for zs
    by (auto simp: merge_right_def join_def split: list.splits if_splits)
  have l: "fst ` set ys \<union> {fst d} \<subseteq> insert (fst c) (fst ` set (takeWhile ?P fs))"
    using ml by (auto simp: merge_left_def join_def split: if_splits dest: in_set_butlastD)
  have t: "fst ` set (takeWhile ?P fs) \<subseteq> fst ` set fs" "fst ` set (dropWhile ?P fs) \<subseteq> fst ` set fs"
    using set_takeWhileD [of _ ?P fs] set_dropWhileD [of _ ?P fs] by blast+
  have "fst ` set (release c fs) = fst ` set ys \<union> fst ` set (merge_right d (dropWhile ?P fs))"
    using ml by (simp add: release_def image_Un)
  also have "\<dots> \<subseteq> fst ` set ys \<union> {fst d} \<union> fst ` set fs"
    using r [of "dropWhile ?P fs"] t(2) by blast
  also have "\<dots> \<subseteq> insert (fst c) (fst ` set fs)"
    using l t(1) by blast
  finally show ?thesis .
qed

subsection \<open>Allocation\<close>

lemma get_free_block_skip:
  assumes "seg (mem h) q p (ys @ zs) 0" "\<forall>y \<in> set ys. blk_len h y < sz \<and> blk_len h y < sz + sizeof_node"
  shows "freelist_get_free_block p sz h = freelist_get_free_block (case zs of [] \<Rightarrow> 0 | z # _ \<Rightarrow> z) sz h"
  using assms
proof (induction ys arbitrary: q p)
  case Nil
  then show ?case using seg_next [of "mem h" q p zs] by simp
next
  case (Cons y ys)
  then obtain n where "p = y" "y \<noteq> 0" "mem h y = Some n" "seg (mem h) y (n_next n) (ys @ zs) 0"
    by (auto split: option.splits)
  moreover from this Cons.prems(2) have "freelist_get_free_block y sz h = freelist_get_free_block (n_next n) sz h"
    by (subst freelist_get_free_block.simps) (auto simp: blk_len_def)
  ultimately show ?case using Cons.IH [of y "n_next n"] Cons.prems(2) by simp
qed

lemma get_free_block_none:
  assumes "seg (mem h) q p xs 0" "\<forall>y \<in> set xs. blk_len h y < sz \<and> blk_len h y < sz + sizeof_node"
  shows "freelist_get_free_block p sz h = Some (Returns 0, h)"
  using get_free_block_skip [of h q p xs "[]" sz] assms by (simp add: freelist_get_free_block.simps [of 0])

lemma take_whole_spec:
  assumes fl: "flist h (ys @ b # zs)"
  shows "\<exists>h'. take_whole b l h = Some (Returns b, h') \<and> flist h' (ys @ zs)
     \<and> mem h' b = Some \<lparr>n_prev = 0, n_next = 0, n_length = l\<rparr>
     \<and> (\<forall>x. x \<noteq> b \<longrightarrow> blk_len h' x = blk_len h x) \<and> same_brk h h'"
proof -
  have sg: "seg (mem h) 0 (FreeList h) (ys @ b # zs) 0" and d: "distinct (ys @ b # zs)"
    using flist_seg [OF fl] flist_distinct [OF fl] .
  obtain h1 where h1: "freelist_remove b h = Some (Returns (), h1)" "seg (mem h1) 0 (FreeList h1) (ys @ zs) 0"
    "links_only h h1" using freelist_remove_spec [OF sg d] by blast
  have "b \<noteq> 0" using seg_nonzero [OF sg, of b] by simp
  then show ?thesis
    using h1 d fl links_only_len [OF h1(3)]
    by (auto simp: take_whole_def block_init_def store_def modify_def load_def ret_def flist_def sorted_wrt_append
        same_brk_def links_only_def blk_len_def)
qed

text \<open>Splitting a block: the remainder takes its place in the list if the block is the last one.\<close>

lemma block_split_eval:
  assumes "mem h b = Some n" "b \<noteq> 0" "n_length n \<ge> sz + sizeof_node" "r = b + sizeof_node + sz" "r \<noteq> 0" "r \<noteq> b"
  shows "block_split b sz h = Some (Returns (b, r),
     h\<lparr>mem := (mem h)(r \<mapsto> \<lparr>n_prev = b, n_next = n_next n, n_length = n_length n - sz - sizeof_node\<rparr>,
                     b \<mapsto> n\<lparr>n_length := sz, n_next := r\<rparr>)\<rparr>)"
  using assms by (simp add: block_split_def hm_defs Let_def)

lemma take_split_spec:
  assumes fl: "flist h (ys @ [b])" and len: "blk_len h b \<ge> sz + sizeof_node"
    and r: "r = b + sizeof_node + sz" "b < r"
  shows "\<exists>h'. take_split b sz h = Some (Returns b, h') \<and> flist h' (ys @ [r])
     \<and> mem h' b = Some \<lparr>n_prev = 0, n_next = 0, n_length = sz\<rparr>
     \<and> blk_len h' r = blk_len h b - sz - sizeof_node
     \<and> (\<forall>x. x \<noteq> b \<longrightarrow> x \<noteq> r \<longrightarrow> blk_len h' x = blk_len h x) \<and> same_brk h h'"
proof -
  have sg: "seg (mem h) 0 (FreeList h) (ys @ [b]) 0" and d: "distinct (ys @ [b])"
    using flist_seg [OF fl] flist_distinct [OF fl] .
  obtain n where n: "mem h b = Some n" "n_prev n = last_of 0 ys" "seg (mem h) 0 (FreeList h) ys b" "b \<noteq> 0" "n_next n = 0"
    using seg_split_at [OF sg d] by auto
  have lt: "y < b" if "y \<in> set ys" for y using fl that by (auto simp: flist_def sorted_wrt_append)
  have ne: "r \<notin> set ys" "r \<noteq> b" "r \<noteq> 0" "b \<notin> set ys" using lt r(2) n(4) by fastforce+
  let ?r = "\<lparr>n_prev = b, n_next = 0, n_length = n_length n - sz - sizeof_node\<rparr>"
  let ?h = "h\<lparr>mem := (mem h)(r \<mapsto> ?r, b \<mapsto> n\<lparr>n_length := sz, n_next := r\<rparr>)\<rparr>"
  have split: "block_split b sz h = Some (Returns (b, r), ?h)"
    using block_split_eval [of h b n sz r] n len r ne by (simp add: blk_len_def)
  have "seg (mem ?h) 0 (FreeList ?h) (ys @ b # [r]) 0"
    using n ne by (auto simp: seg_append)
  moreover have "distinct (ys @ b # [r])" using d ne by auto
  ultimately obtain h1 where h1: "freelist_remove b ?h = Some (Returns (), h1)"
    "seg (mem h1) 0 (FreeList h1) (ys @ [r]) 0" "links_only ?h h1"
    using freelist_remove_spec by blast
  have "sorted_wrt (<) (ys @ [r])" using fl lt r(2) by (fastforce simp: flist_def sorted_wrt_append)
  moreover have "blk_len h1 x = blk_len ?h x" for x by (rule links_only_len [OF h1(3)])
  ultimately show ?thesis
    using split h1 ne n
    by (auto simp: take_split_def block_init_def store_def modify_def load_def ret_def flist_def
        same_brk_def links_only_def blk_len_def)
qed

lemma user_addr_bounds:
  fixes b l sz :: size_t
  assumes "unat b + 24 + unat l < 2 ^ 64" "unat sz + 24 < 2 ^ 64" "sz + sizeof_node \<le> l"
  shows "unat (b + sizeof_node + sz) = unat b + 24 + unat sz" "b < b + sizeof_node + sz"
    "unat sz + 24 \<le> unat l" "sz \<le> l"
proof -
  have "unat (sz + 24) = unat sz + 24" using assms(2) by (subst unat_plus_simple [THEN iffD1]) (auto simp: no_olen_add_nat)
  then show l: "unat sz + 24 \<le> unat l" using assms(3) by (simp add: sizeof_node_def word_le_nat_alt)
  then show "sz \<le> l" by (simp add: word_le_nat_alt)
  have "unat (b + 24) = unat b + 24" using assms(1) by (subst unat_plus_simple [THEN iffD1]) (auto simp: no_olen_add_nat)
  moreover then have "unat (b + 24 + sz) = unat b + 24 + unat sz"
    using assms(1) l by (subst unat_plus_simple [THEN iffD1]) (auto simp: no_olen_add_nat)
  ultimately show u: "unat (b + sizeof_node + sz) = unat b + 24 + unat sz" by (simp add: sizeof_node_def)
  show "b < b + sizeof_node + sz" using u by (simp add: word_less_nat_alt)
qed

lemma too_small:
  fixes l sz :: size_t
  assumes "l < sz" "unat sz + 24 < 2 ^ 64"
  shows "l < sz + sizeof_node"
proof -
  have "unat (sz + 24) = unat sz + 24" using assms(2) by (subst unat_plus_simple [THEN iffD1]) (auto simp: no_olen_add_nat)
  with assms(1) show ?thesis by (simp add: sizeof_node_def word_less_nat_alt)
qed

lemma get_free_block_here:
  assumes "mem h b = Some n" "b \<noteq> 0"
  shows "freelist_get_free_block b sz h =
     (if blk_len h b \<ge> sz + sizeof_node then take_split b sz h
      else if blk_len h b \<ge> sz then take_whole b (blk_len h b) h
      else freelist_get_free_block (n_next n) sz h)"
  using assms by (subst freelist_get_free_block.simps) (simp add: blk_len_def)

lemma xmalloc_found:
  assumes "freelist_get_free_block (FreeList h) sz h = Some (Returns b, h')" "b \<noteq> 0"
  shows "xmalloc sz h = Some (Returns (user_addr b), h')"
  using assms by (simp add: xmalloc_def get_FreeList_def hbind_def ret_def)

subsection \<open>Splitting in the middle of the list\<close>

lemma remove_before_unlinked:
  assumes seg: "seg (mem h) 0 (FreeList h) (ys @ [b]) r" and r: "r \<noteq> 0" "mem h r = Some rn"
    and ne: "distinct (ys @ [b])" "r \<notin> set (ys @ [b])"
  shows "\<exists>h'. freelist_remove b h = Some (Returns (), h') \<and> seg (mem h') 0 (FreeList h') ys r
     \<and> mem h' r = Some (rn\<lparr>n_prev := last_of 0 ys\<rparr>) \<and> (\<forall>x. x \<notin> set ys \<longrightarrow> x \<noteq> r \<longrightarrow> mem h' x = mem h x)"
proof -
  obtain n where b: "mem h b = Some n" "n_prev n = last_of 0 ys" "n_next n = r" "seg (mem h) 0 (FreeList h) ys b"
    using seg by (auto simp: seg_append split: option.splits)
  show ?thesis
  proof (cases ys rule: rev_cases)
    case Nil
    with b r show ?thesis by (auto simp: freelist_remove_def hm_defs)
  next
    case (snoc us u)
    obtain un where u: "mem h u = Some un" "u \<noteq> 0" using seg_nonzero [OF b(4), of u] snoc by auto
    have "seg ((mem h)(u \<mapsto> un\<lparr>n_next := r\<rparr>)) 0 (FreeList h) (us @ [u]) r"
      using seg_relink [of "mem h" 0 "FreeList h" us u b un r] b(4) snoc u ne(1) by auto
    with b r u ne snoc show ?thesis by (auto simp: freelist_remove_def hm_defs seg_append)
  qed
qed

lemma sane_loop_prefix:
  "seg (mem h) p a ys c \<Longrightarrow> sane_loop p a h = sane_loop (last_of p ys) c h"
proof (induction ys arbitrary: p a)
  case (Cons y ys)
  then obtain n where "a = y" "y \<noteq> 0" "mem h y = Some n" "n_prev n = p" "seg (mem h) y (n_next n) ys c"
    by (auto split: option.splits)
  moreover from this have "sane_loop p y h = sane_loop y (n_next n) h" by (subst sane_loop.simps) simp
  ultimately show ?case using Cons.IH [of y "n_next n"] by simp
qed simp

lemma sane_loop_sound:
  assumes "sane_loop p a h = Some (Returns True, h')"
  shows "h' = h \<and> (\<exists>xs. seg (mem h) p a xs 0)"
proof -
  define P where "P = (\<lambda>p a (h :: heap) r. \<forall>b h'. r = (Returns b, h') \<longrightarrow> h' = h \<and> (b \<longrightarrow> (\<exists>xs. seg (mem h) p a xs 0)))"
  have "P p a h r" if "sane_loop p a h = Some r" for p a h r
  proof (rule sane_loop.raw_induct [where P = P, OF _ that])
    fix loop p a h r
    assume IH: "\<And>p a h r. loop p a h = Some r \<Longrightarrow> P p a h r"
      and eq: "(if a \<noteq> 0 then
          (case mem h a of None \<Rightarrow> Some (Undefined, h)
           | Some b \<Rightarrow> if n_prev b \<noteq> p then Some (Returns False, h) else loop a (n_next b) h)
        else Some (Returns True, h)) = Some r"
    show "P p a h r"
    proof (cases "a \<noteq> 0 \<and> (\<exists>n. mem h a = Some n \<and> n_prev n = p)")
      case True
      then obtain n where n: "a \<noteq> 0" "mem h a = Some n" "n_prev n = p" by blast
      with eq have "P a (n_next n) h r" by (intro IH) simp
      moreover have "seg (mem h) p a (a # xs) 0" if "seg (mem h) a (n_next n) xs 0" for xs using n that by simp
      ultimately show ?thesis unfolding P_def by blast
    next
      case False
      then have "r = (Returns True, h) \<and> a = 0 \<or> r = (Undefined, h) \<or> r = (Returns False, h)"
        using eq by (auto split: option.splits if_splits)
      moreover have "seg (mem h) p 0 [] 0" by simp
      ultimately show ?thesis unfolding P_def by blast
    qed
  qed
  with assms show ?thesis unfolding P_def by blast
qed

lemma xmalloc_split_middle:
  assumes fl: "flist h (ys @ b # z # zs)" and small: "\<forall>y \<in> set ys. blk_len h y < sz"
    and len: "sz + sizeof_node \<le> blk_len h b"
    and bounds: "unat sz + 24 < 2 ^ 64" "unat b + 24 + unat (blk_len h b) \<le> unat z"
  shows "\<exists>h'. xmalloc sz h = Some (Returns (user_addr b), h') \<and> is_freelist_sane h' = Some (Returns False, h')"
proof -
  define r where "r = b + sizeof_node + sz"
  have sg: "seg (mem h) 0 (FreeList h) (ys @ b # z # zs) 0" and d: "distinct (ys @ b # z # zs)"
    using flist_seg [OF fl] flist_distinct [OF fl] .
  have "unat z < 2 ^ LENGTH(64)" by (rule unsigned_less)
  then have r: "unat r = unat b + 24 + unat sz" "b < r" "unat sz + 24 \<le> unat (blk_len h b)"
    using user_addr_bounds [OF _ bounds(1) len, of b] bounds(2) by (auto simp: r_def)
  then have rz: "r < z" using bounds(2) by (simp add: word_less_nat_alt)
  obtain n where n: "mem h b = Some n" "n_prev n = last_of 0 ys" "seg (mem h) 0 (FreeList h) ys b"
    "seg (mem h) b (n_next n) (z # zs) 0" "b \<noteq> 0" "b \<notin> set ys"
    using seg_split_at [OF sg d] by blast
  then obtain zn where z: "mem h z = Some zn" "n_next n = z" "z \<noteq> 0" "n_prev zn = b" by (auto split: option.splits)
  have lt: "y < b" if "y \<in> set ys" for y using fl that by (auto simp: flist_def sorted_wrt_append)
  have ne: "r \<notin> set ys" "r \<noteq> b" "r \<noteq> 0" "z \<notin> set ys" "z \<noteq> b" "z \<noteq> r"
    using lt r(2) rz d le_less_trans [OF word_zero_le r(2)] by (auto dest: less_asym)
  let ?rn = "\<lparr>n_prev = b, n_next = z, n_length = n_length n - sz - sizeof_node\<rparr>"
  let ?h = "h\<lparr>mem := (mem h)(r \<mapsto> ?rn, b \<mapsto> n\<lparr>n_length := sz, n_next := r\<rparr>)\<rparr>"
  have split: "block_split b sz h = Some (Returns (b, r), ?h)"
    using block_split_eval [OF n(1,5) _ r_def ne(3,2)] len n(1) z(2) by (simp add: blk_len_def)
  have "seg (mem ?h) 0 (FreeList ?h) (ys @ [b]) r"
    using n ne by (auto simp: seg_append)
  then obtain h1 where h1: "freelist_remove b ?h = Some (Returns (), h1)" "seg (mem h1) 0 (FreeList h1) ys r"
    "mem h1 r = Some (?rn\<lparr>n_prev := last_of 0 ys\<rparr>)" "\<forall>x. x \<notin> set ys \<longrightarrow> x \<noteq> r \<longrightarrow> mem h1 x = mem ?h x"
    using remove_before_unlinked [of ?h ys b r ?rn] ne d by auto
  let ?h2 = "h1\<lparr>mem := (mem h1)(b \<mapsto> \<lparr>n_prev = 0, n_next = 0, n_length = sz\<rparr>)\<rparr>"
  have "take_split b sz h = Some (Returns b, ?h2)"
    using split h1(1) n(5) by (simp add: take_split_def block_init_def store_def modify_def load_def ret_def)
  moreover have "freelist_get_free_block (FreeList h) sz h = freelist_get_free_block b sz h"
    using get_free_block_skip [of h 0 "FreeList h" ys "b # z # zs" sz] sg small too_small [OF _ bounds(1)] by simp
  ultimately have "xmalloc sz h = Some (Returns (user_addr b), ?h2)"
    using n len by (intro xmalloc_found) (simp_all add: get_free_block_here)
  moreover have "sane_loop 0 (FreeList ?h2) ?h2 = sane_loop (last_of 0 ys) r ?h2"
    using h1(2) n(6) by (intro sane_loop_prefix) simp
  moreover have "sane_loop (last_of 0 ys) r ?h2 = sane_loop r z ?h2"
    using h1(3) ne by (subst sane_loop.simps) simp
  moreover have "mem ?h2 z = Some zn" using h1(4) ne z by simp
  then have "sane_loop r z ?h2 = Some (Returns False, ?h2)"
    using z ne by (subst sane_loop.simps) auto
  ultimately show ?thesis by (auto simp: is_freelist_sane_def)
qed

subsection \<open>Growing the heap\<close>

definition fits_whole :: "size_t \<Rightarrow> size_t \<Rightarrow> bool" where
  "fits_whole sz l \<longleftrightarrow> sz \<le> l \<and> l < sz + sizeof_node"

lemma take_block:
  assumes fl: "flist h (ys @ [b])" and len: "sz \<le> blk_len h b"
    and bounds: "unat sz + 24 < 2 ^ 64" "unat b + 24 + unat (blk_len h b) < 2 ^ 64"
  shows "\<exists>h'. freelist_get_free_block b sz h = Some (Returns b, h') \<and> same_brk h h'
     \<and> (if fits_whole sz (blk_len h b)
        then flist h' ys \<and> mem h' b = Some \<lparr>n_prev = 0, n_next = 0, n_length = blk_len h b\<rparr>
             \<and> blocks h' ys = blocks h ys
        else flist h' (ys @ [b + sizeof_node + sz])
             \<and> mem h' b = Some \<lparr>n_prev = 0, n_next = 0, n_length = sz\<rparr>
             \<and> blocks h' (ys @ [b + sizeof_node + sz])
                 = blocks h ys @ [(b + sizeof_node + sz, blk_len h b - sz - sizeof_node)])"
proof -
  have d: "b \<notin> set ys" using flist_distinct [OF fl] by simp
  obtain n where n: "mem h b = Some n" "b \<noteq> 0" using seg_nonzero [OF flist_seg [OF fl], of b] by auto
  show ?thesis
  proof (cases "fits_whole sz (blk_len h b)")
    case True
    obtain h' where h': "take_whole b (blk_len h b) h = Some (Returns b, h')" "flist h' ys"
      "mem h' b = Some \<lparr>n_prev = 0, n_next = 0, n_length = blk_len h b\<rparr>"
      "\<forall>x. x \<noteq> b \<longrightarrow> blk_len h' x = blk_len h x" "same_brk h h'"
      using take_whole_spec [OF fl, of "blk_len h b"] by auto
    moreover have "blocks h' ys = blocks h ys" using h'(4) d by (auto intro!: blocks_cong)
    ultimately show ?thesis
      using True len get_free_block_here [OF n, of sz] by (auto simp: fits_whole_def not_le)
  next
    case False
    define r where "r = b + sizeof_node + sz"
    have l: "sz + sizeof_node \<le> blk_len h b" using False len by (simp add: fits_whole_def)
    then have r: "b < r" using user_addr_bounds(2) [OF bounds(2,1)] by (simp add: r_def)
    obtain h' where h': "take_split b sz h = Some (Returns b, h')" "flist h' (ys @ [r])"
      "mem h' b = Some \<lparr>n_prev = 0, n_next = 0, n_length = sz\<rparr>"
      "blk_len h' r = blk_len h b - sz - sizeof_node"
      "\<forall>x. x \<noteq> b \<longrightarrow> x \<noteq> r \<longrightarrow> blk_len h' x = blk_len h x" "same_brk h h'"
      using take_split_spec [OF fl l r_def r] by auto
    moreover have "r \<notin> set ys" using flist_distinct [OF h'(2)] by simp
    then have "blocks h' ys = blocks h ys" using h'(5) d by (auto intro!: blocks_cong)
    ultimately show ?thesis
      using False l get_free_block_here [OF n, of sz] by (auto simp: r_def)
  qed
qed

lemma insort_max: "(\<And>x. x \<in> set xs \<Longrightarrow> x < (b :: 'a :: linorder)) \<Longrightarrow> insort b xs = xs @ [b]"
  using insort_between [of xs b "[]"] by simp

lemma xmalloc_grow:
  assumes fl: "flist h xs" and small: "\<forall>x \<in> set xs. blk_len h x < sz"
    and a: "unat sz + 24 < 2 ^ 63" "brk_end h \<noteq> 0" "\<forall>x \<in> set xs. x < brk_end h" "brk_start h \<le> brk_end h"
    and room: "unat (brk_end h) + unat (alloc_size sz) \<le> unat (brk_limit h)"
  shows "\<exists>h'. xmalloc sz h = Some (Returns (user_addr (brk_end h)), h')
     \<and> brk_end h' = brk_end h + alloc_size sz
     \<and> (let l = alloc_size sz - sizeof_node in
        if fits_whole sz l
        then flist h' xs \<and> blocks h' xs = blocks h xs
             \<and> mem h' (brk_end h) = Some \<lparr>n_prev = 0, n_next = 0, n_length = l\<rparr>
        else flist h' (xs @ [brk_end h + sizeof_node + sz])
             \<and> mem h' (brk_end h) = Some \<lparr>n_prev = 0, n_next = 0, n_length = sz\<rparr>
             \<and> blocks h' (xs @ [brk_end h + sizeof_node + sz])
                 = blocks h xs @ [(brk_end h + sizeof_node + sz, l - sz - sizeof_node)])"
proof -
  let ?b = "brk_end h" and ?n = "alloc_size sz"
  have sz: "unat sz + 24 < 2 ^ 64" using a(1) by simp
  have usz: "unat (sz + 24) = unat sz + 24" using sz by (subst unat_plus_simple [THEN iffD1]) (auto simp: no_olen_add_nat)
  then have n: "unat ?n = max (unat sz + 24) 4096"
    by (simp add: alloc_size_def sizeof_node_def MIN_HEAP_ALLOC_SIZE_def max_def word_le_nat_alt)
  have lim: "unat (brk_limit h) < 2 ^ LENGTH(64)" by (rule unsigned_less)
  have e: "unat (?b + ?n) = unat ?b + unat ?n" using room lim by (subst unat_plus_simple [THEN iffD1]) (auto simp: no_olen_add_nat)
  have l: "unat (?n - sizeof_node) = unat ?n - 24" "sz \<le> ?n - sizeof_node"
  proof -
    show 1: "unat (?n - sizeof_node) = unat ?n - 24"
      using n by (subst unat_sub) (simp_all add: sizeof_node_def word_le_nat_alt)
    show "sz \<le> ?n - sizeof_node" using 1 n by (simp add: word_le_nat_alt)
  qed
  have "unat ?n < 2 ^ 63" using n a(1) by simp
  then have "int (unat ?n) < int (2 ^ 63)" by (simp only: of_nat_less_iff)
  moreover have "- (2 ^ 63) \<le> uint ?n" by (rule order_trans [OF _ uint_nonnegative]) simp
  ultimately have "sint ?n = uint ?n" by (simp add: sint_uint signed_take_bit_int_eq_self_iff)
  moreover have "uint (brk_start h) \<le> uint ?b + uint ?n"
    by (rule order_trans [OF a(4) [unfolded word_le_def]]) simp
  moreover have "int (unat ?b + unat ?n) \<le> int (unat (brk_limit h))" using room by (simp only: of_nat_le_iff)
  ultimately have sbrk: "sbrk ?n h = Some (Returns (Some ?b), set_brk (?b + ?n) h)"
    by (simp add: sbrk_def)
  have lt: "x < ?b + ?n" if "x \<le> ?b" for x
    using that e n by (simp add: word_less_nat_alt word_le_nat_alt)
  let ?node = "\<lparr>n_prev = 0, n_next = 0, n_length = ?n - sizeof_node\<rparr>"
  define h3 where "h3 = (set_brk (?b + ?n) h)\<lparr>mem := (mem (set_brk (?b + ?n) h))(?b \<mapsto> ?node)\<rparr>"
  have nb: "?b \<notin> set xs" using a(3) by blast
  have fl3: "flist h3 xs"
    using fl nb a(3) lt by (auto simp: flist_def h3_def set_brk_def less_imp_le intro: seg_frame)
  obtain h4 where h4: "freelist_insert ?b h3 = Some (Returns (), h4)" "flist h4 (xs @ [?b])" "links_only h3 h4"
    using freelist_insert_spec [OF fl3 nb a(2), of ?node] insort_max [of xs ?b] a(3) by (auto simp: h3_def)
  have len4: "blk_len h4 ?b = ?n - sizeof_node"
    using links_only_len [OF h4(3), of ?b] by (simp add: blk_len_def h3_def)
  have bl4: "blocks h4 xs = blocks h xs"
    using links_only_len [OF h4(3)] a(3) nb lt
    by (intro blocks_cong) (auto simp: blk_len_def h3_def set_brk_def less_imp_le)
  have b4: "brk_end h4 = ?b + ?n" using h4(3) by (simp add: links_only_def h3_def set_brk_def)
  have "unat ?b + 24 + unat (blk_len h4 ?b) < 2 ^ 64"
    using l n room lim by (simp add: len4)
  from take_block [OF h4(2) _ sz this] l(2) len4 obtain h' where
    h': "freelist_get_free_block ?b sz h4 = Some (Returns ?b, h')" "same_brk h4 h'"
    "if fits_whole sz (?n - sizeof_node)
     then flist h' xs \<and> mem h' ?b = Some ?node \<and> blocks h' xs = blocks h xs
     else flist h' (xs @ [?b + sizeof_node + sz]) \<and> mem h' ?b = Some \<lparr>n_prev = 0, n_next = 0, n_length = sz\<rparr>
          \<and> blocks h' (xs @ [?b + sizeof_node + sz])
              = blocks h xs @ [(?b + sizeof_node + sz, ?n - sizeof_node - sz - sizeof_node)]"
    unfolding len4 bl4 by auto
  have "freelist_get_free_block (FreeList h) sz h = Some (Returns 0, h)"
    using get_free_block_none [OF flist_seg [OF fl]] small too_small [OF _ sz] by blast
  then have "xmalloc sz h = Some (Returns (user_addr ?b), h')"
    using sbrk a(2) h4(1) h'(1)
    by (simp add: xmalloc_def hm_defs block_init_def h3_def set_brk_def)
  with h' b4 show ?thesis by (auto simp: same_brk_def Let_def)
qed

subsection \<open>Properties\<close>

definition empty_heap :: heap where
  "empty_heap = \<lparr>mem = Map.empty, FreeList = 0, brk_start = 4096, brk_end = 4096, brk_limit = 16777216, h_errno = 0\<rparr>"

definition node_at :: "size_t \<Rightarrow> size_t \<Rightarrow> size_t \<Rightarrow> freelist_node" where
  "node_at p n l = \<lparr>n_prev = p, n_next = n, n_length = l\<rparr>"

text \<open>Free blocks at 8192 and 16384, and an allocated block at 8316 that starts where the first one ends.\<close>

definition demo_heap :: heap where
  "demo_heap =
     \<lparr>mem = [8192 \<mapsto> node_at 0 16384 100, 8316 \<mapsto> node_at 0 0 200, 16384 \<mapsto> node_at 8192 0 3000],
      FreeList = 8192, brk_start = 4096, brk_end = 20480, brk_limit = 16777216, h_errno = 0\<rparr>"

lemma demo_flist: "flist demo_heap [8192, 16384]"
  by (simp add: flist_def demo_heap_def node_at_def)

text \<open>
  C23: \<open>freelist_insert\<close> keeps the free list doubly linked and ordered by address: a new block ends up at
  its place in the order, whether that is the front, the middle or the end, and the lengths of all
  blocks stay as they were.
\<close>

theorem freelist_insert_sorted:
  assumes "flist h xs" "b \<notin> set xs" "b \<noteq> 0" "mem h b = Some \<lparr>n_prev = 0, n_next = 0, n_length = l\<rparr>"
  shows "\<exists>h'. freelist_insert b h = Some (Returns (), h') \<and> flist h' (insort b xs)
            \<and> blocks h' xs = blocks h xs \<and> is_freelist_sane h' = Some (Returns True, h')"
proof -
  obtain h' where h': "freelist_insert b h = Some (Returns (), h')" "flist h' (insort b xs)" "links_only h h'"
    using freelist_insert_spec [OF assms] by auto
  have "sane_loop 0 (FreeList h') h' = sane_loop (last_of 0 (insort b xs)) 0 h'"
    by (rule sane_loop_prefix [OF flist_seg [OF h'(2)]])
  then have "is_freelist_sane h' = Some (Returns True, h')"
    by (simp add: is_freelist_sane_def sane_loop.simps [of _ 0])
  with h' links_only_blocks [OF h'(3)] show ?thesis by blast
qed

theorem freelist_insert_sorted_witness:
  "\<exists>h'. freelist_insert 8316 demo_heap = Some (Returns (), h') \<and> flist h' [8192, 8316, 16384]"
  using freelist_insert_sorted [OF demo_flist, of 8316 200] by (auto simp: demo_heap_def node_at_def)

text \<open>
  \<open>is_freelist_sane\<close> answers true exactly when the blocks reachable from \<open>FreeList\<close> form a list that
  is linked consistently in both directions and ends in the null pointer.
\<close>

theorem is_freelist_sane_iff:
  "(is_freelist_sane h = Some (Returns True, h)) = (\<exists>xs. seg (mem h) 0 (FreeList h) xs 0)"
proof
  assume "is_freelist_sane h = Some (Returns True, h)"
  then show "\<exists>xs. seg (mem h) 0 (FreeList h) xs 0"
    using sane_loop_sound [of 0 "FreeList h" h h] by (simp add: is_freelist_sane_def)
next
  assume "\<exists>xs. seg (mem h) 0 (FreeList h) xs 0"
  then obtain xs where "seg (mem h) 0 (FreeList h) xs 0" ..
  from sane_loop_prefix [OF this] show "is_freelist_sane h = Some (Returns True, h)"
    by (simp add: is_freelist_sane_def sane_loop.simps [of _ 0])
qed

text \<open>
  \<open>xmalloc\<close> with no large enough free block moves the break and returns a block at the old break with
  at least the requested room; what the minimal extension leaves over is appended to the free list,
  which stays well formed, with all other free blocks unchanged.
\<close>

theorem xmalloc_grows_heap:
  assumes "flist h xs" "\<forall>x \<in> set xs. blk_len h x < sz"
    and "unat sz + 24 < 2 ^ 63" "brk_end h \<noteq> 0" "\<forall>x \<in> set xs. x < brk_end h" "brk_start h \<le> brk_end h"
    and "unat (brk_end h) + unat (alloc_size sz) \<le> unat (brk_limit h)"
  shows "\<exists>h'. xmalloc sz h = Some (Returns (user_addr (brk_end h)), h')
     \<and> brk_end h' = brk_end h + alloc_size sz \<and> sz \<le> blk_len h' (brk_end h)
     \<and> (let l = alloc_size sz - sizeof_node; r = brk_end h + sizeof_node + sz in
        if fits_whole sz l then flist h' xs \<and> blocks h' xs = blocks h xs
        else flist h' (xs @ [r]) \<and> blocks h' (xs @ [r]) = blocks h xs @ [(r, l - sz - sizeof_node)])"
proof -
  from xmalloc_grow [OF assms] obtain h' where
    h': "xmalloc sz h = Some (Returns (user_addr (brk_end h)), h')" "brk_end h' = brk_end h + alloc_size sz"
    and r: "let l = alloc_size sz - sizeof_node in
        if fits_whole sz l
        then flist h' xs \<and> blocks h' xs = blocks h xs
             \<and> mem h' (brk_end h) = Some \<lparr>n_prev = 0, n_next = 0, n_length = l\<rparr>
        else flist h' (xs @ [brk_end h + sizeof_node + sz])
             \<and> mem h' (brk_end h) = Some \<lparr>n_prev = 0, n_next = 0, n_length = sz\<rparr>
             \<and> blocks h' (xs @ [brk_end h + sizeof_node + sz])
                 = blocks h xs @ [(brk_end h + sizeof_node + sz, l - sz - sizeof_node)]" by blast
  show ?thesis
  proof (cases "fits_whole sz (alloc_size sz - sizeof_node)")
    case True
    with h' r show ?thesis by (intro exI [of _ h']) (simp add: Let_def blk_len_def fits_whole_def)
  next
    case False
    with h' r show ?thesis by (intro exI [of _ h']) (simp add: Let_def blk_len_def)
  qed
qed

theorem xmalloc_grows_heap_witness:
  "\<exists>h'. xmalloc 1000 empty_heap = Some (Returns 4120, h') \<and> flist h' [5120] \<and> blocks h' [5120] = [(5120, 3048)]"
proof -
  have 1: "flist empty_heap []" "\<forall>x \<in> set []. blk_len empty_heap x < 1000" "unat (1000 :: size_t) + 24 < 2 ^ 63"
    "brk_end empty_heap \<noteq> 0" "\<forall>x \<in> set []. x < brk_end empty_heap" "brk_start empty_heap \<le> brk_end empty_heap"
    "unat (brk_end empty_heap) + unat (alloc_size 1000) \<le> unat (brk_limit empty_heap)"
    by (simp_all add: flist_def empty_heap_def alloc_size_def sizeof_node_def MIN_HEAP_ALLOC_SIZE_def max_def)
  show ?thesis
    using xmalloc_grows_heap [OF 1]
    by (auto simp: empty_heap_def alloc_size_def sizeof_node_def MIN_HEAP_ALLOC_SIZE_def max_def user_addr_def
        fits_whole_def Let_def)
qed

text \<open>
  C16: \<open>xfree\<close> implements the release of a block on lists of address and length ordered by address: the
  block is inserted and joined with both of its neighbours when they are adjacent.  If the last free
  block is then at least 8192 bytes long, it is dropped from the list and the break is moved down to
  it, so that nothing above it is mapped any more.
\<close>

theorem xfree_refines_release:
  assumes "flist h xs" "b \<notin> set xs" "b \<noteq> 0" "user_addr b \<noteq> 0"
    and "mem h b = Some \<lparr>n_prev = 0, n_next = 0, n_length = len\<rparr>"
    and "\<forall>x \<in> set (b # xs). brk_start h \<le> x \<and> x \<le> brk_limit h"
  shows "\<exists>h' ys. xfree (user_addr b) h = Some (Returns (), h') \<and> flist h' ys
     \<and> (let fs = release (b, len) (blocks h xs) in
        if snd (last fs) < MIN_HEAP_FREE_SIZE then blocks h' ys = fs \<and> brk_end h' = brk_end h
        else blocks h' ys = butlast fs \<and> brk_end h' = fst (last fs)
             \<and> (\<forall>x \<ge> fst (last fs). mem h' x = None))"
proof -
  let ?fs = "release (b, len) (blocks h xs)"
  obtain h1 ys where h1: "xfree (user_addr b) h = shrink_heap h1" "flist h1 ys" "blocks h1 ys = ?fs" "same_brk h h1"
    using xfree_merged [OF assms(1-5)] by blast
  have "blocks h1 ys \<noteq> []" unfolding h1(3) by simp
  then have "ys \<noteq> []" by simp
  then obtain us u where ys: "ys = us @ [u]" by (cases ys rule: rev_cases) auto
  with h1(3) have fs: "?fs = blocks h1 us @ [(u, blk_len h1 u)]" by simp
  show ?thesis
  proof (cases "blk_len h1 u < MIN_HEAP_FREE_SIZE")
    case True
    with h1 ys have "shrink_heap h1 = Some (Returns (), h1)" by (intro shrink_heap_keeps) auto
    with h1 True fs show ?thesis by (auto simp: same_brk_def)
  next
    case False
    have "u \<in> fst ` set ?fs" unfolding fs by simp
    then have "u \<in> set (b # xs)" using release_addrs [of "(b, len)" "blocks h xs"] by (auto simp: blocks_def)
    then have "brk_start h1 \<le> u" "u \<le> brk_limit h1" using assms(6) h1(4) by (auto simp: same_brk_def)
    with shrink_heap_shrinks [of h1 us u] False h1(2) ys obtain h' where
      "shrink_heap h1 = Some (Returns (), h')" "flist h' us" "blocks h' us = blocks h1 us" "brk_end h' = u"
      "\<forall>x \<ge> u. mem h' x = None" by (auto simp: not_less)
    with h1 False fs show ?thesis by (intro exI [of _ h'] exI [of _ us]) (auto simp: Let_def)
  qed
qed

theorem xfree_refines_release_witness:
  "\<exists>h' ys. xfree 8340 demo_heap = Some (Returns (), h') \<and> flist h' ys
     \<and> blocks h' ys = [(8192, 324), (16384, 3000)]"
proof -
  have "release (8316, 200) (blocks demo_heap [8192, 16384]) = [(8192, 324), (16384, 3000)]" by code_simp
  moreover have "mem demo_heap 8316 = Some \<lparr>n_prev = 0, n_next = 0, n_length = 200\<rparr>"
    "\<forall>x \<in> set [8316, 8192, 16384]. brk_start demo_heap \<le> x \<and> x \<le> brk_limit demo_heap"
    by (simp_all add: demo_heap_def node_at_def)
  ultimately show ?thesis
    using xfree_refines_release [OF demo_flist, of 8316 200]
    by (auto simp: user_addr_def sizeof_node_def MIN_HEAP_FREE_SIZE_def Let_def)
qed

text \<open>
  \<open>block_split\<close> does not update the back link of the block that follows: whenever \<open>xmalloc\<close> splits a
  free block that is not the last one in the list, \<open>is_freelist_sane\<close> answers false afterwards.
\<close>

theorem xmalloc_split_breaks_list:
  assumes "flist h (ys @ b # z # zs)" "\<forall>y \<in> set ys. blk_len h y < sz" "sz + sizeof_node \<le> blk_len h b"
    and "unat sz + 24 < 2 ^ 64" "unat b + 24 + unat (blk_len h b) \<le> unat z"
  shows "\<exists>h'. xmalloc sz h = Some (Returns (user_addr b), h') \<and> is_freelist_sane h' = Some (Returns False, h')"
  by (rule xmalloc_split_middle [OF assms])

theorem xmalloc_split_breaks_list_witness:
  "\<exists>h'. xmalloc 40 demo_heap = Some (Returns 8216, h') \<and> is_freelist_sane h' = Some (Returns False, h')"
proof -
  have "flist demo_heap ([] @ 8192 # 16384 # [])" using demo_flist by simp
  moreover have "40 + sizeof_node \<le> blk_len demo_heap 8192" "unat (40 :: size_t) + 24 < 2 ^ 64"
    "unat (8192 :: size_t) + 24 + unat (blk_len demo_heap 8192) \<le> unat (16384 :: size_t)"
    by (simp_all add: demo_heap_def node_at_def blk_len_def sizeof_node_def)
  ultimately show ?thesis
    using xmalloc_split_breaks_list [of demo_heap "[]" 8192 16384 "[]" 40] by (simp add: user_addr_def sizeof_node_def)
qed


text \<open>
  The size computations of \<open>xmalloc\<close> wrap around: when the free list has a block of 100 bytes, a
  request for \<open>SIZE_MAX\<close> bytes is granted from it.
\<close>

theorem xmalloc_size_wraps:
  "map_option fst (hbind (xmalloc (- 1)) (\<lambda>a h. Some (Returns (a, blk_len h (malloc_addr a)), h)) demo_heap)
     = Some (Returns (8216, - 1))"
  by code_simp

end
