(* ===== verification/Environ.thy ===== *)
theory Environ
  imports C_String
begin

text \<open>
  Environment variables: \<open>setenv\<close> and \<open>unsetenv\<close> of \<open>tlpi-dist/proc/setenv.c\<close> over the list of strings
  that \<open>environ\<close> points to, and \<open>xsetenv\<close> and \<open>xunsetenv\<close> of \<open>tlpi-solutions/ex06-3/setenv.c\<close>, which edit
  the strings in place, over a list of pointers and a store.  \<open>getenv\<close> and \<open>putenv\<close> are those of the C
  library.
\<close>

subsection \<open>The C library\<close>

fun getenv :: "string list \<Rightarrow> string \<Rightarrow> string option" where
  "getenv [] name = None"
| "getenv (e # es) name =
     (if has_prefix (name @ ''='') e then Some (drop (Suc (length name)) e) else getenv es name)"

text \<open>\<open>putenv\<close> replaces the first entry with the same name or adds the string at the end.\<close>

fun replace_first :: "('a \<Rightarrow> bool) \<Rightarrow> 'a \<Rightarrow> 'a list \<Rightarrow> 'a list" where
  "replace_first P y [] = [y]"
| "replace_first P y (x # xs) = (if P x then y # xs else x # replace_first P y xs)"

subsection \<open>proc/setenv.c\<close>

record env_state =
  environ :: "string list"
  env_errno :: errno

definition valid_name :: "string option \<Rightarrow> bool" where
  "valid_name name \<longleftrightarrow> (case name of None \<Rightarrow> False | Some n \<Rightarrow> n \<noteq> [] \<and> snd (split_at (CHR ''='') n) = None)"

definition names :: "string \<Rightarrow> string \<Rightarrow> bool" where
  "names n e \<longleftrightarrow> has_prefix n e \<and> length n < length e \<and> e ! length n = CHR ''=''"

text \<open>
  The scan of \<open>unsetenv\<close> at position \<open>i\<close>: a matching entry is removed by moving its successors one place
  down, and the position is examined again.
\<close>

function unset_loop :: "string \<Rightarrow> string list \<Rightarrow> nat \<Rightarrow> string list" where
  "unset_loop n env i =
     (if i < length env then
        if names n (env ! i) then unset_loop n (take i env @ drop (Suc i) env) i
        else unset_loop n env (Suc i)
      else env)"
  by pat_completeness auto
termination
  by (relation "measure (\<lambda>(n, env, i). length env - i)") auto

declare unset_loop.simps [simp del]

definition unsetenv :: "string option \<Rightarrow> env_state \<Rightarrow> int \<times> env_state" where
  "unsetenv name s =
     (if \<not> valid_name name then (-1, s\<lparr>env_errno := EINVAL\<rparr>)
      else (0, s\<lparr>environ := unset_loop (the name) (environ s) 0\<rparr>))"

text \<open>\<open>malloc_ok\<close> and \<open>putenv_ok\<close> say whether the two calls succeed.\<close>

definition setenv ::
    "bool \<Rightarrow> bool \<Rightarrow> string option \<Rightarrow> string option \<Rightarrow> int \<Rightarrow> env_state \<Rightarrow> int \<times> env_state" where
  "setenv malloc_ok putenv_ok name val overwrite s =
     (if \<not> valid_name name \<or> val = None then (-1, s\<lparr>env_errno := EINVAL\<rparr>)
      else if getenv (environ s) (the name) \<noteq> None \<and> overwrite = 0 then (0, s)
      else
        (let s = snd (unsetenv name s)
         in if \<not> malloc_ok then (-1, s\<lparr>env_errno := ENOMEM\<rparr>)
            else
              (let es = the name @ ''='' @ the val
               in if putenv_ok
                  then (0, s\<lparr>environ := replace_first (names (the name)) es (environ s)\<rparr>)
                  else (-1, s\<lparr>env_errno := ENOMEM\<rparr>))))"

subsection \<open>ex06-3/setenv.c\<close>

text \<open>
  Entries are pointers; \<open>chars\<close> gives the string stored at a pointer.  \<open>allocs\<close> is the number of
  allocations that will still succeed, \<open>fresh\<close> the next address that the allocator returns.
\<close>

record xenv =
  x_environ :: "nat list"
  chars :: "nat \<Rightarrow> string"
  EnvList :: "nat list option"
  EnvListCapacity :: nat
  fresh :: nat
  allocs :: nat
  x_errno :: errno

definition xgetenv :: "xenv \<Rightarrow> string \<Rightarrow> string option" where
  "xgetenv s name = getenv (map (chars s) (x_environ s)) name"

definition alloc :: "xenv \<Rightarrow> nat option \<times> xenv" where
  "alloc s = (if allocs s = 0 then (None, s) else (Some (fresh s), s\<lparr>fresh := Suc (fresh s), allocs := allocs s - 1\<rparr>))"

definition xunsetenv :: "string option \<Rightarrow> xenv \<Rightarrow> int \<times> xenv" where
  "xunsetenv name s =
     (if \<not> valid_name name then (-1, s\<lparr>x_errno := EINVAL\<rparr>)
      else (0, s\<lparr>chars := (\<lambda>p. if p \<in> set (x_environ s) \<and> has_prefix (the name) (chars s p) then [] else chars s p)\<rparr>))"

text \<open>
  \<open>putenv\<close> with a pointer; a string without \<open>=\<close> removes the variable of that name.
\<close>

definition xputenv :: "nat \<Rightarrow> xenv \<Rightarrow> xenv" where
  "xputenv p s =
     (let (n, v) = split_at (CHR ''='') (chars s p)
      in case v of
           None \<Rightarrow> s\<lparr>x_environ := filter (\<lambda>q. \<not> names n (chars s q)) (x_environ s)\<rparr>
         | Some _ \<Rightarrow> s\<lparr>x_environ := replace_first (\<lambda>q. names n (chars s q)) p (x_environ s)\<rparr>)"

text \<open>The variable is not set, or could not be changed in place: a new string is stored.\<close>

definition add_envvar :: "string \<Rightarrow> string \<Rightarrow> xenv \<Rightarrow> int outcome \<times> xenv" where
  "add_envvar name val s =
     (let (s, ok) = (case EnvList s of
                       Some l \<Rightarrow> (s, True)
                     | None \<Rightarrow> (case alloc s of
                                  (None, s) \<Rightarrow> (s\<lparr>x_errno := ENOMEM\<rparr>, False)
                                | (Some _, s) \<Rightarrow> (s\<lparr>EnvList := Some []\<rparr>, True)))
      in if \<not> ok then (Returns (-1), s)
         else
           (case alloc s of
              (None, s) \<Rightarrow> (Returns (-1), s\<lparr>x_errno := ENOMEM\<rparr>)
            | (Some envvar, s) \<Rightarrow>
                (let (s, ok) = (if length (the (EnvList s)) = EnvListCapacity s - 1
                                then (let s = s\<lparr>EnvListCapacity := 2 * EnvListCapacity s\<rparr>
                                      in case alloc s of
                                           (None, s) \<Rightarrow> (s\<lparr>EnvList := None, x_errno := ENOMEM\<rparr>, False)
                                         | (Some _, s) \<Rightarrow> (s, True))
                                else (s, True))
                 in if \<not> ok then (Returns (-1), s)
                    else
                      (let s = s\<lparr>EnvList := Some (the (EnvList s) @ [envvar]),
                                 chars := (chars s)(envvar := name @ ''='' @ val)\<rparr>
                       in (Returns 0, xputenv envvar s)))))"

text \<open>
  An existing variable is changed in the first entry whose string merely starts with the name.  When
  \<open>realloc\<close> fails, its null pointer is stored in the entry and ends the list there.
\<close>

definition change_entry :: "string \<Rightarrow> string \<Rightarrow> nat \<Rightarrow> xenv \<Rightarrow> int outcome \<times> xenv" where
  "change_entry name val p s =
     (let e = chars s p; patched = take (Suc (length name)) e @ val
      in case snd (split_at (CHR ''='') e) of
           None \<Rightarrow> (Undefined, s)
         | Some existing_value \<Rightarrow>
             if length val < length existing_value then (Returns 0, s\<lparr>chars := (chars s)(p := patched)\<rparr>)
             else
               (case EnvList s of
                  None \<Rightarrow> (Undefined, s)
                | Some l \<Rightarrow>
                    if p \<in> set l then
                      (case alloc s of
                         (None, s) \<Rightarrow>
                           (Returns (-1), s\<lparr>x_environ := takeWhile (\<lambda>q. q \<noteq> p) (x_environ s), x_errno := ENOMEM\<rparr>)
                       | (Some q, s) \<Rightarrow>
                           (Returns 0, xputenv q
                              (s\<lparr>x_environ := replace_first (\<lambda>r. r = p) q (x_environ s),
                                 EnvList := Some (replace_first (\<lambda>r. r = p) q l),
                                 chars := (chars s)(q := patched)\<rparr>)))
                    else add_envvar name val (snd (xunsetenv (Some name) s))))"

definition xsetenv :: "string option \<Rightarrow> string \<Rightarrow> int \<Rightarrow> xenv \<Rightarrow> int outcome \<times> xenv" where
  "xsetenv name val overwrite s =
     (if \<not> valid_name name then (Returns (-1), s\<lparr>x_errno := EINVAL\<rparr>)
      else
        (let n = the name; exists = xgetenv s n \<noteq> None
         in if exists \<and> overwrite = 0 then (Returns 0, s)
            else if exists then
              (case filter (\<lambda>p. has_prefix n (chars s p)) (x_environ s) of
                 [] \<Rightarrow> add_envvar n val s
               | p # _ \<Rightarrow> change_entry n val p s)
            else add_envvar n val s))"

subsection \<open>Lists of variables\<close>

lemma valid_name_iff: "valid_name (Some n) \<longleftrightarrow> n \<noteq> [] \<and> CHR ''='' \<notin> set n"
proof (cases "split_at (CHR ''='') n")
  case (Pair p r)
  then show ?thesis
    using split_at_None [of "CHR ''=''" n p] split_at_Some [of "CHR ''=''" n p] by (cases r) (auto simp: valid_name_def)
qed

lemma names_iff: "names n e \<longleftrightarrow> (\<exists>v. e = n @ CHR ''='' # v)"
proof
  assume "names n e"
  then obtain t where "e = n @ t" "t \<noteq> []" "hd t = CHR ''=''"
    by (auto simp: names_def has_prefix_iff nth_append hd_conv_nth)
  then show "\<exists>v. e = n @ CHR ''='' # v" by (cases t) auto
qed (auto simp: names_def)

lemma names_prefix: "has_prefix (n @ ''='') e \<longleftrightarrow> names n e"
  by (auto simp: names_iff has_prefix_iff)

declare getenv.simps(2) [simp del]

lemma getenv_Cons [simp]:
  "getenv (e # es) n = (if names n e then Some (drop (Suc (length n)) e) else getenv es n)"
  by (simp add: getenv.simps(2) names_prefix)

lemma getenv_None_iff: "getenv env n = None \<longleftrightarrow> (\<forall>e \<in> set env. \<not> names n e)"
  by (induction env) auto

lemma names_self [simp]: "names n (n @ CHR ''='' # v)"
  by (auto simp: names_iff)

lemma names_unique: "names n e \<Longrightarrow> names m e \<Longrightarrow> CHR ''='' \<notin> set n \<Longrightarrow> CHR ''='' \<notin> set m \<Longrightarrow> n = m"
  by (auto simp: names_iff) (metis prod.inject split_at_append)

lemma unset_loop_filter: "unset_loop n env i = take i env @ filter (\<lambda>e. \<not> names n e) (drop i env)"
proof (induction n env i rule: unset_loop.induct)
  case (1 n env i)
  show ?case
  proof (cases "i < length env")
    case True
    then have "drop i env = env ! i # drop (Suc i) env" by (simp add: Cons_nth_drop_Suc)
    with True 1 show ?thesis
      by (simp add: unset_loop.simps [of n env i] take_Suc_conv_app_nth)
  qed (simp add: unset_loop.simps [of n env i])
qed

lemma getenv_filter:
  assumes "CHR ''='' \<notin> set n" "CHR ''='' \<notin> set m"
  shows "getenv (filter (\<lambda>e. \<not> names n e) env) m = (if m = n then None else getenv env m)"
  using assms by (induction env) (auto dest: names_unique)

lemma getenv_append: "getenv (xs @ ys) m = (case getenv xs m of None \<Rightarrow> getenv ys m | Some v \<Rightarrow> Some v)"
  by (induction xs) auto

lemma replace_first_absent: "\<forall>x \<in> set xs. \<not> P x \<Longrightarrow> replace_first P y xs = xs @ [y]"
  by (induction xs) auto

lemma environ_setenv:
  assumes "valid_name (Some n)"
  shows "environ (snd (setenv True True (Some n) (Some v) 1 s)) =
    filter (\<lambda>e. \<not> names n e) (environ s) @ [n @ ''='' @ v]"
  using assms by (simp add: setenv_def unsetenv_def unset_loop_filter replace_first_absent)

lemma getenv_single: "getenv [n @ CHR ''='' # v] m = (if m = n then Some v else None)"
  if "CHR ''='' \<notin> set n" "CHR ''='' \<notin> set m"
  using that names_unique [of n "n @ CHR ''='' # v" m] by auto

subsection \<open>The environment as a map\<close>

text \<open>What users of the environment rely on.\<close>

locale env_map =
  fixes valid :: "string \<Rightarrow> bool"
    and lookup :: "'e \<Rightarrow> string \<Rightarrow> string option"
    and set_var :: "'e \<Rightarrow> string \<Rightarrow> string \<Rightarrow> 'e"
    and unset_var :: "'e \<Rightarrow> string \<Rightarrow> 'e"
  assumes lookup_set: "valid n \<Longrightarrow> valid m \<Longrightarrow> lookup (set_var e n v) m = (if m = n then Some v else lookup e m)"
    and lookup_unset: "valid n \<Longrightarrow> valid m \<Longrightarrow> lookup (unset_var e n) m = (if m = n then None else lookup e m)"
begin

lemma set_unset: "valid n \<Longrightarrow> valid m \<Longrightarrow> lookup (unset_var (set_var e n v) n) m = lookup (unset_var e n) m"
  by (simp add: lookup_set lookup_unset)

lemma set_twice: "valid n \<Longrightarrow> valid m \<Longrightarrow> lookup (set_var (set_var e n v) n w) m = lookup (set_var e n w) m"
  by (simp add: lookup_set)

lemma set_commute:
  "valid n \<Longrightarrow> valid k \<Longrightarrow> valid m \<Longrightarrow> n \<noteq> k \<Longrightarrow>
    lookup (set_var (set_var e n v) k w) m = lookup (set_var (set_var e k w) n v) m"
  by (simp add: lookup_set)

end

interpretation env: env_map "\<lambda>n. valid_name (Some n)" "\<lambda>s. getenv (environ s)"
  "\<lambda>s n v. snd (setenv True True (Some n) (Some v) 1 s)" "\<lambda>s n. snd (unsetenv (Some n) s)"
proof unfold_locales
  fix n m v s
  assume "valid_name (Some n)" "valid_name (Some m)"
  then show "getenv (environ (snd (setenv True True (Some n) (Some v) 1 s))) m =
      (if m = n then Some v else getenv (environ s) m)"
    by (auto simp: environ_setenv getenv_append getenv_filter valid_name_iff dest: names_unique [OF _ names_self]
        split: option.splits)
next
  fix n m s
  assume "valid_name (Some n)" "valid_name (Some m)"
  then show "getenv (environ (snd (unsetenv (Some n) s))) m = (if m = n then None else getenv (environ s) m)"
    by (simp add: unsetenv_def unset_loop_filter getenv_filter valid_name_iff)
qed

subsection \<open>Properties\<close>

text \<open>
  \<open>setenv\<close> with \<open>overwrite\<close> makes the variable have the new value, in exactly one entry, and leaves
  every other variable alone; without \<open>overwrite\<close> it changes nothing if the variable exists.
\<close>

theorem setenv_sets:
  assumes "valid_name (Some n)" "valid_name (Some m)"
  shows "getenv (environ (snd (setenv True True (Some n) (Some v) 1 s))) m
           = (if m = n then Some v else getenv (environ s) m)
     \<and> fst (setenv True True (Some n) (Some v) 1 s) = 0
     \<and> filter (names n) (environ (snd (setenv True True (Some n) (Some v) 1 s))) = [n @ ''='' @ v]
     \<and> (getenv (environ s) n \<noteq> None \<longrightarrow> setenv True True (Some n) (Some v) 0 s = (0, s))"
proof -
  have "filter (names n) (filter (\<lambda>e. \<not> names n e) env) = []" for env
    by (induction env) auto
  then show ?thesis
    using env.lookup_set [OF assms] assms by (simp add: environ_setenv) (simp add: setenv_def Let_def)
qed

theorem setenv_sets_witness:
  "getenv (environ (snd (setenv True True (Some ''A'') (Some ''1'') 1 \<lparr>environ = [''AB=x'', ''A=y'', ''A=z''], env_errno = 0\<rparr>))) ''AB''
     = Some ''x''"
  using setenv_sets [of "''A''" "''AB''" "''1''" "\<lparr>environ = [''AB=x'', ''A=y'', ''A=z''], env_errno = 0\<rparr>"]
  by (simp add: valid_name_iff names_def)

text \<open>
  \<open>unsetenv\<close> removes every definition of the variable and keeps all other entries in their order; a
  name that is null, empty or contains \<open>=\<close> is refused with \<open>EINVAL\<close> and changes nothing.
\<close>

theorem unsetenv_removes:
  "unsetenv name s =
     (case name of
        Some n \<Rightarrow> if n \<noteq> [] \<and> CHR ''='' \<notin> set n
                  then (0, s\<lparr>environ := filter (\<lambda>e. \<not> (\<exists>v. e = n @ ''='' @ v)) (environ s)\<rparr>)
                  else (-1, s\<lparr>env_errno := EINVAL\<rparr>)
      | None \<Rightarrow> (-1, s\<lparr>env_errno := EINVAL\<rparr>))"
  by (auto simp: unsetenv_def unset_loop_filter names_iff valid_name_iff [symmetric] split: option.splits)
    (auto simp: valid_name_def)

text \<open>
  \<open>xunsetenv\<close> compares only the length of the name: every variable whose name starts with the given
  name is wiped out as well.
\<close>

theorem xunsetenv_wipes_prefixes:
  assumes "valid_name (Some n)" "p \<in> set (x_environ s)" "chars s p = n @ rest"
  shows "chars (snd (xunsetenv (Some n) s)) p = [] \<and> fst (xunsetenv (Some n) s) = 0"
  using assms by (simp add: xunsetenv_def)

definition demo_env :: xenv where
  "demo_env = \<lparr>x_environ = [1, 2], chars = (\<lambda>p. if p = 1 then ''FOO=bar'' else if p = 2 then ''FOOBAR=x'' else []),
     EnvList = None, EnvListCapacity = 1024, fresh = 3, allocs = 100, x_errno = 0\<rparr>"

theorem xunsetenv_wipes_prefixes_witness:
  "xgetenv demo_env ''FOOBAR'' = Some ''x'' \<and> xgetenv (snd (xunsetenv (Some ''FOO'') demo_env)) ''FOOBAR'' = None
   \<and> chars (snd (xunsetenv (Some ''FOO'') demo_env)) 2 = []"
proof -
  have "valid_name (Some ''FOO'')" by (simp add: valid_name_iff)
  moreover have "2 \<in> set (x_environ demo_env)" "chars demo_env 2 = ''FOO'' @ ''BAR=x''" by (simp_all add: demo_env_def)
  moreover have "xgetenv demo_env ''FOOBAR'' = Some ''x'' \<and> xgetenv (snd (xunsetenv (Some ''FOO'') demo_env)) ''FOOBAR'' = None"
    by code_simp
  ultimately show ?thesis using xunsetenv_wipes_prefixes [of "''FOO''" 2 demo_env "''BAR=x''"] by blast
qed

text \<open>
  Overwriting a variable that \<open>xsetenv\<close> did not create itself with a value that is not shorter
  dereferences the null pointer \<open>EnvList\<close> as long as \<open>xsetenv\<close> has not created any variable.
\<close>

theorem xsetenv_null_list:
  assumes "valid_name (Some n)" "filter (\<lambda>p. has_prefix n (chars s p)) (x_environ s) = p # ps"
    and "chars s p = n @ ''='' @ old" "length old \<le> length v" "EnvList s = None"
  shows "xsetenv (Some n) v 1 s = (Undefined, s)"
proof -
  have "p \<in> set (filter (\<lambda>p. has_prefix n (chars s p)) (x_environ s))" unfolding assms(2) by simp
  moreover have "names n (chars s p)" using assms(3) by simp
  ultimately have "xgetenv s n \<noteq> None" by (auto simp: xgetenv_def getenv_None_iff)
  with assms show ?thesis
    by (simp add: xsetenv_def change_entry_def valid_name_iff split_at_append)
qed

theorem xsetenv_null_list_witness: "xsetenv (Some ''FOO'') ''longer'' 1 demo_env = (Undefined, demo_env)"
  by (rule xsetenv_null_list [of _ _ 1 "[2]" "''bar''"]) (auto simp: valid_name_iff demo_env_def)

text \<open>
  Setting a variable that is not in the environment works: \<open>xsetenv\<close> returns 0, the variable has the
  value, and all other variables keep theirs.
\<close>

theorem xsetenv_new_variable:
  assumes "valid_name (Some n)" "valid_name (Some m)" "xgetenv s n = None"
    and "2 < allocs s" "\<forall>p \<in> set (x_environ s). p < fresh s" "1 < EnvListCapacity s"
  shows "\<exists>t. xsetenv (Some n) v ow s = (Returns 0, t)
     \<and> xgetenv t m = (if m = n then Some v else xgetenv s m)"
proof -
  have old: "\<forall>p \<in> set (x_environ s). \<not> names n (chars s p)"
    using assms(3) by (simp add: xgetenv_def getenv_None_iff)
  have new: "replace_first (\<lambda>q. q \<noteq> f \<longrightarrow> names n (chars s q)) f (x_environ s) = x_environ s @ [f]"
    if "fresh s \<le> f" for f
    using that assms(5) old by (intro replace_first_absent) auto
  have "\<exists>t q. add_envvar n v s = (Returns 0, t) \<and> x_environ t = x_environ s @ [q] \<and> q \<ge> fresh s
      \<and> chars t = (chars s)(q := n @ ''='' @ v)"
    using assms
    by (auto simp: add_envvar_def alloc_def xputenv_def split_at_append valid_name_iff Let_def new
        split: option.splits)
  then obtain t q where t: "add_envvar n v s = (Returns 0, t)" "x_environ t = x_environ s @ [q]" "q \<ge> fresh s"
    "chars t = (chars s)(q := n @ ''='' @ v)" by blast
  have "map (chars t) (x_environ t) = map (chars s) (x_environ s) @ [n @ CHR ''='' # v]"
    using t assms(5) by fastforce
  then have "xgetenv t m = (if m = n then Some v else xgetenv s m)"
    using assms(1-3) by (auto simp: xgetenv_def getenv_append valid_name_iff dest: names_unique [OF _ names_self]
        split: option.splits)
  with t(1) assms show ?thesis by (auto simp: xsetenv_def)
qed

theorem xsetenv_new_variable_witness:
  "\<exists>t. xsetenv (Some ''HOME'') ''/root'' 0 demo_env = (Returns 0, t) \<and> xgetenv t ''FOO'' = Some ''bar''"
proof -
  have "valid_name (Some ''HOME'')" "valid_name (Some ''FOO'')" "xgetenv demo_env ''HOME'' = None" "2 < allocs demo_env"
    "\<forall>p \<in> set (x_environ demo_env). p < fresh demo_env" "1 < EnvListCapacity demo_env" "xgetenv demo_env ''FOO'' = Some ''bar''"
    by (simp_all add: valid_name_iff demo_env_def xgetenv_def names_def)
  then show ?thesis using xsetenv_new_variable [of "''HOME''" "''FOO''" demo_env "''/root''" 0] by auto
qed

end
