(* ===== verification/Users.thy ===== *)
theory Users
  imports C_String
begin

text \<open>
  User and group names and process credentials: \<open>tlpi-dist/users_groups/ugid_functions.c\<close>, and the
  exercises \<open>ex08-2/getpwnam.c\<close>, \<open>ex09-3/initgroups.c\<close> and \<open>ex12-1/proclist.c\<close>.  The password and group
  files, the calls that change credentials and the contents of \<open>/proc\<close> are parameters.  User and
  group IDs are 32-bit words.
\<close>

type_synonym id_t = "32 word"

record passwd =
  pw_name :: string
  pw_uid :: id_t
  pw_gid :: id_t

record group =
  gr_name :: string
  gr_gid :: id_t
  gr_mem :: "string list"

record user_db =
  getpwnam :: "string \<Rightarrow> passwd option"
  getpwuid :: "id_t \<Rightarrow> passwd option"
  getgrnam :: "string \<Rightarrow> group option"
  getgrgid :: "id_t \<Rightarrow> group option"

subsection \<open>ugid\_functions.c\<close>

definition userNameFromId :: "user_db \<Rightarrow> id_t \<Rightarrow> string option" where
  "userNameFromId db uid = (case getpwuid db uid of None \<Rightarrow> None | Some pwd \<Rightarrow> Some (pw_name pwd))"

definition userIdFromName :: "user_db \<Rightarrow> string option \<Rightarrow> id_t" where
  "userIdFromName db name =
     (case name of
        None \<Rightarrow> - 1
      | Some n \<Rightarrow>
          if n = [] then - 1
          else
            (let (v, endptr, _) = strtol 10 n
             in if endptr = [] then word_of_int v
                else (case getpwnam db n of None \<Rightarrow> - 1 | Some pwd \<Rightarrow> pw_uid pwd)))"

definition groupNameFromId :: "user_db \<Rightarrow> id_t \<Rightarrow> string option" where
  "groupNameFromId db gid = (case getgrgid db gid of None \<Rightarrow> None | Some grp \<Rightarrow> Some (gr_name grp))"

definition groupIdFromName :: "user_db \<Rightarrow> string option \<Rightarrow> id_t" where
  "groupIdFromName db name =
     (case name of
        None \<Rightarrow> - 1
      | Some n \<Rightarrow>
          if n = [] then - 1
          else
            (let (v, endptr, _) = strtol 10 n
             in if endptr = [] then word_of_int v
                else (case getgrnam db n of None \<Rightarrow> - 1 | Some grp \<Rightarrow> gr_gid grp)))"

subsection \<open>ex08-2/getpwnam.c\<close>

text \<open>
  \<open>entries\<close> are the entries that \<open>getpwent\<close> returns after \<open>setpwent\<close>, each with the value that the call
  leaves in \<open>errno\<close>; \<open>at_end\<close> is the effect on \<open>errno\<close> of the call that returns the null pointer.
\<close>

fun xgetpwnam_loop ::
    "(passwd \<times> errno) list \<Rightarrow> (errno \<Rightarrow> errno) \<Rightarrow> string \<Rightarrow> errno \<Rightarrow> errno \<Rightarrow> passwd option \<times> errno" where
  "xgetpwnam_loop [] at_end name save e = (None, at_end e)"
| "xgetpwnam_loop ((entry, clobbered) # es) at_end name save e =
     (let e = clobbered; e = save
      in if pw_name entry = name then (Some entry, save) else xgetpwnam_loop es at_end name save e)"

definition xgetpwnam ::
    "(passwd \<times> errno) list \<Rightarrow> (errno \<Rightarrow> errno) \<Rightarrow> string \<Rightarrow> errno \<Rightarrow> passwd option \<times> errno" where
  "xgetpwnam entries at_end name e = xgetpwnam_loop entries at_end name e e"

definition getpwnam_main ::
    "(passwd \<times> errno) list \<Rightarrow> (errno \<Rightarrow> errno) \<Rightarrow> string list \<Rightarrow> int outcome \<times> string" where
  "getpwnam_main entries at_end argv =
     (case argv of
        _ # user # _ \<Rightarrow>
          (case xgetpwnam entries at_end user 0 of
             (None, e) \<Rightarrow> (Exits 1, [])
           | (Some entry, e) \<Rightarrow>
               (Returns 0, ''UID of user `'' @ user @ [CHR 0x27] @ '' is ''
                             @ show_int (sint (pw_uid entry)) @ ''\<newline>''))
      | _ \<Rightarrow> (Exits 1, []))"

subsection \<open>ex09-3/initgroups.c\<close>

record creds =
  ruid :: id_t
  euid :: id_t
  suid :: id_t
  sup_groups :: "id_t list"

record cred_sys =
  k_seteuid :: "id_t \<Rightarrow> creds \<Rightarrow> creds option"
  k_setgroups :: "id_t list \<Rightarrow> creds \<Rightarrow> creds option"

definition NGROUPS_MAX :: nat where "NGROUPS_MAX = 65536"

definition member_gids :: "group list \<Rightarrow> string \<Rightarrow> id_t list" where
  "member_gids grps user =
     concat (map (\<lambda>g. map (\<lambda>_. gr_gid g) (filter (\<lambda>m. m = user) (gr_mem g))) grps)"

definition seteuid_or_keep :: "cred_sys \<Rightarrow> id_t \<Rightarrow> creds \<Rightarrow> creds" where
  "seteuid_or_keep k u c = (case k_seteuid k u c of None \<Rightarrow> c | Some c' \<Rightarrow> c')"

text \<open>The group array has room for \<open>NGROUPS_MAX + 1\<close> entries; more of them are written beyond its end.\<close>

definition xinitgroups ::
    "cred_sys \<Rightarrow> bool \<Rightarrow> group list \<Rightarrow> string \<Rightarrow> id_t \<Rightarrow> creds \<Rightarrow> int outcome \<times> creds" where
  "xinitgroups k malloc_ok grps user grp c =
     (if \<not> malloc_ok then (Returns (-1), c)
      else
        (let groups = member_gids grps user @ [grp]
         in if length groups > NGROUPS_MAX + 1 then (Undefined, c)
            else
              (case (if euid c \<noteq> 0 then k_seteuid k 0 c else Some c) of
                 None \<Rightarrow> (Returns (-1), c)
               | Some c1 \<Rightarrow>
                   (case k_setgroups k groups c1 of
                      None \<Rightarrow> (Returns (-1), c1)
                    | Some c2 \<Rightarrow> (Returns 0, seteuid_or_keep k (euid c) c2)))))"

definition initgroups_main ::
    "cred_sys \<Rightarrow> bool \<Rightarrow> group list \<Rightarrow> user_db \<Rightarrow> string list \<Rightarrow> creds \<Rightarrow> int outcome \<times> creds" where
  "initgroups_main k malloc_ok grps db argv c =
     (let c = (if euid c = 0 then
                 if ruid c \<noteq> 0 then seteuid_or_keep k (ruid c) c
                 else if suid c \<noteq> 0 then seteuid_or_keep k (suid c) c else c
               else c)
      in case argv of
           _ # user # _ \<Rightarrow>
             (case getpwnam db user of
                None \<Rightarrow> (Exits 1, c)
              | Some info \<Rightarrow>
                  (case xinitgroups k malloc_ok grps user (pw_gid info) c of
                     (Returns r, c) \<Rightarrow> (if r < 0 then Exits 1 else Returns 0, c)
                   | res \<Rightarrow> res))
         | _ \<Rightarrow> (Exits 1, c))"

subsection \<open>ex12-1/proclist.c\<close>

text \<open>\<open>sscanf(line, "Name: %s", buf)\<close> and \<open>sscanf(line, "Uid: %u", &u)\<close>: the literal, white space, the datum.\<close>

definition scan_word :: "nat \<Rightarrow> string \<Rightarrow> string option" where
  "scan_word n line =
     (let w = takeWhile (\<lambda>c. \<not> isspace c) (dropWhile isspace (drop n line)) in if w = [] then None else Some w)"

definition scan_num :: "nat \<Rightarrow> string \<Rightarrow> int option" where
  "scan_num n line =
     (let (v, rest, _) = strtol 10 (drop n line) in if rest = drop n line then None else Some v)"

text \<open>
  The lines of one status file.  \<open>name\<close> is the current content of the buffer, \<^const>\<open>None\<close> while it is
  uninitialised, as is the result of a failed conversion.
\<close>

fun proclist_lines :: "id_t \<Rightarrow> string option \<Rightarrow> string list \<Rightarrow> string \<Rightarrow> unit outcome \<times> string" where
  "proclist_lines uid name [] out = (Returns (), out)"
| "proclist_lines uid name (line # ls) out =
     (if has_prefix ''Name:'' line then
        proclist_lines uid (case scan_word 5 line of None \<Rightarrow> name | Some w \<Rightarrow> Some w) ls out
      else if has_prefix ''Uid:'' line then
        (case scan_num 4 line of
           None \<Rightarrow> (Undefined, out)
         | Some v \<Rightarrow>
             if word_of_int v = uid then
               (case name of None \<Rightarrow> (Undefined, out) | Some n \<Rightarrow> proclist_lines uid name ls (out @ n @ ''\<newline>''))
             else proclist_lines uid name ls out)
      else proclist_lines uid name ls out)"

text \<open>
  \<open>dir\<close> lists the names in \<open>/proc\<close>; \<open>status pid\<close> gives the lines of \<open>/proc/pid/status\<close>, or \<^const>\<open>None\<close> when
  the process has exited.
\<close>

fun proclist_dirs :: "(int \<Rightarrow> string list option) \<Rightarrow> id_t \<Rightarrow> string list \<Rightarrow> string \<Rightarrow> unit outcome \<times> string" where
  "proclist_dirs status uid [] out = (Returns (), out)"
| "proclist_dirs status uid (d # ds) out =
     (if d = [] \<or> \<not> isdigit (hd d) then proclist_dirs status uid ds out
      else
        (case status (atoi d) of
           None \<Rightarrow> proclist_dirs status uid ds out
         | Some ls \<Rightarrow> andthen (proclist_lines uid None ls out) (\<lambda>_ out. proclist_dirs status uid ds out)))"

definition proclist_main ::
    "user_db \<Rightarrow> id_t \<Rightarrow> (int \<Rightarrow> string list option) \<Rightarrow> string list \<Rightarrow> string option \<Rightarrow> int outcome \<times> string" where
  "proclist_main db me status dir arg =
     (case (case arg of None \<Rightarrow> Some me
            | Some u \<Rightarrow> (case getpwnam db u of None \<Rightarrow> None | Some p \<Rightarrow> Some (pw_uid p))) of
        None \<Rightarrow> (Exits 1, [])
      | Some uid \<Rightarrow> andthen (proclist_dirs status uid dir []) (\<lambda>_ out. (Returns 0, out)))"

subsection \<open>Properties\<close>

text \<open>
  A numeric user or group name denotes the number itself, for every 32-bit ID but also, reduced
  modulo \<open>2 ^ 32\<close>, for every other \<open>long\<close>: the name \<open>4294967296\<close> is taken for the superuser.
\<close>

theorem numeric_ids:
  assumes "LONG_MIN \<le> i" "i \<le> LONG_MAX"
  shows "userIdFromName db (Some (show_int i)) = word_of_int i
     \<and> groupIdFromName db (Some (show_int i)) = word_of_int i
     \<and> userIdFromName db (Some (show_int (uint u))) = u
     \<and> userIdFromName db (Some (show_int 4294967296)) = 0"
proof -
  have "uint u < 2 ^ LENGTH(32)" for u :: id_t by (rule unsigned_less)
  then have "uint u \<le> LONG_MAX" for u :: id_t by (rule order_trans [OF less_imp_le]) (simp add: c_limits)
  moreover have "LONG_MIN \<le> uint u" for u :: id_t by (rule order_trans [of _ 0]) (simp_all add: c_limits)
  moreover have "LONG_MIN \<le> 4294967296" "4294967296 \<le> LONG_MAX" by (simp_all add: c_limits)
  ultimately show ?thesis
    using assms strtol_show_int [of _ "[]"] by (simp add: userIdFromName_def groupIdFromName_def)
qed

theorem numeric_ids_witness:
  "userIdFromName \<lparr>getpwnam = Map.empty, getpwuid = Map.empty, getgrnam = Map.empty, getgrgid = Map.empty\<rparr>
     (Some (show_int 1000)) = 1000"
proof -
  have "LONG_MIN \<le> 1000" "1000 \<le> LONG_MAX" by (simp_all add: c_limits)
  from numeric_ids [OF this, of "\<lparr>getpwnam = Map.empty, getpwuid = Map.empty, getgrnam = Map.empty, getgrgid = Map.empty\<rparr>" 0]
  show ?thesis by simp
qed

lemma xgetpwnam_loop_spec:
  "xgetpwnam_loop entries at_end name e e =
     (case find (\<lambda>p. pw_name p = name) (map fst entries) of
        Some p \<Rightarrow> (Some p, e)
      | None \<Rightarrow> (None, at_end e))"
  by (induction entries) auto

text \<open>
  \<open>xgetpwnam\<close> returns the first entry with the name, with \<open>errno\<close> as it was before the call whatever
  \<open>getpwent\<close> did to it; when there is no such entry it returns the null pointer, and \<open>errno\<close> has
  changed only if the final \<open>getpwent\<close> changed it.
\<close>

theorem xgetpwnam_preserves_errno:
  "xgetpwnam entries at_end name e =
     (case find (\<lambda>p. pw_name p = name) (map fst entries) of
        Some p \<Rightarrow> (Some p, e)
      | None \<Rightarrow> (None, at_end e))"
  by (simp add: xgetpwnam_def xgetpwnam_loop_spec)

text \<open>Documented behaviour of the two calls: what they change when they succeed.\<close>

definition cred_laws :: "cred_sys \<Rightarrow> bool" where
  "cred_laws k \<longleftrightarrow>
     (\<forall>u c c'. k_seteuid k u c = Some c' \<longrightarrow> c' = c\<lparr>euid := u\<rparr>)
     \<and> (\<forall>g c c'. k_setgroups k g c = Some c' \<longrightarrow> c' = c\<lparr>sup_groups := g\<rparr>)"

text \<open>
  When \<open>xinitgroups\<close> returns 0, the supplementary groups are exactly the groups that list the user as
  a member, followed by the given group, and when the effective user ID may be reset it is what it
  was.  When \<open>setgroups\<close> fails, the function returns \<open>-1\<close> without resetting it: a caller that was not
  privileged stays privileged.
\<close>

theorem xinitgroups_groups:
  assumes "cred_laws k" "length (member_gids grps user) \<le> NGROUPS_MAX"
    and "euid c \<noteq> 0" "k_seteuid k 0 c = Some c1" "k_seteuid k (euid c) c2 \<noteq> None"
    and "c2 = c1\<lparr>sup_groups := member_gids grps user @ [grp]\<rparr>"
  shows "case k_setgroups k (member_gids grps user @ [grp]) c1 of
       Some _ \<Rightarrow> xinitgroups k True grps user grp c
                  = (Returns 0, c\<lparr>sup_groups := member_gids grps user @ [grp]\<rparr>)
     | None \<Rightarrow> xinitgroups k True grps user grp c = (Returns (-1), c\<lparr>euid := 0\<rparr>)"
proof -
  have c1: "c1 = c\<lparr>euid := 0\<rparr>" using assms(1,4) by (auto simp: cred_laws_def)
  show ?thesis
  proof (cases "k_setgroups k (member_gids grps user @ [grp]) c1")
    case None
    with assms c1 show ?thesis by (simp add: xinitgroups_def)
  next
    case (Some c')
    then have c': "c' = c2" using assms(1,6) unfolding cred_laws_def by blast
    obtain c3 where e: "k_seteuid k (euid c) c2 = Some c3" using assms(5) by auto
    then have "c3 = c2\<lparr>euid := euid c\<rparr>" using assms(1) unfolding cred_laws_def by blast
    with c' e show ?thesis
      using assms(2-4,6) Some c1 by (simp add: xinitgroups_def seteuid_or_keep_def)
  qed
qed

text \<open>The kernel's rule for unprivileged processes, with \<open>setgroups\<close> reserved to the superuser.\<close>

definition linux_creds :: cred_sys where
  "linux_creds =
     \<lparr>k_seteuid = (\<lambda>u c. if euid c = 0 \<or> u = ruid c \<or> u = suid c then Some (c\<lparr>euid := u\<rparr>) else None),
      k_setgroups = (\<lambda>g c. if euid c = 0 then Some (c\<lparr>sup_groups := g\<rparr>) else None)\<rparr>"

theorem xinitgroups_groups_witness:
  "xinitgroups linux_creds True [\<lparr>gr_name = ''wheel'', gr_gid = 10, gr_mem = [''ann'', ''bob'']\<rparr>,
       \<lparr>gr_name = ''dev'', gr_gid = 20, gr_mem = [''bob'']\<rparr>] ''bob'' 100 \<lparr>ruid = 1000, euid = 1000, suid = 0, sup_groups = []\<rparr>
     = (Returns 0, \<lparr>ruid = 1000, euid = 1000, suid = 0, sup_groups = [10, 20, 100]\<rparr>)"
proof -
  let ?c = "\<lparr>ruid = 1000, euid = 1000, suid = 0, sup_groups = []\<rparr> :: creds"
  let ?g = "[\<lparr>gr_name = ''wheel'', gr_gid = 10, gr_mem = [''ann'', ''bob'']\<rparr>,
       \<lparr>gr_name = ''dev'', gr_gid = 20, gr_mem = [''bob'']\<rparr>] :: group list"
  have laws: "cred_laws linux_creds" by (auto simp: cred_laws_def linux_creds_def split: if_splits)
  have mem: "member_gids ?g ''bob'' = [10, 20]" by (simp add: member_gids_def)
  show ?thesis
    using xinitgroups_groups [OF laws, of ?g "''bob''" ?c "?c\<lparr>euid := 0\<rparr>"
        "?c\<lparr>euid := 0, sup_groups := [10, 20, 100]\<rparr>" 100]
    by (simp add: mem linux_creds_def NGROUPS_MAX_def)
qed

end
