(* ===== verification/Acl.thy ===== *)
theory Acl
  imports Users "HOL-Library.Multiset"
begin

text \<open>
  The program \<open>tlpi-dist/acl/acl_update.c\<close>: parsing of ACL specifications, and modification and removal
  of the entries of a file's ACL.  The ACL library is a parameter: \<open>entries\<close> is what iterating with
  \<open>acl_get_entry\<close> delivers, in that order, and an entry is named by its position in it.
\<close>

unbundle bit_operations_syntax

subsection \<open>Data\<close>

datatype acl_tag = ACL_USER_OBJ | ACL_USER | ACL_GROUP_OBJ | ACL_GROUP | ACL_MASK | ACL_OTHER

record AccessControlEntry =
  tag :: acl_tag
  qual :: id_t
  perms :: int

datatype operation = unspecifiedOp | modifyEntries | removeEntries | removeDefaultACL | checkValidACL

definition ACL_READ :: int where "ACL_READ = 4"
definition ACL_WRITE :: int where "ACL_WRITE = 2"
definition ACL_EXECUTE :: int where "ACL_EXECUTE = 1"
definition MAX_ENTRIES :: nat where "MAX_ENTRIES = 10000"

subsection \<open>Parsing\<close>

fun parsePerms :: "string \<Rightarrow> int \<Rightarrow> string + int" where
  "parsePerms [] acc = Inr acc"
| "parsePerms (c # cs) acc =
     (if c = CHR ''r'' then parsePerms cs (acc OR ACL_READ)
      else if c = CHR ''w'' then parsePerms cs (acc OR ACL_WRITE)
      else if c = CHR ''x'' then parsePerms cs (acc OR ACL_EXECUTE)
      else if c \<noteq> CHR ''-'' then Inl (''Bad character in permissions string: '' @ [c])
      else parsePerms cs acc)"

definition parseTag :: "string \<Rightarrow> bool \<Rightarrow> string + acl_tag" where
  "parseTag t hasQual =
     (if t = ''u'' \<or> t = ''user'' then Inr (if hasQual then ACL_USER else ACL_USER_OBJ)
      else if t = ''g'' \<or> t = ''group'' then Inr (if hasQual then ACL_GROUP else ACL_GROUP_OBJ)
      else if t = ''o'' \<or> t = ''other'' then Inr ACL_OTHER
      else if t = ''m'' \<or> t = ''mask'' then Inr ACL_MASK
      else Inl (''Bad tag: '' @ t))"

definition parseQual :: "user_db \<Rightarrow> acl_tag \<Rightarrow> string \<Rightarrow> string + id_t" where
  "parseQual db t q =
     (if t = ACL_USER then
        (if userIdFromName db (Some q) = - 1 then Inl (''Bad user ID: '' @ q) else Inr (userIdFromName db (Some q)))
      else if t = ACL_GROUP then
        (if groupIdFromName db (Some q) = - 1 then Inl (''Bad group ID: '' @ q) else Inr (groupIdFromName db (Some q)))
      else Inr 0)"

text \<open>
  \<open>old\<close> is what the slot of the array held before: without permissions in the text the field \<open>perms\<close> is
  not assigned.
\<close>

definition parseEntrySpec ::
    "user_db \<Rightarrow> int \<Rightarrow> bool \<Rightarrow> string \<Rightarrow> string + AccessControlEntry" where
  "parseEntrySpec db old permsReqd entryStr =
     (case split_at (CHR '':'') entryStr of
        (_, None) \<Rightarrow> Inl (''Missing initial colon in ACL entry: '' @ entryStr)
      | (tagStr, Some rest) \<Rightarrow>
          (let hasQual = (rest \<noteq> [] \<and> hd rest \<noteq> CHR '':'');
               (q, p) = split_at (CHR '':'') rest;
               hasPerms = (case p of None \<Rightarrow> False | Some ps \<Rightarrow> ps \<noteq> [])
           in if hasPerms \<and> \<not> permsReqd then Inl ''Cannot specify permissions here''
              else if \<not> hasPerms \<and> permsReqd then Inl ''Must specify permissions''
              else
                (case parseTag tagStr hasQual of
                   Inl e \<Rightarrow> Inl e
                 | Inr t \<Rightarrow>
                     (case parseQual db t q of
                        Inl e \<Rightarrow> Inl e
                      | Inr u \<Rightarrow>
                          if hasPerms then
                            (case parsePerms (the p) 0 of
                               Inl e \<Rightarrow> Inl e
                             | Inr m \<Rightarrow> Inr \<lparr>tag = t, qual = u, perms = m\<rparr>)
                          else Inr \<lparr>tag = t, qual = u, perms = old\<rparr>))))"

lemma split_at_shorter: "split_at c s = (a, Some b) \<Longrightarrow> length b < length s"
  by (auto dest: split_at_Some)

text \<open>The loop over the comma-separated entries; \<open>n\<close> entries have been parsed.\<close>

function parseACL_loop ::
    "user_db \<Rightarrow> int \<Rightarrow> bool \<Rightarrow> string \<Rightarrow> AccessControlEntry list \<Rightarrow> string + AccessControlEntry list" where
  "parseACL_loop db old permsReqd nextEntry acc =
     (if length acc \<ge> MAX_ENTRIES then Inl ''Too many entries in ACL''
      else
        (case split_at (CHR '','') nextEntry of
           (entry, comma) \<Rightarrow>
             (case parseEntrySpec db old permsReqd entry of
                Inl e \<Rightarrow> Inl e
              | Inr ace \<Rightarrow>
                  (case comma of
                     None \<Rightarrow> Inr (acc @ [ace])
                   | Some rest \<Rightarrow> parseACL_loop db old permsReqd rest (acc @ [ace])))))"
  by pat_completeness auto
termination
  by (relation "measure (\<lambda>(_, _, _, s, _). length s)") (auto dest: split_at_shorter [OF sym])

declare parseACL_loop.simps [simp del]

definition parseACL :: "user_db \<Rightarrow> int \<Rightarrow> bool \<Rightarrow> string \<Rightarrow> string + AccessControlEntry list" where
  "parseACL db old permsReqd aclStr = parseACL_loop db old permsReqd aclStr []"

subsection \<open>The ACL library\<close>

record ('a, 'w) libacl =
  entries :: "'a \<Rightarrow> AccessControlEntry list"
  acl_delete_entry :: "'a \<Rightarrow> nat \<Rightarrow> 'a option"
  acl_create_entry :: "'a \<Rightarrow> ('a \<times> nat) option"
  acl_set_tag_type :: "'a \<Rightarrow> nat \<Rightarrow> acl_tag \<Rightarrow> 'a option"
  acl_set_qualifier :: "'a \<Rightarrow> nat \<Rightarrow> id_t \<Rightarrow> 'a option"
  acl_set_permset :: "'a \<Rightarrow> nat \<Rightarrow> int \<Rightarrow> 'a option"
  acl_calc_mask :: "'a \<Rightarrow> 'a option"
  acl_valid :: "'a \<Rightarrow> bool"
  acl_get_file :: "string \<Rightarrow> bool \<Rightarrow> 'w \<Rightarrow> 'a option"
  acl_set_file :: "string \<Rightarrow> bool \<Rightarrow> 'a \<Rightarrow> 'w \<Rightarrow> 'w option"
  acl_delete_def_file :: "string \<Rightarrow> 'w \<Rightarrow> 'w option"

text \<open>An entry is for a tag and, for named users and groups, a qualifier.\<close>

definition matches :: "acl_tag \<Rightarrow> id_t \<Rightarrow> AccessControlEntry \<Rightarrow> bool" where
  "matches t q e \<longleftrightarrow> tag e = t \<and> (t = ACL_USER \<or> t = ACL_GROUP \<longrightarrow> qual e = q)"

fun find_pos :: "('a \<Rightarrow> bool) \<Rightarrow> 'a list \<Rightarrow> nat \<Rightarrow> nat option" where
  "find_pos P [] i = None"
| "find_pos P (x # xs) i = (if P x then Some i else find_pos P xs (Suc i))"

definition findEntry :: "('a, 'w) libacl \<Rightarrow> 'a \<Rightarrow> acl_tag \<Rightarrow> id_t \<Rightarrow> nat option" where
  "findEntry lib acl t q = find_pos (matches t q) (entries lib acl) 0"

text \<open>A call that fails ends the process, here \<open>None\<close>.\<close>

definition setPerms :: "('a, 'w) libacl \<Rightarrow> 'a \<Rightarrow> nat \<Rightarrow> int \<Rightarrow> 'a option" where
  "setPerms lib acl entry p =
     acl_set_permset lib acl entry
       ((if p AND ACL_READ \<noteq> 0 then ACL_READ else 0) OR (if p AND ACL_WRITE \<noteq> 0 then ACL_WRITE else 0)
        OR (if p AND ACL_EXECUTE \<noteq> 0 then ACL_EXECUTE else 0))"

definition createEntry :: "('a, 'w) libacl \<Rightarrow> 'a \<Rightarrow> AccessControlEntry \<Rightarrow> ('a \<times> nat) option" where
  "createEntry lib acl a =
     (case acl_create_entry lib acl of
        None \<Rightarrow> None
      | Some (acl, entry) \<Rightarrow>
          (case acl_set_tag_type lib acl entry (tag a) of
             None \<Rightarrow> None
           | Some acl \<Rightarrow>
               if tag a = ACL_USER \<or> tag a = ACL_GROUP then
                 (case acl_set_qualifier lib acl entry (qual a) of
                    None \<Rightarrow> None | Some acl \<Rightarrow> Some (acl, entry))
               else Some (acl, entry)))"

definition applyEntry ::
    "('a, 'w) libacl \<Rightarrow> operation \<Rightarrow> AccessControlEntry \<Rightarrow> 'a \<Rightarrow> 'a option" where
  "applyEntry lib op a acl =
     (let entry = findEntry lib acl (tag a) (qual a)
      in if op = removeEntries then
           (case entry of None \<Rightarrow> Some acl | Some i \<Rightarrow> acl_delete_entry lib acl i)
         else
           (case (case entry of Some i \<Rightarrow> Some (acl, i) | None \<Rightarrow> createEntry lib acl a) of
              None \<Rightarrow> None
            | Some (acl, i) \<Rightarrow> setPerms lib acl i (perms a)))"

fun updateACL_loop ::
    "('a, 'w) libacl \<Rightarrow> string \<Rightarrow> bool \<Rightarrow> operation \<Rightarrow> bool \<Rightarrow> AccessControlEntry list \<Rightarrow> 'a \<Rightarrow> 'w
      \<Rightarrow> unit outcome \<times> 'w" where
  "updateACL_loop lib file dflt op recalcMask [] acl w = (Returns (), w)"
| "updateACL_loop lib file dflt op recalcMask (a # as) acl w =
     (case applyEntry lib op a acl of
        None \<Rightarrow> (Exits 1, w)
      | Some acl \<Rightarrow>
          (case (if recalcMask then acl_calc_mask lib acl else Some acl) of
             None \<Rightarrow> (Exits 1, w)
           | Some acl \<Rightarrow>
               if \<not> acl_valid lib acl then (Exits 1, w)
               else
                 (case acl_set_file lib file dflt acl w of
                    None \<Rightarrow> (Exits 1, w)
                  | Some w \<Rightarrow> updateACL_loop lib file dflt op recalcMask as acl w)))"

definition updateACL ::
    "('a, 'w) libacl \<Rightarrow> string \<Rightarrow> bool \<Rightarrow> AccessControlEntry list \<Rightarrow> operation \<Rightarrow> bool \<Rightarrow> 'w
      \<Rightarrow> unit outcome \<times> 'w" where
  "updateACL lib file dflt aclist op recalcMask w =
     (case acl_get_file lib file dflt w of
        None \<Rightarrow> (Exits 1, w)
      | Some acl \<Rightarrow> updateACL_loop lib file dflt op recalcMask aclist acl w)"

subsection \<open>The program\<close>

text \<open>Options: the operation, its argument, how many operations were given, \<open>-d\<close> and not \<open>-n\<close>.\<close>

record acl_opts =
  acl_op :: operation
  aclSpec :: string
  optCnt :: nat
  useDefaultACL :: bool
  recalcMask :: bool

fun acl_options :: "(char \<times> string) list \<Rightarrow> acl_opts \<Rightarrow> acl_opts option" where
  "acl_options [] s = Some s"
| "acl_options ((opt, optarg) # os) s =
     (if opt = CHR ''m'' then acl_options os (s\<lparr>acl_op := modifyEntries, aclSpec := optarg, optCnt := Suc (optCnt s)\<rparr>)
      else if opt = CHR ''x'' then acl_options os (s\<lparr>acl_op := removeEntries, aclSpec := optarg, optCnt := Suc (optCnt s)\<rparr>)
      else if opt = CHR ''k'' then acl_options os (s\<lparr>acl_op := removeDefaultACL, optCnt := Suc (optCnt s)\<rparr>)
      else if opt = CHR ''V'' then acl_options os (s\<lparr>acl_op := checkValidACL, aclSpec := optarg, optCnt := Suc (optCnt s)\<rparr>)
      else if opt = CHR ''d'' then acl_options os (s\<lparr>useDefaultACL := True\<rparr>)
      else if opt = CHR ''n'' then acl_options os (s\<lparr>recalcMask := False\<rparr>)
      else None)"

fun acl_files ::
    "('a, 'w) libacl \<Rightarrow> acl_opts \<Rightarrow> AccessControlEntry list \<Rightarrow> string list \<Rightarrow> 'w \<Rightarrow> unit outcome \<times> 'w" where
  "acl_files lib s aclist [] w = (Exits 0, w)"
| "acl_files lib s aclist (f # fs) w =
     (if acl_op s = removeDefaultACL then
        (case acl_delete_def_file lib f w of None \<Rightarrow> (Exits 1, w) | Some w \<Rightarrow> acl_files lib s aclist fs w)
      else if acl_op s = modifyEntries \<or> acl_op s = removeEntries then
        andthen (updateACL lib f (useDefaultACL s) aclist (acl_op s) (recalcMask s) w)
          (\<lambda>_ w. acl_files lib s aclist fs w)
      else (Exits 1, w))"

definition acl_main ::
    "('a, 'w) libacl \<Rightarrow> user_db \<Rightarrow> int \<Rightarrow> (char \<times> string) list \<Rightarrow> string list \<Rightarrow> 'w \<Rightarrow> unit outcome \<times> 'w" where
  "acl_main lib db old opts files w =
     (case acl_options opts \<lparr>acl_op = unspecifiedOp, aclSpec = [], optCnt = 0, useDefaultACL = False, recalcMask = True\<rparr> of
        None \<Rightarrow> (Exits 1, w)
      | Some s \<Rightarrow>
          if optCnt s \<noteq> 1 \<or> acl_op s = checkValidACL \<and> useDefaultACL s then (Exits 1, w)
          else if acl_op s = checkValidACL then
            (case parseACL db old True (aclSpec s) of Inl _ \<Rightarrow> (Exits 1, w) | Inr _ \<Rightarrow> (Exits 0, w))
          else
            (case (if acl_op s = modifyEntries \<or> acl_op s = removeEntries
                   then parseACL db old (acl_op s = modifyEntries) (aclSpec s) else Inr []) of
               Inl _ \<Rightarrow> (Exits 1, w)
             | Inr aclist \<Rightarrow> acl_files lib s aclist files w))"

subsection \<open>Printing and parsing\<close>

definition show_perms :: "int \<Rightarrow> string" where
  "show_perms p =
     [if p AND ACL_READ \<noteq> 0 then CHR ''r'' else CHR ''-'', if p AND ACL_WRITE \<noteq> 0 then CHR ''w'' else CHR ''-'',
      if p AND ACL_EXECUTE \<noteq> 0 then CHR ''x'' else CHR ''-'']"

definition named :: "acl_tag \<Rightarrow> bool" where
  "named t \<longleftrightarrow> t = ACL_USER \<or> t = ACL_GROUP"

definition show_tag :: "acl_tag \<Rightarrow> string" where
  "show_tag t =
     (case t of ACL_USER_OBJ \<Rightarrow> ''u'' | ACL_USER \<Rightarrow> ''u'' | ACL_GROUP_OBJ \<Rightarrow> ''g'' | ACL_GROUP \<Rightarrow> ''g''
      | ACL_MASK \<Rightarrow> ''m'' | ACL_OTHER \<Rightarrow> ''o'')"

definition show_ace :: "AccessControlEntry \<Rightarrow> string" where
  "show_ace e =
     show_tag (tag e) @ '':'' @ (if named (tag e) then show_int (uint (qual e)) else []) @ '':'' @ show_perms (perms e)"

fun show_acl :: "AccessControlEntry list \<Rightarrow> string" where
  "show_acl [] = []"
| "show_acl [e] = show_ace e"
| "show_acl (e # es) = show_ace e @ '','' @ show_acl es"

definition ace_ok :: "AccessControlEntry \<Rightarrow> bool" where
  "ace_ok e \<longleftrightarrow> 0 \<le> perms e \<and> perms e \<le> 7 \<and> (if named (tag e) then qual e \<noteq> - 1 else qual e = 0)"

lemma parsePerms_show: "0 \<le> p \<Longrightarrow> p \<le> 7 \<Longrightarrow> parsePerms (show_perms p) 0 = Inr p"
proof -
  assume "0 \<le> p" "p \<le> 7"
  then have "p = 0 \<or> p = 1 \<or> p = 2 \<or> p = 3 \<or> p = 4 \<or> p = 5 \<or> p = 6 \<or> p = 7" by presburger
  then show ?thesis
    by (elim disjE) (simp_all add: show_perms_def ACL_READ_def ACL_WRITE_def ACL_EXECUTE_def)
qed

lemma idFromName_show:
  "userIdFromName db (Some (show_int (uint u))) = u" "groupIdFromName db (Some (show_int (uint u))) = u"
proof -
  have "uint u < 2 ^ LENGTH(32)" by (rule unsigned_less)
  then have "uint u \<le> LONG_MAX" by (rule order_trans [OF less_imp_le]) (simp add: c_limits)
  moreover have "LONG_MIN \<le> uint u" by (rule order_trans [of _ 0]) (simp_all add: c_limits)
  ultimately show "userIdFromName db (Some (show_int (uint u))) = u" "groupIdFromName db (Some (show_int (uint u))) = u"
    using strtol_show_int [of "uint u" "[]"] by (simp_all add: userIdFromName_def groupIdFromName_def)
qed

lemma show_int_no_sep: "CHR '':'' \<notin> set (show_int i)" "CHR '','' \<notin> set (show_int i)"
  by (rule show_int_notin, simp)+

lemma parseEntrySpec_show:
  assumes "ace_ok e"
  shows "parseEntrySpec db old True (show_ace e) = Inr e"
proof -
  define q where "q = (if named (tag e) then show_int (uint (qual e)) else [])"
  define rest where "rest = q @ CHR '':'' # show_perms (perms e)"
  have colon: "CHR '':'' \<notin> set (show_tag (tag e))" "CHR '':'' \<notin> set q"
    using show_int_no_sep by (auto simp: q_def show_tag_def split: acl_tag.splits)
  have perms: "show_perms (perms e) \<noteq> []" "parsePerms (show_perms (perms e)) 0 = Inr (perms e)"
    using assms parsePerms_show [of "perms e"] by (simp_all add: show_perms_def ace_ok_def)
  have "show_int (uint (qual e)) \<noteq> []" "hd (show_int (uint (qual e))) \<noteq> CHR '':''"
    using show_int_no_sep(1) [of "uint (qual e)"] by (simp, metis hd_in_set show_int_nonempty)
  then have hasQual: "(rest \<noteq> [] \<and> hd rest \<noteq> CHR '':'') = named (tag e)" by (simp add: rest_def q_def)
  have "show_ace e = show_tag (tag e) @ CHR '':'' # rest" by (simp add: show_ace_def rest_def q_def)
  then have split: "split_at (CHR '':'') (show_ace e) = (show_tag (tag e), Some rest)"
    "split_at (CHR '':'') rest = (q, Some (show_perms (perms e)))"
    using colon by (simp_all add: split_at_append rest_def)
  have "parseTag (show_tag (tag e)) (named (tag e)) = Inr (tag e)"
    by (cases "tag e") (simp_all add: parseTag_def show_tag_def named_def)
  moreover have "parseQual db (tag e) q = Inr (qual e)"
    using assms idFromName_show [of db "qual e"] by (auto simp: q_def parseQual_def named_def ace_ok_def)
  ultimately show ?thesis
    using perms by (simp add: parseEntrySpec_def split hasQual Let_def)
qed

lemma show_ace_no_comma: "CHR '','' \<notin> set (show_ace e)"
  using show_int_no_sep(2) by (auto simp: show_ace_def show_tag_def show_perms_def split: acl_tag.splits)

lemma parseACL_loop_show:
  assumes "es \<noteq> []" "\<forall>e \<in> set es. ace_ok e" "length acc + length es \<le> MAX_ENTRIES"
  shows "parseACL_loop db old True (show_acl es) acc = Inr (acc @ es)"
  using assms
proof (induction es arbitrary: acc rule: show_acl.induct)
  case (2 e)
  then show ?case
    by (subst parseACL_loop.simps) (simp add: split_at_notin [OF show_ace_no_comma] parseEntrySpec_show)
next
  case (3 e f es)
  then have "parseACL_loop db old True (show_acl (f # es)) (acc @ [e]) = Inr ((acc @ [e]) @ f # es)" by simp
  with 3 show ?case
    by (subst parseACL_loop.simps) (simp add: split_at_append [OF show_ace_no_comma] parseEntrySpec_show)
qed simp

subsection \<open>An ACL as a map\<close>

definition key :: "AccessControlEntry \<Rightarrow> acl_tag \<times> id_t" where
  "key e = (tag e, if named (tag e) then qual e else 0)"

definition perm_map :: "AccessControlEntry list \<Rightarrow> acl_tag \<times> id_t \<Rightarrow> int option" where
  "perm_map es = map_of (map (\<lambda>e. (key e, perms e)) es)"

definition unmasked :: "AccessControlEntry list \<Rightarrow> AccessControlEntry list" where
  "unmasked es = filter (\<lambda>e. tag e \<noteq> ACL_MASK) es"

definition acl_inv :: "AccessControlEntry list \<Rightarrow> bool" where
  "acl_inv es \<longleftrightarrow> distinct (map key (unmasked es))"

text \<open>What \<open>updateACL\<close> does to the map, entry by entry.\<close>

definition apply_spec ::
    "operation \<Rightarrow> AccessControlEntry \<Rightarrow> (acl_tag \<times> id_t \<Rightarrow> int option) \<Rightarrow> (acl_tag \<times> id_t \<Rightarrow> int option)" where
  "apply_spec op a m = (if op = removeEntries then m(key a := None) else m(key a \<mapsto> perms a AND 7))"

text \<open>The documented effect of the library calls on the entries; \<open>stored\<close> is the ACL of a file.\<close>

definition acl_laws ::
    "('a, 'w) libacl \<Rightarrow> ('w \<Rightarrow> string \<Rightarrow> bool \<Rightarrow> AccessControlEntry list) \<Rightarrow> bool" where
  "acl_laws lib stored \<longleftrightarrow>
     (\<forall>a i a'. acl_delete_entry lib a i = Some a' \<longrightarrow> entries lib a' = take i (entries lib a) @ drop (Suc i) (entries lib a))
     \<and> (\<forall>a i a'. acl_create_entry lib a = Some (a', i) \<longrightarrow> i < length (entries lib a')
          \<and> take i (entries lib a') @ drop (Suc i) (entries lib a') = entries lib a)
     \<and> (\<forall>a i t a'. acl_set_tag_type lib a i t = Some a' \<longrightarrow>
          entries lib a' = (entries lib a)[i := (entries lib a ! i)\<lparr>tag := t\<rparr>])
     \<and> (\<forall>a i q a'. acl_set_qualifier lib a i q = Some a' \<longrightarrow>
          entries lib a' = (entries lib a)[i := (entries lib a ! i)\<lparr>qual := q\<rparr>])
     \<and> (\<forall>a i p a'. acl_set_permset lib a i p = Some a' \<longrightarrow>
          entries lib a' = (entries lib a)[i := (entries lib a ! i)\<lparr>perms := p\<rparr>])
     \<and> (\<forall>a a'. acl_calc_mask lib a = Some a' \<longrightarrow> unmasked (entries lib a') = unmasked (entries lib a))
     \<and> (\<forall>f d w a. acl_get_file lib f d w = Some a \<longrightarrow> mset (entries lib a) = mset (stored w f d))
     \<and> (\<forall>f d a w w'. acl_set_file lib f d a w = Some w' \<longrightarrow> mset (stored w' f d) = mset (entries lib a))"

lemma acl_lawsD:
  assumes "acl_laws lib stored"
  shows "acl_delete_entry lib a i = Some a' \<Longrightarrow> entries lib a' = take i (entries lib a) @ drop (Suc i) (entries lib a)"
    and "acl_create_entry lib a = Some (a', i) \<Longrightarrow> i < length (entries lib a')
          \<and> take i (entries lib a') @ drop (Suc i) (entries lib a') = entries lib a"
    and "acl_set_tag_type lib a i t = Some a' \<Longrightarrow> entries lib a' = (entries lib a)[i := (entries lib a ! i)\<lparr>tag := t\<rparr>]"
    and "acl_set_qualifier lib a i q = Some a' \<Longrightarrow> entries lib a' = (entries lib a)[i := (entries lib a ! i)\<lparr>qual := q\<rparr>]"
    and "acl_set_permset lib a i p = Some a' \<Longrightarrow> entries lib a' = (entries lib a)[i := (entries lib a ! i)\<lparr>perms := p\<rparr>]"
    and "acl_calc_mask lib a = Some a' \<Longrightarrow> unmasked (entries lib a') = unmasked (entries lib a)"
    and "acl_get_file lib f d w = Some a \<Longrightarrow> mset (entries lib a) = mset (stored w f d)"
    and "acl_set_file lib f d a w = Some w' \<Longrightarrow> mset (stored w' f d) = mset (entries lib a)"
  using assms unfolding acl_laws_def by metis+

lemma matches_key: "matches t q e \<longleftrightarrow> key e = (t, if named t then q else 0)"
  by (auto simp: matches_def key_def named_def)

lemma find_pos_spec:
  "find_pos P xs i = Some j \<Longrightarrow> \<exists>ys e zs. xs = ys @ e # zs \<and> j = i + length ys \<and> P e \<and> (\<forall>y \<in> set ys. \<not> P y)"
  "find_pos P xs i = None \<Longrightarrow> \<forall>x \<in> set xs. \<not> P x"
proof (induction xs arbitrary: i)
  case (Cons x xs)
  {
    case 1
    show ?case
    proof (cases "P x")
      case True
      with 1 show ?thesis by (intro exI [of _ "[]"] exI [of _ x] exI [of _ xs]) simp
    next
      case False
      with 1 Cons.IH(1) [of "Suc i"] obtain ys e zs where "xs = ys @ e # zs" "j = Suc i + length ys" "P e" "\<forall>y \<in> set ys. \<not> P y"
        by auto
      with False show ?thesis by (intro exI [of _ "x # ys"] exI [of _ e] exI [of _ zs]) simp
    qed
  next
    case 2
    then show ?case using Cons.IH(2) [of "Suc i"] by (auto split: if_splits)
  }
qed auto

lemma perm_map_update:
  "\<forall>y \<in> set ys. key y \<noteq> key e \<Longrightarrow> perm_map (ys @ e # zs) = (perm_map (ys @ zs))(key e \<mapsto> perms e)"
  by (induction ys) (auto simp: perm_map_def)

lemma perm_map_None: "perm_map es k = None \<longleftrightarrow> (\<forall>e \<in> set es. key e \<noteq> k)"
  by (induction es) (auto simp: perm_map_def)

lemma perm_map_unmasked: "fst k \<noteq> ACL_MASK \<Longrightarrow> perm_map (unmasked es) k = perm_map es k"
  by (induction es) (auto simp: perm_map_def unmasked_def key_def)

lemma perm_map_mset:
  assumes "mset es = mset fs" "acl_inv es" "fst k \<noteq> ACL_MASK"
  shows "perm_map fs k = perm_map es k"
proof -
  have "mset (unmasked es) = mset (unmasked fs)" using assms(1) by (simp add: unmasked_def)
  then have keys: "mset (map key (unmasked es)) = mset (map key (unmasked fs))"
    and pairs: "set (unmasked es) = set (unmasked fs)"
    by (simp, blast dest: mset_eq_setD)
  have "distinct (map key (unmasked es))" using assms(2) by (simp add: acl_inv_def)
  moreover from this have "distinct (map key (unmasked fs))" using mset_eq_imp_distinct_iff [OF keys] by simp
  ultimately have "perm_map (unmasked es) = perm_map (unmasked fs)"
    unfolding perm_map_def using pairs by (intro map_of_inject_set [THEN iffD2]) (simp_all add: comp_def)
  then show ?thesis using perm_map_unmasked [OF assms(3)] by metis
qed

lemma perm_bits:
  "(if p AND ACL_READ \<noteq> 0 then ACL_READ else 0) OR (if p AND ACL_WRITE \<noteq> 0 then ACL_WRITE else 0)
     OR (if p AND ACL_EXECUTE \<noteq> 0 then ACL_EXECUTE else 0) = p AND 7"
proof -
  have bit: "(if p AND 2 ^ n \<noteq> 0 then 2 ^ n else 0) = p AND 2 ^ n" for n
    by (rule bit_eqI) (auto simp: bit_and_iff bit_exp_iff and_exp_eq_0_iff_not_bit)
  have exps: "(2 :: int) ^ 2 = 4" "(2 :: int) ^ 1 = 2" "(2 :: int) ^ 0 = 1" by simp_all
  have "p AND (4 OR 2 OR 1) = (p AND 4) OR (p AND 2) OR (p AND 1)"
    by (simp only: bit.conj_disj_distrib)
  moreover have "4 OR 2 OR 1 = (7 :: int)" by simp
  ultimately have "(p AND 4) OR (p AND 2) OR (p AND 1) = p AND 7" by metis
  moreover have "(if p AND 4 \<noteq> 0 then 4 else 0) = p AND 4" "(if p AND 2 \<noteq> 0 then 2 else 0) = p AND 2"
    "(if p AND 1 \<noteq> 0 then 1 else 0) = p AND 1"
    using bit [of 2] bit [of 1] bit [of 0] by (simp_all only: exps)
  ultimately show ?thesis unfolding ACL_READ_def ACL_WRITE_def ACL_EXECUTE_def by (simp only:)
qed

lemma list_update_split: "(ys @ e # zs)[length ys := f] = ys @ f # zs"
  by simp

lemma unmasked_append [simp]: "unmasked (xs @ ys) = unmasked xs @ unmasked ys"
  by (simp add: unmasked_def)

lemma unmasked_Cons: "unmasked (x # xs) = (if tag x = ACL_MASK then unmasked xs else x # unmasked xs)"
  by (simp add: unmasked_def)

lemma fst_key: "fst (key e) = tag e"
  by (simp add: key_def)

lemma key_perms [simp]: "key (e\<lparr>perms := p\<rparr>) = key e"
  by (simp add: key_def)

lemma setPerms_entries:
  assumes "acl_laws lib stored" "setPerms lib acl (length ys) p = Some acl'" "entries lib acl = ys @ e # zs"
  shows "entries lib acl' = ys @ e\<lparr>perms := p AND 7\<rparr> # zs"
  using acl_lawsD(5) [OF assms(1), of acl "length ys" "p AND 7" acl'] assms(2,3)
  by (simp add: setPerms_def perm_bits)

lemma createEntry_entries:
  assumes laws: "acl_laws lib stored" and new: "createEntry lib acl a = Some (acl', i)"
  shows "\<exists>ys e zs. entries lib acl = ys @ zs \<and> entries lib acl' = ys @ e # zs \<and> i = length ys \<and> key e = key a"
proof -
  obtain a1 where a1: "acl_create_entry lib acl = Some (a1, i)"
    using new by (auto simp: createEntry_def split: option.splits if_splits)
  obtain a2 where a2: "acl_set_tag_type lib a1 i (tag a) = Some a2"
    and fin: "if named (tag a) then acl_set_qualifier lib a2 i (qual a) = Some acl' else acl' = a2"
    using new a1 by (auto simp: createEntry_def named_def split: option.splits if_splits)
  define ys zs where "ys = take i (entries lib a1)" and "zs = drop (Suc i) (entries lib a1)"
  have i: "i < length (entries lib a1)" "entries lib acl = ys @ zs"
    using acl_lawsD(2) [OF laws a1] by (simp_all add: ys_def zs_def)
  then have e1: "entries lib a1 = ys @ entries lib a1 ! i # zs" "i = length ys"
    by (simp_all add: ys_def zs_def id_take_nth_drop [symmetric])
  let ?e = "(entries lib a1 ! i)\<lparr>tag := tag a\<rparr>"
  have e2: "entries lib a2 = ys @ ?e # zs"
    using acl_lawsD(3) [OF laws a2] e1 by (metis list_update_split)
  show ?thesis
  proof (cases "named (tag a)")
    case True
    then have "entries lib acl' = (entries lib a2)[i := (entries lib a2 ! i)\<lparr>qual := qual a\<rparr>]"
      using fin acl_lawsD(4) [OF laws, of a2 i "qual a" acl'] by simp
    also have "\<dots> = ys @ ?e\<lparr>qual := qual a\<rparr> # zs" using e2 e1(2) by simp
    finally have "entries lib acl' = ys @ ?e\<lparr>qual := qual a\<rparr> # zs" .
    moreover have "key (?e\<lparr>qual := qual a\<rparr>) = key a" by (simp add: key_def)
    ultimately show ?thesis using i e1(2) by blast
  next
    case False
    then have "entries lib acl' = ys @ ?e # zs" "key ?e = key a" using fin e2 by (simp_all add: key_def)
    then show ?thesis using i e1(2) by blast
  qed
qed

text \<open>One entry: the map changes as specified, and keys stay distinct.\<close>

lemma applyEntry_refines:
  assumes laws: "acl_laws lib stored" and app: "applyEntry lib op a acl = Some acl'" and inv: "acl_inv (entries lib acl)"
  shows "acl_inv (entries lib acl')"
    and "fst k \<noteq> ACL_MASK \<Longrightarrow> perm_map (entries lib acl') k = apply_spec op a (perm_map (entries lib acl)) k"
proof -
  have m: "matches (tag a) (qual a) e \<longleftrightarrow> key e = key a" for e by (simp add: matches_key key_def)
  have "acl_inv (entries lib acl') \<and>
    (fst k \<noteq> ACL_MASK \<longrightarrow> perm_map (entries lib acl') k = apply_spec op a (perm_map (entries lib acl)) k)"
  proof (cases "findEntry lib acl (tag a) (qual a)")
    case None
    then have none: "\<forall>e \<in> set (entries lib acl). key e \<noteq> key a"
      unfolding findEntry_def using find_pos_spec(2) m by metis
    show ?thesis
    proof (cases "op = removeEntries")
      case True
      then have "acl' = acl" using app None by (simp add: applyEntry_def)
      moreover have "perm_map (entries lib acl) (key a) = None" using none by (simp add: perm_map_None)
      ultimately show ?thesis using inv True by (auto simp: apply_spec_def)
    next
      case False
      then obtain a1 i where a1: "createEntry lib acl a = Some (a1, i)" "setPerms lib a1 i (perms a) = Some acl'"
        using app None by (auto simp: applyEntry_def split: option.splits)
      obtain ys e zs where e: "entries lib acl = ys @ zs" "entries lib a1 = ys @ e # zs" "i = length ys" "key e = key a"
        using createEntry_entries [OF laws a1(1)] by blast
      then have e': "entries lib acl' = ys @ e\<lparr>perms := perms a AND 7\<rparr> # zs"
        using setPerms_entries [OF laws, of a1 ys "perms a" acl' e zs] a1(2) by simp
      have "\<forall>y \<in> set ys. key y \<noteq> key (e\<lparr>perms := perms a AND 7\<rparr>)" using none e by auto
      from perm_map_update [OF this, of zs] show ?thesis
        using none inv False e e' by (auto simp: apply_spec_def acl_inv_def unmasked_Cons) (auto simp: unmasked_def)
    qed
  next
    case (Some i)
    then obtain ys e zs where e: "entries lib acl = ys @ e # zs" "i = length ys" "key e = key a" "\<forall>y \<in> set ys. key y \<noteq> key a"
      unfolding findEntry_def using find_pos_spec(1) [of _ _ 0 i] m by (metis add_0)
    show ?thesis
    proof (cases "op = removeEntries")
      case True
      then have e': "entries lib acl' = ys @ zs"
        using acl_lawsD(1) [OF laws, of acl i acl'] app Some e by (simp add: applyEntry_def)
      have "perm_map (ys @ zs) (key a) = None" if "fst (key a) \<noteq> ACL_MASK"
      proof -
        have tags: "tag z \<noteq> ACL_MASK" if "key z = key a" for z
          using \<open>fst (key a) \<noteq> ACL_MASK\<close> fst_key [of z] that by simp
        then have "distinct (map key (unmasked ys @ e # unmasked zs))"
          using inv e(1) tags [OF e(3)] by (simp add: acl_inv_def unmasked_Cons)
        then have "key a \<notin> key ` set (unmasked zs)" using e(3) by auto
        moreover have "z \<in> set (unmasked zs)" if "z \<in> set zs" "key z = key a" for z
          using that tags [of z] by (simp add: unmasked_def)
        ultimately have "\<forall>z \<in> set zs. key z \<noteq> key a" by (metis image_eqI)
        with e(4) show ?thesis by (auto simp: perm_map_None)
      qed
      moreover have "perm_map (ys @ e # zs) = (perm_map (ys @ zs))(key a \<mapsto> perms e)"
        using perm_map_update [of ys e zs] e by simp
      moreover have "acl_inv (ys @ zs)" using inv e(1) by (auto simp: acl_inv_def unmasked_Cons split: if_splits)
      ultimately show ?thesis using e(1) e' True by (auto simp: apply_spec_def)
    next
      case False
      then have e': "entries lib acl' = ys @ e\<lparr>perms := perms a AND 7\<rparr> # zs"
        using app Some e setPerms_entries [OF laws, of acl ys "perms a" acl' e zs] by (simp add: applyEntry_def)
      have "perm_map (ys @ e\<lparr>perms := perms a AND 7\<rparr> # zs) = (perm_map (ys @ zs))(key a \<mapsto> perms a AND 7)"
        "perm_map (ys @ e # zs) = (perm_map (ys @ zs))(key a \<mapsto> perms e)"
        using perm_map_update [of ys "e\<lparr>perms := perms a AND 7\<rparr>" zs] perm_map_update [of ys e zs] e by simp_all
      moreover have "map key (unmasked (ys @ e\<lparr>perms := perms a AND 7\<rparr> # zs)) = map key (unmasked (ys @ e # zs))"
        by (simp add: unmasked_Cons)
      ultimately show ?thesis
        using e(1) e' inv False by (simp add: apply_spec_def acl_inv_def del: unmasked_append)
    qed
  qed
  then show "acl_inv (entries lib acl')"
    "fst k \<noteq> ACL_MASK \<Longrightarrow> perm_map (entries lib acl') k = apply_spec op a (perm_map (entries lib acl)) k" by blast+
qed

subsection \<open>The whole update\<close>

definition agree :: "(acl_tag \<times> id_t \<Rightarrow> int option) \<Rightarrow> (acl_tag \<times> id_t \<Rightarrow> int option) \<Rightarrow> bool" where
  "agree m n \<longleftrightarrow> (\<forall>k. fst k \<noteq> ACL_MASK \<longrightarrow> m k = n k)"

lemma agree_trans [trans]: "agree l m \<Longrightarrow> agree m n \<Longrightarrow> agree l n"
  by (simp add: agree_def)

lemma agree_sym: "agree m n \<Longrightarrow> agree n m"
  by (simp add: agree_def)

lemma agree_apply_spec: "agree m n \<Longrightarrow> agree (apply_spec op a m) (apply_spec op a n)"
  by (auto simp: agree_def apply_spec_def)

lemma agree_fold: "agree m n \<Longrightarrow> agree (fold (apply_spec op) as m) (fold (apply_spec op) as n)"
  by (induction as arbitrary: m n) (simp_all add: agree_apply_spec)

lemma acl_inv_mset: "mset es = mset fs \<Longrightarrow> acl_inv es = acl_inv fs"
  unfolding acl_inv_def unmasked_def by (intro mset_eq_imp_distinct_iff) simp

lemma agree_mset: "mset es = mset fs \<Longrightarrow> acl_inv es \<Longrightarrow> agree (perm_map es) (perm_map fs)"
  unfolding agree_def using perm_map_mset by metis

lemma agree_unmasked: "unmasked es = unmasked fs \<Longrightarrow> agree (perm_map es) (perm_map fs)"
  unfolding agree_def using perm_map_unmasked by metis

lemma updateACL_loop_refines:
  assumes laws: "acl_laws lib stored"
  shows "acl_inv (entries lib acl) \<Longrightarrow> agree (perm_map (entries lib acl)) (perm_map (stored w f d)) \<Longrightarrow>
    updateACL_loop lib f d op rm as acl w = (out, w') \<Longrightarrow>
    out = Exits 1 \<or> out = Returns () \<and> agree (perm_map (stored w' f d)) (fold (apply_spec op) as (perm_map (stored w f d)))"
proof (induction as arbitrary: acl w)
  case Nil
  then show ?case by (simp add: agree_def)
next
  case (Cons a as)
  show ?case
  proof (cases "out = Exits 1")
    case False
    with Cons.prems(3) obtain a1 a2 w1 where a1: "applyEntry lib op a acl = Some a1"
      and a2: "(if rm then acl_calc_mask lib a1 else Some a1) = Some a2"
      and w1: "acl_set_file lib f d a2 w = Some w1" and rest: "updateACL_loop lib f d op rm as a2 w1 = (out, w')"
      by (auto split: option.splits if_splits)
    have u: "unmasked (entries lib a2) = unmasked (entries lib a1)"
      using a2 acl_lawsD(6) [OF laws, of a1 a2] by (simp split: if_splits)
    have inv: "acl_inv (entries lib a2)"
      using applyEntry_refines(1) [OF laws a1 Cons.prems(1)] u by (simp add: acl_inv_def)
    have st: "mset (entries lib a2) = mset (stored w1 f d)" using acl_lawsD(8) [OF laws w1] by simp
    have "agree (perm_map (entries lib a1)) (apply_spec op a (perm_map (entries lib acl)))"
      using applyEntry_refines(2) [OF laws a1 Cons.prems(1)] by (simp add: agree_def)
    also note agree_apply_spec [OF Cons.prems(2)]
    finally have one: "agree (perm_map (stored w1 f d)) (apply_spec op a (perm_map (stored w f d)))"
      using agree_mset [OF st inv] agree_unmasked [OF u] by (meson agree_sym agree_trans)
    from Cons.IH [OF inv agree_mset [OF st inv] rest] False show ?thesis
      using agree_fold [OF one, of op as] agree_trans by auto
  qed simp
qed

text \<open>
  C35: printing a list of ACL entries in the notation of \<open>acl_update\<close> and parsing it with \<open>parseACL\<close>
  gives the entries back, for permissions within \<open>rwx\<close>, identifiers other than \<open>-1\<close> and at most
  \<open>MAX_ENTRIES\<close> entries.
\<close>

theorem parseACL_show:
  assumes "es \<noteq> []" "\<forall>e \<in> set es. ace_ok e" "length es \<le> MAX_ENTRIES"
  shows "parseACL db old True (show_acl es) = Inr es"
  using parseACL_loop_show [of es "[]"] assms by (simp add: parseACL_def)

theorem parseACL_show_witness:
  "parseACL \<lparr>getpwnam = \<lambda>_. None, getpwuid = \<lambda>_. None, getgrnam = \<lambda>_. None, getgrgid = \<lambda>_. None\<rparr> 0 True
     (show_acl [\<lparr>tag = ACL_USER, qual = 1000, perms = 6\<rparr>, \<lparr>tag = ACL_OTHER, qual = 0, perms = 4\<rparr>])
   = Inr [\<lparr>tag = ACL_USER, qual = 1000, perms = 6\<rparr>, \<lparr>tag = ACL_OTHER, qual = 0, perms = 4\<rparr>]"
  by (rule parseACL_show) (simp_all add: ace_ok_def named_def MAX_ENTRIES_def)

text \<open>
  C20: \<open>updateACL\<close> either ends the process with status 1 or returns, and when it returns the ACL stored for
  the file is, but for the mask, the old one with the entries of the list set (option \<open>-m\<close>) or deleted
  (\<open>-x\<close>) one after the other; with and without recalculation of the mask.  The hypotheses are the documented
  effects of the ACL library on the entries, and that the stored ACL has one entry per tag and qualifier.
\<close>

theorem updateACL_refines:
  assumes laws: "acl_laws lib stored" and inv: "acl_inv (stored w f d)"
    and run: "updateACL lib f d aclist op rm w = (out, w')"
  shows "out = Exits 1 \<or> out = Returns () \<and> (\<forall>k. fst k \<noteq> ACL_MASK \<longrightarrow>
           perm_map (stored w' f d) k = fold (apply_spec op) aclist (perm_map (stored w f d)) k)"
proof (cases "acl_get_file lib f d w")
  case None
  then show ?thesis using run by (simp add: updateACL_def)
next
  case (Some acl)
  have st: "mset (entries lib acl) = mset (stored w f d)" by (rule acl_lawsD(7) [OF laws Some])
  then have inv': "acl_inv (entries lib acl)" using inv acl_inv_mset by metis
  from updateACL_loop_refines [OF laws inv' agree_mset [OF st inv'], of op rm aclist out w'] show ?thesis
    using run Some by (simp add: updateACL_def agree_def)
qed

text \<open>A library that keeps an ACL as the list of its entries, for one file.\<close>

definition list_acl :: "(AccessControlEntry list, AccessControlEntry list) libacl" where
  "list_acl =
     \<lparr>entries = \<lambda>a. a, acl_delete_entry = \<lambda>a i. Some (take i a @ drop (Suc i) a),
      acl_create_entry = \<lambda>a. Some (a @ [\<lparr>tag = ACL_OTHER, qual = 0, perms = 0\<rparr>], length a),
      acl_set_tag_type = \<lambda>a i t. Some (a[i := (a ! i)\<lparr>tag := t\<rparr>]),
      acl_set_qualifier = \<lambda>a i q. Some (a[i := (a ! i)\<lparr>qual := q\<rparr>]),
      acl_set_permset = \<lambda>a i p. Some (a[i := (a ! i)\<lparr>perms := p\<rparr>]),
      acl_calc_mask = Some, acl_valid = \<lambda>a. True, acl_get_file = \<lambda>_ _ w. Some w,
      acl_set_file = \<lambda>_ _ a _. Some a, acl_delete_def_file = \<lambda>_ w. Some w\<rparr>"

lemma list_acl_laws: "acl_laws list_acl (\<lambda>w _ _. w)"
  unfolding acl_laws_def by (intro conjI) (simp_all add: list_acl_def)

theorem updateACL_refines_witness:
  "\<exists>w'. updateACL list_acl ''f'' False [\<lparr>tag = ACL_USER, qual = 7, perms = 5\<rparr>] modifyEntries True
          [\<lparr>tag = ACL_USER_OBJ, qual = 0, perms = 6\<rparr>] = (Returns (), w')
        \<and> perm_map w' (ACL_USER, 7) = Some 5 \<and> perm_map w' (ACL_USER_OBJ, 0) = Some 6"
proof -
  let ?w = "[\<lparr>tag = ACL_USER_OBJ, qual = 0, perms = 6\<rparr>]" and ?a = "\<lparr>tag = ACL_USER, qual = 7, perms = 5\<rparr>"
  obtain w' where w': "updateACL list_acl ''f'' False [?a] modifyEntries True ?w = (Returns (), w')"
    by (simp add: updateACL_def list_acl_def applyEntry_def findEntry_def matches_def createEntry_def setPerms_def)
  have "acl_inv ?w" by (simp add: acl_inv_def unmasked_def)
  from updateACL_refines [OF list_acl_laws this w'] have
    "\<forall>k. fst k \<noteq> ACL_MASK \<longrightarrow> perm_map w' k = apply_spec modifyEntries ?a (perm_map ?w) k" by simp
  then show ?thesis using w' by (simp add: apply_spec_def perm_map_def key_def named_def)
qed

end
