(* ===== verification/Proc_Tree.thy ===== *)
theory Proc_Tree
  imports Users
begin

text \<open>
  The program \<open>tlpi-solutions/ex12-2/proctree.c\<close>: it reads the status files of all processes, links each
  entry to its parent and prints the tree below the init process.  A pointer into the array of
  processes is an index.  \<open>mem n\<close> says whether an allocation of \<open>n\<close> bytes succeeds.
\<close>

subsection \<open>Data\<close>

record proctree =
  pid :: int
  ppid :: int
  pname :: "string option"
  parent :: "nat option"
  children :: "nat list"
  max_child :: nat

abbreviation nr_child :: "proctree \<Rightarrow> nat" where
  "nr_child p \<equiv> length (children p)"

definition CHILD_MAX :: nat where "CHILD_MAX = 10"
definition LINE_MAX :: nat where "LINE_MAX = 2048"
definition MaxProctabSize :: nat where "MaxProctabSize = 1024"
definition sizeof_proctree :: nat where "sizeof_proctree = 48"
definition sizeof_ptr :: nat where "sizeof_ptr = 8"

definition proc_cmp :: "int \<Rightarrow> proctree \<Rightarrow> int" where
  "proc_cmp key y = key - pid y"

text \<open>\<open>bsearch\<close> of the C library, for the comparison with a fixed key.\<close>

function bsearch_loop :: "('a \<Rightarrow> int) \<Rightarrow> 'a list \<Rightarrow> nat \<Rightarrow> nat \<Rightarrow> nat option" where
  "bsearch_loop cmp xs l u =
     (if l < u then
        let idx = (l + u) div 2
        in if cmp (xs ! idx) < 0 then bsearch_loop cmp xs l idx
           else if cmp (xs ! idx) > 0 then bsearch_loop cmp xs (Suc idx) u
           else Some idx
      else None)"
  by pat_completeness auto
termination
  by (relation "measure (\<lambda>(_, _, l, u). u - l)") auto

declare bsearch_loop.simps [simp del]

definition bsearch :: "('a \<Rightarrow> int) \<Rightarrow> 'a list \<Rightarrow> nat option" where
  "bsearch cmp xs = bsearch_loop cmp xs 0 (length xs)"

subsection \<open>Building the tree\<close>

definition add_child :: "nat \<Rightarrow> nat \<Rightarrow> proctree list \<Rightarrow> proctree list" where
  "add_child p i procs = procs[p := (procs ! p)\<lparr>children := children (procs ! p) @ [i]\<rparr>]"

definition grow :: "nat \<Rightarrow> proctree list \<Rightarrow> proctree list" where
  "grow p procs = procs[p := (procs ! p)\<lparr>max_child := 2 * max_child (procs ! p)\<rparr>]"

fun build_loop ::
    "(nat \<Rightarrow> bool) \<Rightarrow> nat list \<Rightarrow> nat option \<Rightarrow> proctree list \<Rightarrow> nat option outcome \<times> proctree list" where
  "build_loop mem [] root procs = (Returns root, procs)"
| "build_loop mem (i # is) root procs =
     (if pid (procs ! i) = 1 then build_loop mem is (Some i) (procs[i := (procs ! i)\<lparr>parent := None\<rparr>])
      else if ppid (procs ! i) = 0 then build_loop mem is root procs
      else
        (case bsearch (proc_cmp (ppid (procs ! i))) procs of
           None \<Rightarrow> (Aborts, procs)
         | Some p \<Rightarrow>
             (let procs = procs[i := (procs ! i)\<lparr>parent := Some p\<rparr>]
              in if nr_child (procs ! p) = max_child (procs ! p) then
                   if mem (2 * max_child (procs ! p) * sizeof_ptr)
                   then build_loop mem is root (add_child p i (grow p procs))
                   else (Returns None, procs)
                 else build_loop mem is root (add_child p i procs))))"

definition proctree_build_tree ::
    "(nat \<Rightarrow> bool) \<Rightarrow> proctree list \<Rightarrow> nat option outcome \<times> proctree list" where
  "proctree_build_tree mem procs = build_loop mem [0..<length procs] None procs"

subsection \<open>Printing\<close>

text \<open>The UTF-8 encodings of the box drawing characters.\<close>

definition last_prefix :: string where "last_prefix = [CHR 0xE2, CHR 0x94, CHR 0x94, CHR 0xE2, CHR 0x94, CHR 0x80]"
definition mid_prefix :: string where "mid_prefix = [CHR 0xE2, CHR 0x94, CHR 0x9C, CHR 0xE2, CHR 0x94, CHR 0x80]"
definition dashes :: string where "dashes = [CHR 0xE2, CHR 0x94, CHR 0x80, CHR 0xE2, CHR 0x94, CHR 0x80]"

definition tree_line :: "string \<Rightarrow> nat \<Rightarrow> string \<Rightarrow> string" where
  "tree_line name level prefix = replicate level (CHR 0x09) @ (if level > 0 then prefix @ dashes else []) @ name"

lemma level_le_tree_line: "level \<le> length (tree_line name level prefix)"
  by (simp add: tree_line_def)

text \<open>
  The output is the sequence of the arguments of \<open>printf\<close>.  The strings are concatenated in a buffer of
  \<open>LINE_MAX\<close> bytes without a check.
\<close>

function do_proctree_print ::
    "proctree list \<Rightarrow> nat \<Rightarrow> nat \<Rightarrow> string \<Rightarrow> (string \<times> int) list \<Rightarrow> unit outcome \<times> (string \<times> int) list"
and print_children ::
    "proctree list \<Rightarrow> nat list \<Rightarrow> nat \<Rightarrow> (string \<times> int) list \<Rightarrow> unit outcome \<times> (string \<times> int) list" where
  "do_proctree_print procs i level prefix out =
     (case pname (procs ! i) of
        None \<Rightarrow> (Undefined, out)
      | Some name \<Rightarrow>
          (let line = tree_line name level prefix
           in if length line \<ge> LINE_MAX then (Undefined, out)
              else print_children procs (children (procs ! i)) (Suc level) (out @ [(line, pid (procs ! i))])))"
| "print_children procs [] level out = (Returns (), out)"
| "print_children procs (c # cs) level out =
     andthen (do_proctree_print procs c level (if cs = [] then last_prefix else mid_prefix) out)
       (\<lambda>_ out. print_children procs cs level out)"
  by pat_completeness auto
termination
  by (relation "inv_image (less_than <*lex*> less_than)
        (\<lambda>a. case a of Inl (_, _, level, _, _) \<Rightarrow> (LINE_MAX - level, 0) | Inr (_, cs, level, _) \<Rightarrow> (LINE_MAX - level, length cs))")
     (use level_le_tree_line in \<open>auto intro!: diff_less_mono2 intro: le_less_trans simp: not_le\<close>)

declare do_proctree_print.simps [simp del]

definition proctree_print :: "proctree list \<Rightarrow> nat \<Rightarrow> unit outcome \<times> (string \<times> int) list" where
  "proctree_print procs root = do_proctree_print procs root 0 [] []"

definition print_text :: "(string \<times> int) list \<Rightarrow> string" where
  "print_text out = concat (map (\<lambda>(line, p). line @ '' (pid: '' @ show_int p @ '')\<newline>'') out)"

text \<open>
  \<open>proctree_delete\<close> frees the array through the pointer it is given, which is the root: only the first
  element is the address of an allocation.
\<close>

definition proctree_delete :: "nat \<Rightarrow> unit outcome" where
  "proctree_delete procs = (if procs = 0 then Returns () else Undefined)"

subsection \<open>The program\<close>

text \<open>
  The lines of a status file; the name is \<^const>\<open>None\<close> while the buffer is uninitialised, and the result is
  \<^const>\<open>None\<close> when a name overflows it.
\<close>

fun status_lines :: "string option \<Rightarrow> int \<Rightarrow> int \<Rightarrow> string list \<Rightarrow> (string option \<times> int \<times> int) option" where
  "status_lines name p pp [] = Some (name, p, pp)"
| "status_lines name p pp (line # ls) =
     (if has_prefix ''Name:'' line then
        (case scan_word 5 line of
           None \<Rightarrow> status_lines name p pp ls
         | Some w \<Rightarrow> if length w \<ge> LINE_MAX then None else status_lines (Some w) p pp ls)
      else if has_prefix ''Pid:'' line then
        status_lines name (case scan_num 4 line of None \<Rightarrow> p | Some v \<Rightarrow> to_int32 v) pp ls
      else if has_prefix ''PPid'' line then
        status_lines name p
          (if has_prefix ''PPid:'' line then (case scan_num 5 line of None \<Rightarrow> pp | Some v \<Rightarrow> to_int32 v) else pp) ls
      else status_lines name p pp ls)"

fun read_procs ::
    "(nat \<Rightarrow> bool) \<Rightarrow> (int \<Rightarrow> string list option) \<Rightarrow> string list \<Rightarrow> proctree list \<Rightarrow> nat \<Rightarrow> proctree list outcome" where
  "read_procs mem status [] tab sz = Returns tab"
| "read_procs mem status (d # ds) tab sz =
     (if d = [] \<or> \<not> isdigit (hd d) then read_procs mem status ds tab sz
      else
        (case status (atoi d) of
           None \<Rightarrow> read_procs mem status ds tab sz
         | Some ls \<Rightarrow>
             (case status_lines None (- 1) (- 1) ls of
                None \<Rightarrow> Undefined
              | Some (name, p, pp) \<Rightarrow>
                  if p = - 1 \<or> pp = - 1 then Exits 1
                  else if length tab = sz \<and> \<not> mem (2 * sz * sizeof_proctree) then Exits 1
                  else
                    (case name of
                       None \<Rightarrow> Undefined
                     | Some n \<Rightarrow>
                         if \<not> mem (CHILD_MAX * sizeof_ptr) then Exits 1
                         else
                           read_procs mem status ds
                             (tab @ [\<lparr>pid = p, ppid = pp, pname = (if mem (Suc (length n)) then Some n else None),
                                      parent = None, children = [], max_child = CHILD_MAX\<rparr>])
                             (if length tab = sz then 2 * sz else sz)))))"

definition proctree_main ::
    "(nat \<Rightarrow> bool) \<Rightarrow> (int \<Rightarrow> string list option) \<Rightarrow> string list option \<Rightarrow> int outcome \<times> string" where
  "proctree_main mem status dir =
     (case dir of
        None \<Rightarrow> (Exits 1, [])
      | Some ds \<Rightarrow>
          if \<not> mem (MaxProctabSize * sizeof_proctree) then (Exits 1, [])
          else
            (case read_procs mem status ds [] MaxProctabSize of
               Returns tab \<Rightarrow>
                 (case proctree_build_tree mem (sort_key pid tab) of
                    (Returns None, _) \<Rightarrow> (Exits 1, [])
                  | (Returns (Some root), procs) \<Rightarrow>
                      (case proctree_print procs root of
                         (Returns _, out) \<Rightarrow>
                           (case proctree_delete root of Returns _ \<Rightarrow> Returns 0 | _ \<Rightarrow> Undefined, print_text out)
                       | (_, out) \<Rightarrow> (Undefined, print_text out))
                  | (_, _) \<Rightarrow> (Aborts, []))
             | Exits c \<Rightarrow> (Exits c, [])
             | _ \<Rightarrow> (Undefined, [])))"

subsection \<open>Searching and linking\<close>

definition by_pid :: "proctree list \<Rightarrow> bool" where
  "by_pid procs \<longleftrightarrow> sorted_wrt (<) (map pid procs)"

lemma by_pid_less_iff:
  "by_pid procs \<Longrightarrow> i < length procs \<Longrightarrow> j < length procs \<Longrightarrow> pid (procs ! i) < pid (procs ! j) \<longleftrightarrow> i < j"
  unfolding by_pid_def sorted_wrt_iff_nth_less
  by (metis length_map less_asym less_irrefl linorder_neqE_nat nth_map)

lemma by_pid_inj:
  "by_pid procs \<Longrightarrow> i < length procs \<Longrightarrow> j < length procs \<Longrightarrow> pid (procs ! i) = pid (procs ! j) \<longleftrightarrow> i = j"
  using by_pid_less_iff [of procs i j] by_pid_less_iff [of procs j i] by auto

lemma bsearch_loop_finds:
  assumes "by_pid procs" "l \<le> j" "j < u" "u \<le> length procs" "pid (procs ! j) = key"
  shows "bsearch_loop (proc_cmp key) procs l u = Some j"
  using assms
proof (induction "proc_cmp key" procs l u rule: bsearch_loop.induct)
  case (1 procs l u)
  define m where "m = (l + u) div 2"
  have m: "l \<le> m" "m < u" using 1 by (auto simp: m_def)
  have cmp: "proc_cmp key (procs ! m) < 0 \<longleftrightarrow> j < m" "proc_cmp key (procs ! m) > 0 \<longleftrightarrow> m < j"
    using 1 m by_pid_less_iff [of procs j m] by_pid_less_iff [of procs m j] by (auto simp: proc_cmp_def)
  consider "j < m" | "m < j" | "m = j" by linarith
  then show ?case
  proof cases
    case 1
    then show ?thesis using "1.hyps"(1) "1.prems" cmp m by (subst bsearch_loop.simps) (simp add: m_def)
  next
    case 2
    then show ?thesis using "1.hyps"(2) "1.prems" cmp m by (subst bsearch_loop.simps) (simp add: m_def)
  next
    case 3
    then show ?thesis using "1.prems" cmp m by (subst bsearch_loop.simps) (simp add: m_def)
  qed
qed

lemma bsearch_finds:
  "by_pid procs \<Longrightarrow> j < length procs \<Longrightarrow> pid (procs ! j) = key \<Longrightarrow> bsearch (proc_cmp key) procs = Some j"
  by (simp add: bsearch_def bsearch_loop_finds)

text \<open>Process \<open>i\<close> is entered as a child of process \<open>j\<close>.\<close>

definition is_child :: "proctree list \<Rightarrow> nat \<Rightarrow> nat \<Rightarrow> bool" where
  "is_child procs j i \<longleftrightarrow> pid (procs ! i) \<noteq> 1 \<and> ppid (procs ! i) \<noteq> 0 \<and> ppid (procs ! i) = pid (procs ! j)"

text \<open>Linking changes none of the fields read from \<open>/proc\<close>.\<close>

definition same_procs :: "proctree list \<Rightarrow> proctree list \<Rightarrow> bool" where
  "same_procs procs procs' \<longleftrightarrow>
     length procs' = length procs \<and>
     (\<forall>j < length procs. pid (procs' ! j) = pid (procs ! j) \<and> ppid (procs' ! j) = ppid (procs ! j)
        \<and> pname (procs' ! j) = pname (procs ! j))"

lemma same_procs_refl [simp]: "same_procs procs procs"
  by (simp add: same_procs_def)

lemma same_procs_trans: "same_procs a b \<Longrightarrow> same_procs b c \<Longrightarrow> same_procs a c"
  by (simp add: same_procs_def)

lemma same_procs_by_pid: "same_procs a b \<Longrightarrow> by_pid b = by_pid a"
  by (auto simp: by_pid_def same_procs_def sorted_wrt_iff_nth_less)

lemma same_procs_child: "same_procs a b \<Longrightarrow> i < length a \<Longrightarrow> j < length a \<Longrightarrow> is_child b j i = is_child a j i"
  by (simp add: same_procs_def is_child_def)

lemma same_procs_update:
  "pid p = pid (procs ! i) \<Longrightarrow> ppid p = ppid (procs ! i) \<Longrightarrow> pname p = pname (procs ! i) \<Longrightarrow>
   same_procs procs (procs[i := p])"
  by (cases "i < length procs") (auto simp: same_procs_def nth_list_update)

definition link :: "nat \<Rightarrow> nat \<Rightarrow> proctree list \<Rightarrow> proctree list" where
  "link p i procs =
     (let procs = procs[i := (procs ! i)\<lparr>parent := Some p\<rparr>]
      in add_child p i (if nr_child (procs ! p) = max_child (procs ! p) then grow p procs else procs))"

lemma add_child_same: "same_procs procs (add_child p i procs)"
  by (simp add: add_child_def same_procs_update)

lemma grow_same: "same_procs procs (grow p procs)"
  by (simp add: grow_def same_procs_update)

lemma link_same: "same_procs procs (link p i procs)"
proof -
  let ?procs = "procs[i := (procs ! i)\<lparr>parent := Some p\<rparr>]"
  have "same_procs procs ?procs" by (rule same_procs_update) simp_all
  moreover have "same_procs ?procs (add_child p i ?procs)" by (rule add_child_same)
  moreover have "same_procs ?procs (add_child p i (grow p ?procs))" by (rule same_procs_trans [OF grow_same add_child_same])
  ultimately show ?thesis unfolding link_def Let_def using same_procs_trans by presburger
qed

lemma link_children:
  "p < length procs \<Longrightarrow> i < length procs \<Longrightarrow> j < length procs \<Longrightarrow>
   children (link p i procs ! j) = children (procs ! j) @ (if j = p then [i] else [])"
  by (auto simp: link_def Let_def add_child_def grow_def nth_list_update)

lemma link_parent:
  "p < length procs \<Longrightarrow> i < length procs \<Longrightarrow> j < length procs \<Longrightarrow>
   parent (link p i procs ! j) = (if j = i then Some p else parent (procs ! j))"
  by (auto simp: link_def Let_def add_child_def grow_def nth_list_update)

text \<open>Every process but init and those without a parent has its parent in the table.\<close>

definition parents_listed :: "proctree list \<Rightarrow> bool" where
  "parents_listed procs \<longleftrightarrow>
     (\<forall>i < length procs. pid (procs ! i) \<noteq> 1 \<and> ppid (procs ! i) \<noteq> 0 \<longrightarrow>
        (\<exists>j < length procs. pid (procs ! j) = ppid (procs ! i)))"

lemma same_procs_listed: "same_procs a b \<Longrightarrow> parents_listed b = parents_listed a"
  unfolding parents_listed_def same_procs_def by metis

lemma build_loop_link:
  assumes "mem = (\<lambda>_. True)" "by_pid procs" "j < length procs" "is_child procs j i"
  shows "build_loop mem (i # is) root procs = build_loop mem is root (link j i procs)"
proof -
  have "bsearch (proc_cmp (ppid (procs ! i))) procs = Some j"
    using assms by (intro bsearch_finds) (simp_all add: is_child_def)
  then show ?thesis using assms by (simp add: is_child_def link_def Let_def)
qed

text \<open>What the loop has done when it has gone through the processes \<open>is\<close>.\<close>

definition linked :: "nat list \<Rightarrow> proctree list \<Rightarrow> proctree list \<Rightarrow> bool" where
  "linked is procs procs' \<longleftrightarrow>
     same_procs procs procs' \<and>
     (\<forall>j < length procs. children (procs' ! j) = children (procs ! j) @ filter (is_child procs j) is)"

lemma linked_step:
  assumes "linked [i] procs mid" "linked is mid procs'" "set (i # is) \<subseteq> {..<length procs}"
  shows "linked (i # is) procs procs'"
proof -
  have same: "same_procs procs mid" "length mid = length procs" using assms(1) by (auto simp: linked_def same_procs_def)
  then have "filter (is_child mid j) is = filter (is_child procs j) is" if "j < length procs" for j
    using assms(3) same_procs_child [OF same(1) _ that] by (intro filter_cong) auto
  then show ?thesis using assms(1,2) same same_procs_trans [of procs mid procs'] by (auto simp: linked_def)
qed

lemma build_loop_linked:
  assumes "mem = (\<lambda>_. True)" "by_pid procs" "parents_listed procs" "set is \<subseteq> {..<length procs}"
  shows "\<exists>procs'. build_loop mem is root procs
      = (Returns (case filter (\<lambda>i. pid (procs ! i) = 1) is of [] \<Rightarrow> root | xs \<Rightarrow> Some (last xs)), procs')
    \<and> linked is procs procs'"
  using assms(2-)
proof (induction "is" arbitrary: root procs)
  case Nil
  then show ?case by (simp add: linked_def)
next
  case (Cons i "is")
  have step: ?case if lk: "linked [i] procs mid"
    and eq: "build_loop mem (i # is) root procs
       = build_loop mem is (if pid (procs ! i) = 1 then Some i else root) mid" for mid
  proof -
    have same: "same_procs procs mid" "length mid = length procs" using lk by (auto simp: linked_def same_procs_def)
    have root: "filter (\<lambda>i. pid (mid ! i) = 1) is = filter (\<lambda>i. pid (procs ! i) = 1) is"
      using same Cons.prems(3) by (intro filter_cong) (auto simp: same_procs_def)
    have "by_pid mid" "parents_listed mid" "set is \<subseteq> {..<length mid}"
      using same Cons.prems same_procs_by_pid same_procs_listed by auto
    from Cons.IH [OF this] obtain procs' where procs': "build_loop mem (i # is) root procs
        = (Returns (case filter (\<lambda>i. pid (procs ! i) = 1) is of
             [] \<Rightarrow> (if pid (procs ! i) = 1 then Some i else root) | xs \<Rightarrow> Some (last xs)), procs')"
      "linked is mid procs'"
      unfolding eq root by blast
    have "linked (i # is) procs procs'" by (rule linked_step [OF lk procs'(2) Cons.prems(3)])
    with procs'(1) show ?thesis by (auto split: list.splits)
  qed
  show ?case
  proof (cases "pid (procs ! i) = 1")
    case True
    have "children (procs[i := (procs ! i)\<lparr>parent := None\<rparr>] ! j) = children (procs ! j)" if "j < length procs" for j
      using that by (cases "j = i") simp_all
    then have "linked [i] procs (procs[i := (procs ! i)\<lparr>parent := None\<rparr>])"
      using True by (simp add: linked_def same_procs_update is_child_def)
    then show ?thesis using True by (intro step) simp_all
  next
    case False
    show ?thesis
    proof (cases "ppid (procs ! i) = 0")
      case True
      with False show ?thesis by (intro step [of procs]) (simp_all add: linked_def is_child_def)
    next
      case ppid: False
      then obtain p where p: "p < length procs" "is_child procs p i"
        using False Cons.prems by (auto simp: parents_listed_def is_child_def)
      then have "is_child procs j i \<longleftrightarrow> j = p" if "j < length procs" for j
        using that by_pid_inj [OF Cons.prems(1) that p(1)] by (auto simp: is_child_def)
      then have "linked [i] procs (link p i procs)"
        using Cons.prems(3) p by (auto simp: linked_def link_same link_children)
      then show ?thesis
        using False build_loop_link [OF assms(1) Cons.prems(1) p] by (intro step) simp_all
    qed
  qed
qed

lemma filter_eq_upt: "r < n \<Longrightarrow> filter (\<lambda>i. i = r) [0..<n] = [r]"
  by (induction n) (auto simp: less_Suc_eq)

lemma build_tree_links:
  assumes "by_pid procs" "parents_listed procs" "r < length procs" "pid (procs ! r) = 1"
    and "\<forall>p \<in> set procs. children p = []"
  shows "\<exists>procs'. proctree_build_tree (\<lambda>_. True) procs = (Returns (Some r), procs') \<and> same_procs procs procs'
    \<and> (\<forall>j < length procs. children (procs' ! j) = filter (is_child procs j) [0..<length procs])"
proof -
  have "filter (\<lambda>i. pid (procs ! i) = 1) [0..<length procs] = filter (\<lambda>i. i = r) [0..<length procs]"
    using assms by_pid_inj [of procs _ r] by (intro filter_cong) auto
  also have "\<dots> = [r]" using assms(3) filter_eq_upt by simp
  finally have root: "filter (\<lambda>i. pid (procs ! i) = 1) [0..<length procs] = [r]" .
  obtain procs' where "proctree_build_tree (\<lambda>_. True) procs = (Returns (Some r), procs')"
    "linked [0..<length procs] procs procs'"
    using build_loop_linked [OF refl assms(1,2), of "[0..<length procs]" None]
    by (auto simp: root proctree_build_tree_def atLeast0LessThan)
  then show ?thesis using assms(5) by (auto simp: linked_def)
qed

subsection \<open>Descendants\<close>

text \<open>A relation in which every element has at most one parent and \<open>r\<close> has none: a tree below \<open>r\<close>.\<close>

definition tree_below :: "('a \<times> 'a) set \<Rightarrow> 'a \<Rightarrow> bool" where
  "tree_below R r \<longleftrightarrow> (\<forall>x y z. (x, z) \<in> R \<longrightarrow> (y, z) \<in> R \<longrightarrow> x = y) \<and> (\<forall>x. (x, r) \<notin> R)"

lemma tree_parent_unique: "tree_below R r \<Longrightarrow> (x, z) \<in> R \<Longrightarrow> (y, z) \<in> R \<Longrightarrow> x = y"
  unfolding tree_below_def by blast

lemma tree_no_cycle:
  assumes "tree_below R r" "(r, x) \<in> R\<^sup>*"
  shows "(x, x) \<notin> R\<^sup>+"
  using assms(2)
proof induction
  case base
  then show ?case using assms(1) unfolding tree_below_def by (meson tranclD2)
next
  case (step y z)
  show ?case
  proof
    assume "(z, z) \<in> R\<^sup>+"
    then obtain y' where "(z, y') \<in> R\<^sup>*" "(y', z) \<in> R" by (meson tranclD2)
    then have "(z, y) \<in> R\<^sup>*" using tree_parent_unique [OF assms(1) _ step.hyps(2)] by blast
    then have "(y, y) \<in> R\<^sup>+" using step.hyps(2) by (meson rtrancl_into_trancl2)
    with step.IH show False ..
  qed
qed

lemma tree_ancestors_linear:
  assumes "tree_below R r" "(a, x) \<in> R\<^sup>*" "(b, x) \<in> R\<^sup>*"
  shows "(a, b) \<in> R\<^sup>* \<or> (b, a) \<in> R\<^sup>*"
  using assms(2,3)
proof induction
  case (step y z)
  show ?case
  proof (cases "b = z")
    case True
    then show ?thesis using step.hyps by (meson rtrancl.rtrancl_into_rtrancl)
  next
    case False
    then obtain y' where "(b, y') \<in> R\<^sup>*" "(y', z) \<in> R" using step.prems by (metis rtranclE)
    then have "(b, y) \<in> R\<^sup>*" using tree_parent_unique [OF assms(1) _ step.hyps(2)] by blast
    then show ?thesis by (rule step.IH)
  qed
qed auto

lemma tree_siblings_disjoint:
  assumes "tree_below R r" "(r, p) \<in> R\<^sup>*" "(p, c) \<in> R" "(p, d) \<in> R" "c \<noteq> d"
  shows "R\<^sup>* `` {c} \<inter> R\<^sup>* `` {d} = {}"
proof -
  have no: False if cd: "(p, c) \<in> R" "(p, d) \<in> R" "c \<noteq> d" "(c, d) \<in> R\<^sup>*" for c d
  proof -
    obtain y where "(c, y) \<in> R\<^sup>*" "(y, d) \<in> R" using cd by (metis rtranclE)
    then have "(c, p) \<in> R\<^sup>*" using tree_parent_unique [OF assms(1) _ cd(2)] by blast
    then have "(p, p) \<in> R\<^sup>+" using cd(1) by (meson rtrancl_into_trancl2)
    then show False using tree_no_cycle [OF assms(1,2)] by blast
  qed
  have False if "(c, x) \<in> R\<^sup>*" "(d, x) \<in> R\<^sup>*" for x
    using tree_ancestors_linear [OF assms(1) that] no [of c d] no [of d c] assms by blast
  then show ?thesis by blast
qed

lemma tree_depth:
  assumes "tree_below R r" "finite A" "r \<in> A" "R \<subseteq> A \<times> A" "(r, x) \<in> R ^^ k"
  shows "k < card A"
proof -
  have "(r, x) \<in> R ^^ k \<Longrightarrow> k < card {y. (r, y) \<in> R\<^sup>* \<and> (y, x) \<in> R\<^sup>*}" for x
  proof (induction k arbitrary: x)
    case 0
    have "finite {y. (r, y) \<in> R\<^sup>* \<and> (y, x) \<in> R\<^sup>*}"
      using assms(2-4) by (rule_tac finite_subset [of _ A]) (auto elim: rtranclE)
    moreover have "x \<in> {y. (r, y) \<in> R\<^sup>* \<and> (y, x) \<in> R\<^sup>*}" using 0 by auto
    ultimately show ?case by (metis card_gt_0_iff empty_iff)
  next
    case (Suc k)
    then obtain y where y: "(r, y) \<in> R ^^ k" "(y, x) \<in> R" by auto
    have sub: "{z. (r, z) \<in> R\<^sup>* \<and> (z, u) \<in> R\<^sup>*} \<subseteq> A" for u using assms(3,4) by (auto elim: rtranclE)
    have ry: "(r, y) \<in> R\<^sup>*" using y(1) by (rule relpow_imp_rtrancl)
    have "(x, y) \<notin> R\<^sup>*" using tree_no_cycle [OF assms(1) ry] y(2) by (meson rtrancl_into_trancl2)
    then have "card (insert x {z. (r, z) \<in> R\<^sup>* \<and> (z, y) \<in> R\<^sup>*}) = Suc (card {z. (r, z) \<in> R\<^sup>* \<and> (z, y) \<in> R\<^sup>*})"
      using finite_subset [OF sub assms(2)] by simp
    moreover have "insert x {z. (r, z) \<in> R\<^sup>* \<and> (z, y) \<in> R\<^sup>*} \<subseteq> {z. (r, z) \<in> R\<^sup>* \<and> (z, x) \<in> R\<^sup>*}"
      using ry y(2) by auto
    moreover note card_mono [OF finite_subset [OF sub assms(2)] this]
    ultimately show ?case using Suc.IH [OF y(1)] by linarith
  qed
  then have "k < card {y. (r, y) \<in> R\<^sup>* \<and> (y, x) \<in> R\<^sup>*}" using assms(5) .
  also have "\<dots> \<le> card A" using assms(3,4) by (intro card_mono [OF assms(2)]) (auto elim: rtranclE)
  finally show ?thesis .
qed

definition child_rel :: "proctree list \<Rightarrow> (nat \<times> nat) set" where
  "child_rel procs = {(j, i). j < length procs \<and> i \<in> set (children (procs ! j))}"

text \<open>Names are present and a line for the deepest possible level fits the buffer.\<close>

definition lines_fit :: "proctree list \<Rightarrow> bool" where
  "lines_fit procs \<longleftrightarrow>
     (\<forall>p \<in> set procs. \<exists>name. pname p = Some name \<and> length procs + 12 + length name \<le> LINE_MAX)"

definition wf_tree :: "proctree list \<Rightarrow> nat \<Rightarrow> bool" where
  "wf_tree procs r \<longleftrightarrow>
     r < length procs \<and> tree_below (child_rel procs) r \<and> by_pid procs \<and> lines_fit procs
     \<and> (\<forall>p \<in> set procs. distinct (children p) \<and> set (children p) \<subseteq> {..<length procs})"

definition descendants :: "proctree list \<Rightarrow> nat \<Rightarrow> int set" where
  "descendants procs i = (\<lambda>x. pid (procs ! x)) ` ((child_rel procs)\<^sup>* `` {i})"

lemma wf_tree_children:
  "wf_tree procs r \<Longrightarrow> p < length procs \<Longrightarrow> distinct (children (procs ! p)) \<and> set (children (procs ! p)) \<subseteq> {..<length procs}"
  unfolding wf_tree_def using nth_mem by blast

lemma child_rel_dom: "wf_tree procs r \<Longrightarrow> child_rel procs \<subseteq> {..<length procs} \<times> {..<length procs}"
  by (auto simp: wf_tree_def child_rel_def dest: nth_mem)

lemma reach_less:
  assumes "wf_tree procs r" "i < length procs" "(i, x) \<in> (child_rel procs)\<^sup>*"
  shows "x < length procs"
  using assms(3)
proof cases
  case base
  then show ?thesis using assms(2) by simp
next
  case (step y)
  then show ?thesis using child_rel_dom [OF assms(1)] by blast
qed

lemma descendants_disjoint:
  assumes "wf_tree procs r" "i < length procs" "j < length procs"
    and "(child_rel procs)\<^sup>* `` {i} \<inter> (child_rel procs)\<^sup>* `` A = {}" "A \<subseteq> {..<length procs}"
  shows "descendants procs i \<inter> (\<Union>c \<in> A. descendants procs c) = {}"
proof -
  have "inj_on (\<lambda>x. pid (procs ! x)) {..<length procs}"
    using assms(1) by_pid_inj by (auto simp: wf_tree_def inj_on_def)
  moreover have "(child_rel procs)\<^sup>* `` {i} \<subseteq> {..<length procs}" "(child_rel procs)\<^sup>* `` A \<subseteq> {..<length procs}"
    using reach_less [OF assms(1)] assms(2,5) by auto
  ultimately have "(\<lambda>x. pid (procs ! x)) ` ((child_rel procs)\<^sup>* `` {i}) \<inter> (\<lambda>x. pid (procs ! x)) ` ((child_rel procs)\<^sup>* `` A) = {}"
    using assms(4) inj_on_image_Int [of _ "{..<length procs}"] by (metis image_empty)
  then show ?thesis by (auto simp: descendants_def)
qed

lemma descendants_unfold:
  "i < length procs \<Longrightarrow> descendants procs i = insert (pid (procs ! i)) (\<Union>c \<in> set (children (procs ! i)). descendants procs c)"
proof -
  assume "i < length procs"
  then have "(child_rel procs) `` {i} = set (children (procs ! i))" by (auto simp: child_rel_def)
  moreover have "R\<^sup>* `` {i} = insert i (\<Union>c \<in> R `` {i}. R\<^sup>* `` {c})" for R :: "(nat \<times> nat) set"
    by (auto elim: converse_rtranclE intro: converse_rtrancl_into_rtrancl)
  ultimately show ?thesis by (simp only: descendants_def image_insert image_UN)
qed

lemma line_fits:
  assumes "wf_tree procs r" "(r, i) \<in> child_rel procs ^^ level" "i < length procs" "pname (procs ! i) = Some name"
    and "length prefix \<le> 6"
  shows "length (tree_line name level prefix) < LINE_MAX"
proof -
  have "level < card {..<length procs}"
    using assms(1) child_rel_dom [OF assms(1)] by (intro tree_depth [OF _ _ _ _ assms(2)]) (auto simp: wf_tree_def)
  moreover have "length procs + 12 + length name \<le> LINE_MAX"
    using assms(1,3,4) nth_mem [OF assms(3)] unfolding wf_tree_def lines_fit_def by fastforce
  ultimately show ?thesis using assms(5) by (simp add: tree_line_def dashes_def)
qed

lemma print_spec:
  shows "wf_tree procs r \<Longrightarrow> i < length procs \<Longrightarrow> (r, i) \<in> child_rel procs ^^ level \<Longrightarrow> length prefix \<le> 6 \<Longrightarrow>
     \<exists>ys. do_proctree_print procs i level prefix out = (Returns (), out @ ys)
        \<and> distinct (map snd ys) \<and> snd ` set ys = descendants procs i"
    and "wf_tree procs r \<Longrightarrow> p < length procs \<Longrightarrow> (r, p) \<in> child_rel procs ^^ l \<Longrightarrow> level = Suc l \<Longrightarrow>
     set cs \<subseteq> set (children (procs ! p)) \<Longrightarrow> distinct cs \<Longrightarrow>
     \<exists>ys. print_children procs cs level out = (Returns (), out @ ys)
        \<and> distinct (map snd ys) \<and> snd ` set ys = (\<Union>c \<in> set cs. descendants procs c)"
proof (induction procs i level prefix out and procs cs level out arbitrary: and p l
    rule: do_proctree_print_print_children.induct)
  case (1 procs i level prefix out)
  obtain name where name: "pname (procs ! i) = Some name"
    using "1.prems"(1,2) nth_mem unfolding wf_tree_def lines_fit_def by blast
  let ?line = "tree_line name level prefix"
  have fits: "length ?line < LINE_MAX" using line_fits [OF "1.prems"(1,3,2) name "1.prems"(4)] .
  obtain ys where ys: "print_children procs (children (procs ! i)) (Suc level) (out @ [(?line, pid (procs ! i))])
      = (Returns (), (out @ [(?line, pid (procs ! i))]) @ ys)"
    "distinct (map snd ys)" "snd ` set ys = (\<Union>c \<in> set (children (procs ! i)). descendants procs c)"
    using "1.IH" [OF name refl, of i level] fits "1.prems" by (auto simp only: wf_tree_def nth_mem not_le simp_thms order_refl)
  have cyc: "(i, i) \<notin> (child_rel procs)\<^sup>+"
    using "1.prems"(1) by (intro tree_no_cycle [OF _ relpow_imp_rtrancl [OF "1.prems"(3)]]) (simp add: wf_tree_def)
  have "pid (procs ! i) \<notin> descendants procs c" if c: "c \<in> set (children (procs ! i))" for c
  proof
    assume "pid (procs ! i) \<in> descendants procs c"
    then obtain x where x: "(c, x) \<in> (child_rel procs)\<^sup>*" "pid (procs ! i) = pid (procs ! x)" by (auto simp: descendants_def)
    have ic: "(i, c) \<in> child_rel procs" using c "1.prems"(2) by (simp add: child_rel_def)
    then have "x < length procs" using x(1) child_rel_dom [OF "1.prems"(1)] reach_less [OF "1.prems"(1)] by blast
    then have "x = i" using x(2) by_pid_inj [of procs i x] "1.prems" by (auto simp: wf_tree_def)
    then show False using cyc ic x(1) by (meson rtrancl_into_trancl2)
  qed
  with ys fits name "1.prems"(2) show ?case
    by (intro exI [of _ "(?line, pid (procs ! i)) # ys"]) (auto simp: do_proctree_print.simps descendants_unfold)
next
  case (3 procs c cs level out)
  note kids = wf_tree_children [OF "3.prems"(1,2)]
  have c: "c < length procs" "(p, c) \<in> child_rel procs"
    using kids "3.prems"(2,5) by (auto simp: child_rel_def)
  have rc: "(r, c) \<in> child_rel procs ^^ level" using "3.prems"(3,4) c(2) by auto
  have rp: "(r, p) \<in> (child_rel procs)\<^sup>*" using "3.prems"(3) by (rule relpow_imp_rtrancl)
  have pre: "length (if cs = [] then last_prefix else mid_prefix) \<le> 6" by (simp add: last_prefix_def mid_prefix_def)
  obtain ys where ys: "do_proctree_print procs c level (if cs = [] then last_prefix else mid_prefix) out = (Returns (), out @ ys)"
    "distinct (map snd ys)" "snd ` set ys = descendants procs c"
    using "3.IH"(1) [OF "3.prems"(1) c(1) rc pre] by auto
  have "\<exists>zs. print_children procs cs level out' = (Returns (), out' @ zs) \<and> distinct (map snd zs)
      \<and> snd ` set zs = (\<Union>c \<in> set cs. descendants procs c)" for out'
    by (rule "3.IH"(2) [OF "3.prems"(1-4)]) (use "3.prems"(5,6) in simp_all)
  note rest = this
  obtain zs where zs: "print_children procs cs level (out @ ys) = (Returns (), (out @ ys) @ zs)"
    "distinct (map snd zs)" "snd ` set zs = (\<Union>c \<in> set cs. descendants procs c)"
    using rest [of "out @ ys"] by (elim exE conjE)
  have "(child_rel procs)\<^sup>* `` {c} \<inter> (child_rel procs)\<^sup>* `` {d} = {}" if "d \<in> set cs" for d
  proof (rule tree_siblings_disjoint [OF _ rp c(2)])
    show "tree_below (child_rel procs) r" using "3.prems"(1) by (simp add: wf_tree_def)
    show "(p, d) \<in> child_rel procs" using that "3.prems"(2,5) by (auto simp: child_rel_def)
    show "c \<noteq> d" using that "3.prems"(6) by auto
  qed
  then have "(child_rel procs)\<^sup>* `` {c} \<inter> (child_rel procs)\<^sup>* `` set cs = {}" by blast
  moreover have "set cs \<subseteq> {..<length procs}" using kids "3.prems"(5) by auto
  ultimately have "descendants procs c \<inter> (\<Union>d \<in> set cs. descendants procs d) = {}"
    by (intro descendants_disjoint [OF "3.prems"(1) c(1) c(1)])
  with ys zs show ?case by (intro exI [of _ "ys @ zs"]) auto
qed auto

subsection \<open>The whole program\<close>

lemma built_tree_wf:
  assumes "by_pid procs" "r < length procs" "pid (procs ! r) = 1" "lines_fit procs" "same_procs procs procs'"
    and ch: "\<forall>j < length procs. children (procs' ! j) = filter (is_child procs j) [0..<length procs]"
  shows "wf_tree procs' r" "child_rel procs' = {(j, i). j < length procs \<and> i < length procs \<and> is_child procs j i}"
proof -
  have len: "length procs' = length procs" using assms(5) by (simp add: same_procs_def)
  show R: "child_rel procs' = {(j, i). j < length procs \<and> i < length procs \<and> is_child procs j i}"
    using ch by (auto simp: child_rel_def len)
  have "j = k" if "(j, i) \<in> child_rel procs'" "(k, i) \<in> child_rel procs'" for i j k
    using that by_pid_inj [OF assms(1), of j k] by (auto simp: R is_child_def)
  moreover have "(j, r) \<notin> child_rel procs'" for j using assms(3) by (simp add: R is_child_def)
  ultimately have "tree_below (child_rel procs') r" unfolding tree_below_def by blast
  moreover have "lines_fit procs'"
    unfolding lines_fit_def
  proof
    fix p
    assume "p \<in> set procs'"
    then obtain j where j: "j < length procs" "p = procs' ! j" by (auto simp: in_set_conv_nth len)
    then have "pname p = pname (procs ! j)" using assms(5) by (simp add: same_procs_def)
    then show "\<exists>name. pname p = Some name \<and> length procs' + 12 + length name \<le> LINE_MAX"
      using assms(4) nth_mem [OF j(1)] by (simp add: lines_fit_def len)
  qed
  moreover have "distinct (children p) \<and> set (children p) \<subseteq> {..<length procs}" if "p \<in> set procs'" for p
    using that ch by (auto simp: in_set_conv_nth len)
  ultimately show "wf_tree procs' r"
    using assms(1,2) same_procs_by_pid [OF assms(5)] by (simp add: wf_tree_def len)
qed

lemma by_pid_sort_key: "distinct (map pid tab) \<Longrightarrow> by_pid (sort_key pid tab)"
proof -
  assume "distinct (map pid tab)"
  then have "distinct (map pid (sort_key pid tab))" by (simp add: distinct_map)
  then show ?thesis by (simp add: by_pid_def strict_sorted_iff)
qed

lemma init_first:
  assumes "distinct (map pid (tab :: proctree list))" "\<forall>p \<in> set tab. 0 < pid p" "\<exists>p \<in> set tab. pid p = 1"
  shows "pid (sort_key pid tab ! 0) = 1" "0 < length (sort_key pid tab)"
proof -
  let ?s = "sort_key pid tab"
  obtain i where i: "i < length ?s" "pid (?s ! i) = 1" using assms(3) by (metis in_set_conv_nth set_sort)
  then show pos: "0 < length ?s" by linarith
  have "0 < pid (?s ! 0)" using assms(2) nth_mem [OF pos] by simp
  then have "\<not> pid (?s ! 0) < pid (?s ! i)" using i(2) by simp
  then have "i = 0" using by_pid_less_iff [OF by_pid_sort_key [OF assms(1)] pos i(1)] by simp
  with i show "pid (?s ! 0) = 1" by simp
qed

lemma read_procs_children:
  "read_procs mem status ds tab n = Returns tab' \<Longrightarrow> \<forall>p \<in> set tab. children p = [] \<Longrightarrow> \<forall>p \<in> set tab'. children p = []"
  by (induction mem status ds tab n rule: read_procs.induct) (auto split: if_splits option.splits)

text \<open>The processes that descend from init, by the parent that their status file names.\<close>

inductive descends :: "proctree list \<Rightarrow> int \<Rightarrow> bool" for tab where
  descends_init: "descends tab 1"
| descends_child: "descends tab (ppid p) \<Longrightarrow> p \<in> set tab \<Longrightarrow> pid p \<noteq> 1 \<Longrightarrow> ppid p \<noteq> 0 \<Longrightarrow> descends tab (pid p)"

lemma descendants_descends:
  assumes "by_pid procs" "pid (procs ! 0) = 1" "0 < length procs" "same_procs procs procs'" "set procs = set tab"
    and R: "child_rel procs' = {(j, i). j < length procs \<and> i < length procs \<and> is_child procs j i}"
  shows "descendants procs' 0 = Collect (descends tab)"
proof -
  have "i < length procs \<and> descends tab (pid (procs ! i))" if "(0, i) \<in> (child_rel procs')\<^sup>*" for i
    using that
  proof induction
    case base
    then show ?case using assms(2,3) descends_init by simp
  next
    case (step j i)
    then have "is_child procs j i" "i < length procs" by (simp_all add: R)
    then show ?case using step.IH descends_child [of tab "procs ! i"] nth_mem assms(5) by (auto simp: is_child_def)
  qed
  moreover have "\<exists>i < length procs. (0, i) \<in> (child_rel procs')\<^sup>* \<and> pid (procs ! i) = q" if "descends tab q" for q
    using that
  proof induction
    case descends_init
    then show ?case using assms(2,3) by blast
  next
    case (descends_child p)
    then obtain j i where "j < length procs" "(0, j) \<in> (child_rel procs')\<^sup>*" "pid (procs ! j) = ppid p"
      "i < length procs" "procs ! i = p"
      using assms(5) by (metis in_set_conv_nth)
    moreover from this have "(j, i) \<in> child_rel procs'" using descends_child.hyps by (simp add: R is_child_def)
    ultimately show ?case by (metis rtrancl.rtrancl_into_rtrancl)
  qed
  ultimately show ?thesis using assms(4) unfolding descendants_def same_procs_def by fastforce
qed

text \<open>
  C18: when the process table can be read and no allocation fails, has distinct positive process IDs, names
  the parent of every process and includes init, and its size leaves room for a line of the deepest
  possible level, \<open>proctree\<close> returns 0 and prints every process that descends from init exactly once and no
  other.
\<close>

theorem proctree_main_prints:
  assumes "read_procs (\<lambda>_. True) status ds [] MaxProctabSize = Returns tab"
    and "distinct (map pid tab)" "\<forall>p \<in> set tab. 0 < pid p" "\<exists>p \<in> set tab. pid p = 1"
    and "\<forall>p \<in> set tab. ppid p = 0 \<or> (\<exists>q \<in> set tab. pid q = ppid p)" "lines_fit tab"
  shows "\<exists>out. proctree_main (\<lambda>_. True) status (Some ds) = (Returns 0, print_text out)
           \<and> distinct (map snd out) \<and> snd ` set out = Collect (descends tab)"
proof -
  let ?s = "sort_key pid tab"
  note init = init_first [OF assms(2-4)] and sorted = by_pid_sort_key [OF assms(2)]
  have s: "set ?s = set tab" "length ?s = length tab" by simp_all
  have "parents_listed ?s"
    unfolding parents_listed_def using assms(5) s(1) by (metis in_set_conv_nth nth_mem)
  moreover have "\<forall>p \<in> set ?s. children p = []" using read_procs_children [OF assms(1)] by simp
  ultimately obtain procs' where build: "proctree_build_tree (\<lambda>_. True) ?s = (Returns (Some 0), procs')"
    and same: "same_procs ?s procs'"
    and ch: "\<forall>j < length ?s. children (procs' ! j) = filter (is_child ?s j) [0..<length ?s]"
    using build_tree_links [OF sorted _ init(2,1)] by blast
  have "lines_fit ?s" using assms(6) by (simp add: lines_fit_def)
  note tree = built_tree_wf [OF sorted init(2,1) this same ch]
  have "0 < length procs'" using same init(2) by (simp add: same_procs_def)
  then obtain out where out: "proctree_print procs' 0 = (Returns (), out)" "distinct (map snd out)"
    "snd ` set out = descendants procs' 0"
    using print_spec(1) [OF tree(1), of 0 0 "[]" "[]"] by (auto simp: proctree_print_def)
  have "descendants procs' 0 = Collect (descends tab)"
    by (rule descendants_descends [OF sorted init(1,2) same s(1) tree(2)])
  then show ?thesis
    using out build assms(1) by (intro exI [of _ out]) (simp add: proctree_main_def proctree_delete_def)
qed

definition demo_status :: "int \<Rightarrow> string list option" where
  "demo_status p =
     (if p = 1 then Some [''Name: init'', ''Pid: 1'', ''PPid: 0'']
      else if p = 7 then Some [''Name: sh'', ''Pid: 7'', ''PPid: 1''] else None)"

theorem proctree_main_prints_witness:
  "\<exists>out. proctree_main (\<lambda>_. True) demo_status (Some [''7'', ''self'', ''1'']) = (Returns 0, print_text out)
     \<and> distinct (map snd out) \<and> (7 \<in> snd ` set out)"
proof -
  let ?p = "\<lambda>p pp name. \<lparr>pid = p, ppid = pp, pname = Some name, parent = None, children = [], max_child = CHILD_MAX\<rparr>"
  let ?tab = "[?p 7 1 ''sh'', ?p 1 0 ''init'']"
  have read: "read_procs (\<lambda>_. True) demo_status [''7'', ''self'', ''1''] [] MaxProctabSize = Returns ?tab"
    by code_simp
  have fit: "lines_fit ?tab" by (simp add: lines_fit_def LINE_MAX_def)
  have d: "descends ?tab 7"
    using descends_child [of ?tab "?p 7 1 ''sh''"] descends_init [of ?tab] by simp
  show ?thesis using proctree_main_prints [OF read _ _ _ _ fit] d by auto
qed

end
