(* ===== verification/Inet_Sockets.thy ===== *)
theory Inet_Sockets
  imports C_String
begin

text \<open>
  The socket library \<open>tlpi-dist/sockets/inet_sockets.c\<close>.  The socket calls are the fields of a record over
  an abstract world; a call that returns \<open>-1\<close> is \<^const>\<open>Inl\<close> of the error number.  What the library promises
  about descriptors rests on the documented behaviour of these calls, stated by \<open>net_fd_laws\<close>: a new
  socket is a descriptor that was not open, closing removes it, and the other calls open and close none.
\<close>

subsection \<open>The socket interface\<close>

type_synonym sockaddr = string

record addrinfo =
  ai_family :: int
  ai_socktype :: int
  ai_protocol :: int
  ai_addr :: sockaddr
  ai_addrlen :: nat

record hints =
  h_family :: int
  h_socktype :: int
  h_flags :: int

definition AF_UNSPEC :: int where "AF_UNSPEC = 0"
definition SOCK_STREAM :: int where "SOCK_STREAM = 1"
definition AI_PASSIVE :: int where "AI_PASSIVE = 1"
definition ENOSYS :: errno where [errno_defs]: "ENOSYS = 38"

record 'w net =
  getaddrinfo :: "string option \<Rightarrow> string \<Rightarrow> hints \<Rightarrow> 'w \<Rightarrow> addrinfo list sysres \<times> 'w"
  socket :: "int \<Rightarrow> int \<Rightarrow> int \<Rightarrow> 'w \<Rightarrow> fd sysres \<times> 'w"
  setsockopt :: "fd \<Rightarrow> 'w \<Rightarrow> unit sysres \<times> 'w"
  bind_to :: "fd \<Rightarrow> sockaddr \<Rightarrow> 'w \<Rightarrow> unit sysres \<times> 'w"
  connect_to :: "fd \<Rightarrow> sockaddr \<Rightarrow> 'w \<Rightarrow> unit sysres \<times> 'w"
  listen_on :: "fd \<Rightarrow> int \<Rightarrow> 'w \<Rightarrow> unit sysres \<times> 'w"
  getnameinfo :: "sockaddr \<Rightarrow> (string \<times> string) option"
  sock_close :: "fd \<Rightarrow> 'w \<Rightarrow> unit sysres \<times> 'w"

subsection \<open>The library\<close>

text \<open>Results: the descriptor, or \<open>errno\<close> of the call that failed last, as the C functions leave it.\<close>

fun connect_loop :: "'w net \<Rightarrow> addrinfo list \<Rightarrow> errno \<Rightarrow> 'w \<Rightarrow> fd sysres \<times> 'w" where
  "connect_loop k [] e w = (Inl e, w)"
| "connect_loop k (rp # rps) e w =
     (case socket k (ai_family rp) (ai_socktype rp) (ai_protocol rp) w of
        (Inl e, w) \<Rightarrow> connect_loop k rps e w
      | (Inr sfd, w) \<Rightarrow>
          (case connect_to k sfd (ai_addr rp) w of
             (Inr _, w) \<Rightarrow> (Inr sfd, w)
           | (Inl e, w) \<Rightarrow>
               (case sock_close k sfd w of
                  (Inl e', w) \<Rightarrow> connect_loop k rps e' w
                | (Inr _, w) \<Rightarrow> connect_loop k rps e w)))"

definition inetConnect :: "'w net \<Rightarrow> string option \<Rightarrow> string \<Rightarrow> int \<Rightarrow> errno \<Rightarrow> 'w \<Rightarrow> fd sysres \<times> 'w" where
  "inetConnect k host service type e w =
     (case getaddrinfo k host service \<lparr>h_family = AF_UNSPEC, h_socktype = type, h_flags = 0\<rparr> w of
        (Inl _, w) \<Rightarrow> (Inl ENOSYS, w)
      | (Inr res, w) \<Rightarrow> connect_loop k res e w)"

text \<open>\<open>None\<close> when \<open>setsockopt\<close> fails, which ends the search.\<close>

fun passive_loop :: "'w net \<Rightarrow> bool \<Rightarrow> addrinfo list \<Rightarrow> 'w \<Rightarrow> (fd \<times> addrinfo) option \<times> 'w" where
  "passive_loop k doListen [] w = (None, w)"
| "passive_loop k doListen (rp # rps) w =
     (case socket k (ai_family rp) (ai_socktype rp) (ai_protocol rp) w of
        (Inl _, w) \<Rightarrow> passive_loop k doListen rps w
      | (Inr sfd, w) \<Rightarrow>
          (case (if doListen then setsockopt k sfd w else (Inr (), w)) of
             (Inl _, w) \<Rightarrow> (None, snd (sock_close k sfd w))
           | (Inr _, w) \<Rightarrow>
               (case bind_to k sfd (ai_addr rp) w of
                  (Inr _, w) \<Rightarrow> (Some (sfd, rp), w)
                | (Inl _, w) \<Rightarrow> passive_loop k doListen rps (snd (sock_close k sfd w)))))"

text \<open>
  The result carries the address length, which the C function stores through \<open>addrlen\<close> if that is not
  null; \<open>None\<close> is \<open>-1\<close>.
\<close>

definition inetPassiveSocket ::
    "'w net \<Rightarrow> string \<Rightarrow> int \<Rightarrow> bool \<Rightarrow> int \<Rightarrow> 'w \<Rightarrow> (fd \<times> nat) option \<times> 'w" where
  "inetPassiveSocket k service type doListen backlog w =
     (case getaddrinfo k None service \<lparr>h_family = AF_UNSPEC, h_socktype = type, h_flags = AI_PASSIVE\<rparr> w of
        (Inl _, w) \<Rightarrow> (None, w)
      | (Inr res, w) \<Rightarrow>
          (case passive_loop k doListen res w of
             (None, w) \<Rightarrow> (None, w)
           | (Some (sfd, rp), w) \<Rightarrow>
               if doListen then
                 (case listen_on k sfd backlog w of
                    (Inl _, w) \<Rightarrow> (None, w)
                  | (Inr _, w) \<Rightarrow> (Some (sfd, ai_addrlen rp), w))
               else (Some (sfd, ai_addrlen rp), w)))"

definition inetListen :: "'w net \<Rightarrow> string \<Rightarrow> int \<Rightarrow> 'w \<Rightarrow> (fd \<times> nat) option \<times> 'w" where
  "inetListen k service backlog w = inetPassiveSocket k service SOCK_STREAM True backlog w"

definition inetBind :: "'w net \<Rightarrow> string \<Rightarrow> int \<Rightarrow> 'w \<Rightarrow> (fd \<times> nat) option \<times> 'w" where
  "inetBind k service type w = inetPassiveSocket k service type False 0 w"

definition inetAddressStr :: "'w net \<Rightarrow> sockaddr \<Rightarrow> nat \<Rightarrow> string" where
  "inetAddressStr k addr addrStrLen =
     snprintf addrStrLen
       (case getnameinfo k addr of
          Some (host, service) \<Rightarrow> ''('' @ host @ '', '' @ service @ '')''
        | None \<Rightarrow> ''(?UNKNOWN?)'')"

subsection \<open>Descriptors\<close>

definition net_fd_laws :: "'w net \<Rightarrow> ('w \<Rightarrow> fd set) \<Rightarrow> bool" where
  "net_fd_laws k fds \<longleftrightarrow>
     (\<forall>h s hi w. fds (snd (getaddrinfo k h s hi w)) = fds w)
     \<and> (\<forall>f t p w e w'. socket k f t p w = (Inl e, w') \<longrightarrow> fds w' = fds w)
     \<and> (\<forall>f t p w s w'. socket k f t p w = (Inr s, w') \<longrightarrow> s \<notin> fds w \<and> fds w' = insert s (fds w))
     \<and> (\<forall>s w. fds (snd (setsockopt k s w)) = fds w)
     \<and> (\<forall>s a w. fds (snd (bind_to k s a w)) = fds w)
     \<and> (\<forall>s a w. fds (snd (connect_to k s a w)) = fds w)
     \<and> (\<forall>s b w. fds (snd (listen_on k s b w)) = fds w)
     \<and> (\<forall>s w. fds (snd (sock_close k s w)) = fds w - {s})"

lemma net_fd_lawsD:
  assumes "net_fd_laws k fds"
  shows "getaddrinfo k h s hi w = (ga, w1) \<Longrightarrow> fds w1 = fds w"
    and "socket k f t p w = (Inl e, w2) \<Longrightarrow> fds w2 = fds w"
    and "socket k f t p w = (Inr c, w3) \<Longrightarrow> c \<notin> fds w \<and> fds w3 = insert c (fds w)"
    and "setsockopt k c w = (u, w4) \<Longrightarrow> fds w4 = fds w"
    and "bind_to k c a w = (u, w5) \<Longrightarrow> fds w5 = fds w"
    and "connect_to k c a w = (u, w6) \<Longrightarrow> fds w6 = fds w"
    and "listen_on k c b w = (u, w7) \<Longrightarrow> fds w7 = fds w"
    and "fds (snd (sock_close k c w)) = fds w - {c}"
    and "sock_close k c w = (u, w8) \<Longrightarrow> fds w8 = fds w - {c}"
  using assms unfolding net_fd_laws_def by (elim conjE; metis snd_conv)+

lemma insert_remove: "c \<notin> A \<Longrightarrow> insert c A - {c} = A"
  by auto

definition fd_result :: "fd set \<Rightarrow> fd option \<Rightarrow> fd set \<Rightarrow> bool" where
  "fd_result A r A' \<longleftrightarrow> (case r of None \<Rightarrow> A' = A | Some s \<Rightarrow> s \<notin> A \<and> A' = insert s A)"

definition opt_fd :: "fd sysres \<Rightarrow> fd option" where
  "opt_fd r = (case r of Inl _ \<Rightarrow> None | Inr s \<Rightarrow> Some s)"

lemma connect_loop_fds:
  assumes laws: "net_fd_laws k fds"
  shows "connect_loop k rps e w = (r, w') \<Longrightarrow> fd_result (fds w) (opt_fd r) (fds w')"
proof (induction rps arbitrary: e w)
  case Nil
  then show ?case by (auto simp: fd_result_def opt_fd_def)
next
  case (Cons rp rps)
  note law = net_fd_lawsD [OF laws]
  obtain c w1 where s: "socket k (ai_family rp) (ai_socktype rp) (ai_protocol rp) w = (c, w1)" by fastforce
  show ?case
  proof (cases c)
    case (Inl e1)
    then have "fds w1 = fds w" using law(2) s by simp
    moreover have "fd_result (fds w1) (opt_fd r) (fds w')" using Cons s Inl by simp
    ultimately show ?thesis by simp
  next
    case (Inr sfd)
    obtain u w2 where u: "connect_to k sfd (ai_addr rp) w1 = (u, w2)" by fastforce
    obtain v w3 where v: "sock_close k sfd w2 = (v, w3)" by fastforce
    have fds: "sfd \<notin> fds w" "fds w2 = insert sfd (fds w)" "fds w3 = fds w"
      using law(3) [of _ _ _ w sfd w1] s Inr law(6) [OF u] law(9) [OF v] by auto
    show ?thesis
    proof (cases u)
      case e: (Inl e2)
      have "fd_result (fds w3) (opt_fd r) (fds w')" using Cons s Inr u v e by (cases v) simp_all
      then show ?thesis using fds(3) by simp
    next
      case unit: (Inr b)
      then show ?thesis using Cons.prems s Inr u fds by (auto simp: fd_result_def opt_fd_def)
    qed
  qed
qed

lemma passive_loop_fds:
  assumes laws: "net_fd_laws k fds"
  shows "passive_loop k doListen rps w = (r, w') \<Longrightarrow> fd_result (fds w) (map_option fst r) (fds w')"
proof (induction rps arbitrary: w)
  case Nil
  then show ?case by (auto simp: fd_result_def)
next
  case (Cons rp rps)
  note law = net_fd_lawsD [OF laws]
  obtain c w1 where s: "socket k (ai_family rp) (ai_socktype rp) (ai_protocol rp) w = (c, w1)" by fastforce
  show ?case
  proof (cases c)
    case (Inl e1)
    then have "fds w1 = fds w" using law(2) s by simp
    moreover have "fd_result (fds w1) (map_option fst r) (fds w')" using Cons s Inl by simp
    ultimately show ?thesis by simp
  next
    case (Inr sfd)
    obtain o1 w2 where o1: "(if doListen then setsockopt k sfd w1 else (Inr (), w1)) = (o1, w2)" by fastforce
    obtain b w3 where b: "bind_to k sfd (ai_addr rp) w2 = (b, w3)" by fastforce
    have "fds w2 = fds w1" using o1 law(4) by (auto split: if_splits)
    then have fds: "sfd \<notin> fds w" "fds w2 = insert sfd (fds w)" "fds w3 = insert sfd (fds w)"
      using law(3) [of _ _ _ w sfd w1] s Inr law(5) [OF b] by auto
    show ?thesis
    proof (cases o1)
      case e: (Inl e2)
      then show ?thesis using Cons.prems s Inr o1 fds law(8) [of sfd w2] by (auto simp: fd_result_def)
    next
      case unit: (Inr u)
      show ?thesis
      proof (cases b)
        case e: (Inl e3)
        have "fd_result (fds (snd (sock_close k sfd w3))) (map_option fst r) (fds w')"
          using Cons s Inr o1 unit b e by simp
        then show ?thesis using fds law(8) [of sfd w3] by simp
      next
        case ok: (Inr v)
        then show ?thesis using Cons.prems s Inr o1 unit b fds by (auto simp: fd_result_def)
      qed
    qed
  qed
qed

lemma inet_fds:
  assumes laws: "net_fd_laws k fds"
  shows "inetConnect k host service type e w = (r, w') \<Longrightarrow> fd_result (fds w) (opt_fd r) (fds w')"
    and "inetBind k service type w = (b, w') \<Longrightarrow> fd_result (fds w) (map_option fst b) (fds w')"
    and "inetListen k service backlog w = (l, w') \<Longrightarrow>
           fd_result (fds w) (map_option fst l) (fds w')
           \<or> l = None \<and> (\<exists>s w1 e. s \<notin> fds w \<and> listen_on k s backlog w1 = (Inl e, w') \<and> fds w' = insert s (fds w))"
proof -
  note law = net_fd_lawsD [OF laws]
  show "fd_result (fds w) (opt_fd r) (fds w')" if "inetConnect k host service type e w = (r, w')"
  proof -
    obtain a w1 where a: "getaddrinfo k host service \<lparr>h_family = AF_UNSPEC, h_socktype = type, h_flags = 0\<rparr> w = (a, w1)"
      by fastforce
    show ?thesis
      using that a law(1) [OF a] connect_loop_fds [OF laws, of _ e w1 r w']
      by (cases a) (auto simp: inetConnect_def opt_fd_def fd_result_def)
  qed
  have pas: "fd_result (fds w) (map_option fst p) (fds w')
       \<or> dl \<and> p = None \<and> (\<exists>s w1 e. s \<notin> fds w \<and> listen_on k s bl w1 = (Inl e, w') \<and> fds w' = insert s (fds w))"
    if p: "inetPassiveSocket k service ty dl bl w = (p, w')" for p ty dl bl
  proof -
    obtain a w1 where a: "getaddrinfo k None service \<lparr>h_family = AF_UNSPEC, h_socktype = ty, h_flags = AI_PASSIVE\<rparr> w = (a, w1)"
      by fastforce
    show ?thesis
    proof (cases a)
      case (Inl e)
      then show ?thesis using p a law(1) [OF a] by (auto simp: inetPassiveSocket_def fd_result_def)
    next
      case (Inr res)
      obtain q w2 where q: "passive_loop k dl res w1 = (q, w2)" by fastforce
      have fq: "fd_result (fds w) (map_option fst q) (fds w2)"
        using passive_loop_fds [OF laws q] law(1) [OF a] by simp
      show ?thesis
      proof (cases q)
        case None
        then show ?thesis using p a Inr q fq by (simp add: inetPassiveSocket_def)
      next
        case (Some sr)
        obtain l w3 where l: "listen_on k (fst sr) bl w2 = (l, w3)" by fastforce
        then show ?thesis
          using p a Inr q Some fq law(7) [OF l]
          by (cases sr; cases l) (auto simp: inetPassiveSocket_def fd_result_def split: if_splits, blast)
      qed
    qed
  qed
  show "inetBind k service type w = (b, w') \<Longrightarrow> fd_result (fds w) (map_option fst b) (fds w')"
    using pas [of type False 0 b] by (simp add: inetBind_def)
  show "inetListen k service backlog w = (l, w') \<Longrightarrow>
           fd_result (fds w) (map_option fst l) (fds w')
           \<or> l = None \<and> (\<exists>s w1 e. s \<notin> fds w \<and> listen_on k s backlog w1 = (Inl e, w') \<and> fds w' = insert s (fds w))"
    using pas [of SOCK_STREAM True backlog l] by (simp add: inetListen_def)
qed

text \<open>
  C36: \<open>inetConnect\<close> and \<open>inetBind\<close> leave exactly one more descriptor open when they succeed, the one they
  return, and none when they fail; \<open>inetListen\<close> likewise, unless the call of \<open>listen\<close> fails: then the bound
  socket stays open, although \<open>-1\<close> is returned.
\<close>

theorem inet_descriptors:
  assumes "net_fd_laws k fds"
  shows "(inetConnect k host service type e w = (r, w') \<longrightarrow> fd_result (fds w) (opt_fd r) (fds w'))
    \<and> (inetBind k service type w = (b, w') \<longrightarrow> fd_result (fds w) (map_option fst b) (fds w'))
    \<and> (inetListen k service backlog w = (l, w') \<longrightarrow>
         fd_result (fds w) (map_option fst l) (fds w')
         \<or> l = None \<and> (\<exists>s w1 e. s \<notin> fds w \<and> listen_on k s backlog w1 = (Inl e, w') \<and> fds w' = insert s (fds w)))"
  using inet_fds [OF assms] by blast

text \<open>A host with two addresses, of which only the second accepts sockets; the world is the set of open descriptors.\<close>

definition demo_addr :: "int \<Rightarrow> addrinfo" where
  "demo_addr n = \<lparr>ai_family = n, ai_socktype = 1, ai_protocol = 0, ai_addr = ''addr'', ai_addrlen = 16\<rparr>"

definition demo_net :: "fd set net" where
  "demo_net =
     \<lparr>getaddrinfo = \<lambda>_ _ _ w. (Inr [demo_addr 0, demo_addr 1], w),
      socket = \<lambda>f _ _ w. if f = 0 \<or> 3 \<in> w then (Inl 97, w) else (Inr 3, insert 3 w),
      setsockopt = \<lambda>_ w. (Inr (), w), bind_to = \<lambda>_ _ w. (Inr (), w), connect_to = \<lambda>_ _ w. (Inr (), w),
      listen_on = \<lambda>_ _ w. (Inl 98, w), getnameinfo = \<lambda>_. None, sock_close = \<lambda>s w. (Inr (), w - {s})\<rparr>"

lemma demo_net_laws: "net_fd_laws demo_net id"
  by (auto simp: net_fd_laws_def demo_net_def)

theorem inet_descriptors_witness:
  "inetConnect demo_net (Some ''h'') ''80'' 1 0 {} = (Inr 3, {3}) \<and> fd_result {} (Some 3) {3}
   \<and> inetListen demo_net ''80'' 5 {} = (None, {3})"
proof -
  have c: "inetConnect demo_net (Some ''h'') ''80'' 1 0 {} = (Inr 3, {3})"
    by (simp add: inetConnect_def demo_net_def demo_addr_def)
  have "inetListen demo_net ''80'' 5 {} = (None, {3})"
    by (simp add: inetListen_def inetPassiveSocket_def demo_net_def demo_addr_def)
  with c inet_descriptors [OF demo_net_laws, of "Some ''h''" "''80''" 1 0 "{}" "Inr 3" "{3}"] show ?thesis
    by (simp add: opt_fd_def)
qed

end
