(* ===== verification/Seqnum.thy ===== *)
theory Seqnum
  imports Stream_IO Get_Num Inet_Sockets
begin

text \<open>
  The sequence number services: the stream socket server and client of \<open>tlpi-dist/sockets\<close>
  (\<open>is_seqnum_sv.c\<close>, \<open>is_seqnum_v2_sv.c\<close>, \<open>is_seqnum_cl.c\<close>), built on \<open>readLine\<close>, \<open>atoi\<close>, \<open>getInt\<close> and the socket
  library, and the FIFO server and client of \<open>tlpi-dist/pipes\<close> (\<open>fifo_seqnum_server.c\<close>,
  \<open>fifo_seqnum_client.c\<close>).  The servers never return; \<open>n\<close> iterations of their loop are a function of \<open>n\<close>.
\<close>

subsection \<open>The host\<close>

record 'w host =
  hnet :: "'w net"
  ignore_sigpipe :: "'w \<Rightarrow> unit sysres \<times> 'w"
  accept :: "fd \<Rightarrow> 'w \<Rightarrow> (fd \<times> sockaddr) sysres \<times> 'w"
  resolve_name :: "sockaddr \<Rightarrow> (string \<times> string) option"
  sread :: "'w sys_read"
  swrite :: "'w sys_write"
  sout :: "string \<Rightarrow> 'w \<Rightarrow> 'w"
  serr :: "string \<Rightarrow> 'w \<Rightarrow> 'w"

definition INT_LEN :: nat where "INT_LEN = 30"
definition PORT_NUM :: string where "PORT_NUM = ''50000''"
definition BACKLOG :: int where "BACKLOG = 50"
definition ADDRSTRLEN :: nat where "ADDRSTRLEN = 1025 + 32 + 10"
definition IS_ADDR_STR_LEN :: nat where "IS_ADDR_STR_LEN = 4096"
definition AI_NUMERICSERV :: int where "AI_NUMERICSERV = 1024"

subsection \<open>The stream socket server\<close>

text \<open>One request: the new sequence number.\<close>

definition serve_request :: "'w host \<Rightarrow> fd \<Rightarrow> 32 word \<Rightarrow> 'w \<Rightarrow> (32 word \<times> 'w) option" where
  "serve_request h cfd seqNum w =
     (case readLine (sread h) cfd False INT_LEN w of
        None \<Rightarrow> None
      | Some (Inl _, _, w) \<Rightarrow> Some (seqNum, snd (sock_close (hnet h) cfd w))
      | Some (Inr n, reqLenStr, w) \<Rightarrow>
          if n = 0 then Some (seqNum, snd (sock_close (hnet h) cfd w))
          else
            (let reqLen = atoi reqLenStr
             in if reqLen \<le> 0 then Some (seqNum, snd (sock_close (hnet h) cfd w))
                else
                  (let seqNumStr = snprintf INT_LEN (show_int (sint seqNum) @ ''\<newline>'');
                       (r, w) = swrite h cfd seqNumStr w;
                       w = (if r = Inr (length seqNumStr) then w else serr h ''Error on write'' w);
                       (c, w) = sock_close (hnet h) cfd w
                   in Some (seqNum + word_of_int reqLen, case c of Inl _ \<Rightarrow> serr h ''close'' w | Inr _ \<Rightarrow> w))))"

definition is_seqnum_step :: "'w host \<Rightarrow> fd \<Rightarrow> 32 word \<Rightarrow> 'w \<Rightarrow> (32 word \<times> 'w) option" where
  "is_seqnum_step h lfd seqNum w =
     (case accept h lfd w of
        (Inl _, w) \<Rightarrow> Some (seqNum, serr h ''accept'' w)
      | (Inr (cfd, claddr), w) \<Rightarrow>
          (let addrStr = snprintf ADDRSTRLEN
                 (case resolve_name h claddr of
                    Some (host, service) \<Rightarrow> ''('' @ host @ '', '' @ service @ '')''
                  | None \<Rightarrow> ''(?UNKNOWN?)'')
           in serve_request h cfd seqNum (sout h (''Connection from '' @ addrStr @ ''\<newline>'') w)))"

definition is_seqnum_v2_step :: "'w host \<Rightarrow> fd \<Rightarrow> 32 word \<Rightarrow> 'w \<Rightarrow> (32 word \<times> 'w) option" where
  "is_seqnum_v2_step h lfd seqNum w =
     (case accept h lfd w of
        (Inl _, w) \<Rightarrow> Some (seqNum, serr h ''accept'' w)
      | (Inr (cfd, claddr), w) \<Rightarrow>
          serve_request h cfd seqNum
            (sout h (''Connection from '' @ inetAddressStr (hnet h) claddr IS_ADDR_STR_LEN @ ''\<newline>'') w))"

fun serve :: "('s \<Rightarrow> 'w \<Rightarrow> ('s \<times> 'w) option) \<Rightarrow> nat \<Rightarrow> 's \<Rightarrow> 'w \<Rightarrow> ('s \<times> 'w) option" where
  "serve step 0 s w = Some (s, w)"
| "serve step (Suc n) s w = (case step s w of None \<Rightarrow> None | Some (s, w) \<Rightarrow> serve step n s w)"

text \<open>Start of the server: its listening socket and the initial number.\<close>

fun sv_bind_loop :: "'w net \<Rightarrow> addrinfo list \<Rightarrow> 'w \<Rightarrow> fd outcome \<times> 'w" where
  "sv_bind_loop k [] w = (Exits 1, w)"
| "sv_bind_loop k (rp # rps) w =
     (case socket k (ai_family rp) (ai_socktype rp) (ai_protocol rp) w of
        (Inl _, w) \<Rightarrow> sv_bind_loop k rps w
      | (Inr lfd, w) \<Rightarrow>
          (case setsockopt k lfd w of
             (Inl _, w) \<Rightarrow> (Exits 1, w)
           | (Inr _, w) \<Rightarrow>
               (case bind_to k lfd (ai_addr rp) w of
                  (Inr _, w) \<Rightarrow> (Returns lfd, w)
                | (Inl _, w) \<Rightarrow> sv_bind_loop k rps (snd (sock_close k lfd w)))))"

definition init_seqnum :: "string list \<Rightarrow> 32 word option" where
  "init_seqnum args =
     (case args of
        [] \<Rightarrow> Some 0
      | a # _ \<Rightarrow>
          if a = ''--help'' then None
          else (case getInt (Some a) 0 (Some ''init-seq-num'') of Inl _ \<Rightarrow> None | Inr v \<Rightarrow> Some (word_of_int v)))"

definition is_seqnum_start :: "'w host \<Rightarrow> string list \<Rightarrow> 'w \<Rightarrow> (fd \<times> 32 word) outcome \<times> 'w" where
  "is_seqnum_start h args w =
     (case init_seqnum args of
        None \<Rightarrow> (Exits 1, w)
      | Some seqNum \<Rightarrow>
          (case ignore_sigpipe h w of
             (Inl _, w) \<Rightarrow> (Exits 1, w)
           | (Inr _, w) \<Rightarrow>
               (case getaddrinfo (hnet h) None PORT_NUM
                   \<lparr>h_family = AF_UNSPEC, h_socktype = SOCK_STREAM, h_flags = AI_PASSIVE + AI_NUMERICSERV\<rparr> w of
                  (Inl _, w) \<Rightarrow> (Exits 1, w)
                | (Inr res, w) \<Rightarrow>
                    andthen (sv_bind_loop (hnet h) res w) (\<lambda>lfd w.
                      (case listen_on (hnet h) lfd BACKLOG w of
                         (Inl _, w) \<Rightarrow> (Exits 1, w)
                       | (Inr _, w) \<Rightarrow> (Returns (lfd, seqNum), w))))))"

definition is_seqnum_v2_start :: "'w host \<Rightarrow> (nat \<Rightarrow> bool) \<Rightarrow> string list \<Rightarrow> 'w \<Rightarrow> (fd \<times> 32 word) outcome \<times> 'w" where
  "is_seqnum_v2_start h mem args w =
     (case init_seqnum args of
        None \<Rightarrow> (Exits 1, w)
      | Some seqNum \<Rightarrow>
          (case ignore_sigpipe h w of
             (Inl _, w) \<Rightarrow> (Exits 1, w)
           | (Inr _, w) \<Rightarrow>
               (case inetListen (hnet h) PORT_NUM 5 w of
                  (None, w) \<Rightarrow> (Exits 1, w)
                | (Some (lfd, addrlen), w) \<Rightarrow> if mem addrlen then (Returns (lfd, seqNum), w) else (Exits 1, w))))"

subsection \<open>The stream socket client\<close>

text \<open>After the connection is made; \<^const>\<open>None\<close> when the client waits forever.\<close>

definition cl_exchange :: "'w host \<Rightarrow> fd \<Rightarrow> string \<Rightarrow> 'w \<Rightarrow> (unit outcome \<times> 'w) option" where
  "cl_exchange h cfd reqLenStr w =
     (case swrite h cfd reqLenStr w of
        (r, w) \<Rightarrow>
          if r \<noteq> Inr (length reqLenStr) then Some (Exits 1, w)
          else
            (case swrite h cfd ''\<newline>'' w of
               (r, w) \<Rightarrow>
                 if r \<noteq> Inr 1 then Some (Exits 1, w)
                 else
                   (case readLine (sread h) cfd False INT_LEN w of
                      None \<Rightarrow> None
                    | Some (Inl _, _, w) \<Rightarrow> Some (Exits 1, w)
                    | Some (Inr n, seqNumStr, w) \<Rightarrow>
                        if n = 0 then Some (Exits 1, w)
                        else Some (Exits 0, sout h (''Sequence number: '' @ takeWhile (\<lambda>c. c \<noteq> CHR 0x00) seqNumStr) w))))"

definition is_seqnum_cl_main :: "'w host \<Rightarrow> string list \<Rightarrow> 'w \<Rightarrow> (unit outcome \<times> 'w) option" where
  "is_seqnum_cl_main h args w =
     (case args of
        [] \<Rightarrow> Some (Exits 1, w)
      | host # rest \<Rightarrow>
          if host = ''--help'' then Some (Exits 1, w)
          else
            (case getaddrinfo (hnet h) (Some host) PORT_NUM
                \<lparr>h_family = AF_UNSPEC, h_socktype = SOCK_STREAM, h_flags = AI_NUMERICSERV\<rparr> w of
               (Inl _, w) \<Rightarrow> Some (Exits 1, w)
             | (Inr res, w) \<Rightarrow>
                 (case connect_loop (hnet h) res 0 w of
                    (Inl _, w) \<Rightarrow> Some (Exits 1, w)
                  | (Inr cfd, w) \<Rightarrow> cl_exchange h cfd (case rest of [] \<Rightarrow> ''1'' | a # _ \<Rightarrow> a) w)))"

definition is_seqnum_v2_cl_main :: "'w host \<Rightarrow> string list \<Rightarrow> 'w \<Rightarrow> (unit outcome \<times> 'w) option" where
  "is_seqnum_v2_cl_main h args w =
     (case args of
        [] \<Rightarrow> Some (Exits 1, w)
      | host # rest \<Rightarrow>
          if host = ''--help'' then Some (Exits 1, w)
          else
            (case inetConnect (hnet h) (Some host) PORT_NUM SOCK_STREAM 0 w of
               (Inl _, w) \<Rightarrow> Some (Exits 1, w)
             | (Inr cfd, w) \<Rightarrow> cl_exchange h cfd (case rest of [] \<Rightarrow> ''1'' | a # _ \<Rightarrow> a) w))"

subsection \<open>The FIFO server and client\<close>

record request =
  req_pid :: int
  seqLen :: int

record response =
  resp_seqNum :: int

text \<open>
  A read or write that transfers another number of bytes than the size of the structure is \<^const>\<open>None\<close>
  or \<^const>\<open>False\<close>.
\<close>

record 'w fifos =
  mkfifo :: "string \<Rightarrow> 'w \<Rightarrow> unit sysres \<times> 'w"
  open_fifo :: "string \<Rightarrow> bool \<Rightarrow> 'w \<Rightarrow> fd sysres \<times> 'w"
  read_request :: "fd \<Rightarrow> 'w \<Rightarrow> request option \<times> 'w"
  write_request :: "fd \<Rightarrow> request \<Rightarrow> 'w \<Rightarrow> bool \<times> 'w"
  read_response :: "fd \<Rightarrow> 'w \<Rightarrow> response option \<times> 'w"
  write_response :: "fd \<Rightarrow> response \<Rightarrow> 'w \<Rightarrow> bool \<times> 'w"
  fifo_close :: "fd \<Rightarrow> 'w \<Rightarrow> unit sysres \<times> 'w"
  atexit_ok :: bool
  set_sigpipe :: "'w \<Rightarrow> unit sysres \<times> 'w"
  fout :: "string \<Rightarrow> 'w \<Rightarrow> 'w"
  ferr :: "string \<Rightarrow> 'w \<Rightarrow> 'w"
  unlink_fifo :: "string \<Rightarrow> 'w \<Rightarrow> 'w"

definition SERVER_FIFO :: string where "SERVER_FIFO = ''/tmp/seqnum_sv''"

definition client_fifo_name :: "int \<Rightarrow> string" where
  "client_fifo_name p = snprintf (19 + 20) (''/tmp/seqnum_cl.'' @ show_int p)"

definition fifo_start :: "'w fifos \<Rightarrow> 'w \<Rightarrow> fd outcome \<times> 'w" where
  "fifo_start k w =
     (case mkfifo k SERVER_FIFO w of
        (m, w) \<Rightarrow>
          if m \<noteq> Inr () \<and> m \<noteq> Inl EEXIST then (Exits 1, w)
          else
            (case open_fifo k SERVER_FIFO False w of
               (Inl _, w) \<Rightarrow> (Exits 1, w)
             | (Inr serverFd, w) \<Rightarrow>
                 (case open_fifo k SERVER_FIFO True w of
                    (Inl _, w) \<Rightarrow> (Exits 1, w)
                  | (Inr _, w) \<Rightarrow>
                      (case set_sigpipe k w of
                         (Inl _, w) \<Rightarrow> (Exits 1, w)
                       | (Inr _, w) \<Rightarrow> (Returns serverFd, w)))))"

text \<open>The counter is an \<open>int\<close>: exceeding its range is undefined behaviour, here \<^const>\<open>None\<close>.\<close>

definition fifo_step :: "'w fifos \<Rightarrow> fd \<Rightarrow> int \<Rightarrow> 'w \<Rightarrow> (int \<times> 'w) option" where
  "fifo_step k serverFd seqNum w =
     (case read_request k serverFd w of
        (None, w) \<Rightarrow> Some (seqNum, ferr k ''Error reading request; discarding\<newline>'' w)
      | (Some req, w) \<Rightarrow>
          (let clientFifo = client_fifo_name (req_pid req)
           in case open_fifo k clientFifo True w of
                (Inl _, w) \<Rightarrow> Some (seqNum, ferr k (''open '' @ clientFifo) w)
              | (Inr clientFd, w) \<Rightarrow>
                  (let (ok, w) = write_response k clientFd \<lparr>resp_seqNum = seqNum\<rparr> w;
                       w = (if ok then w else ferr k (''Error writing to FIFO '' @ clientFifo @ ''\<newline>'') w);
                       (c, w) = fifo_close k clientFd w;
                       w = (case c of Inl _ \<Rightarrow> ferr k ''close'' w | Inr _ \<Rightarrow> w)
                   in if INT_MIN \<le> seqNum + seqLen req \<and> seqNum + seqLen req \<le> INT_MAX
                      then Some (seqNum + seqLen req, w) else None)))"

definition fifo_client :: "'w fifos \<Rightarrow> int \<Rightarrow> string list \<Rightarrow> 'w \<Rightarrow> unit outcome \<times> 'w" where
  "fifo_client k me args w =
     (if args \<noteq> [] \<and> hd args = ''--help'' then (Exits 1, w)
      else
        (let clientFifo = client_fifo_name me;
             (m, w) = mkfifo k clientFifo w;
             quit = (\<lambda>c w. (Exits c, unlink_fifo k clientFifo w))
         in if m \<noteq> Inr () \<and> m \<noteq> Inl EEXIST \<or> \<not> atexit_ok k then (Exits 1, w)
            else
              (case (case args of [] \<Rightarrow> Inr 1 | a # _ \<Rightarrow> getInt (Some a) GN_GT_0 (Some ''seq-len'')) of
                 Inl _ \<Rightarrow> quit 1 w
               | Inr len \<Rightarrow>
                   (case open_fifo k SERVER_FIFO True w of
                      (Inl _, w) \<Rightarrow> quit 1 w
                    | (Inr serverFd, w) \<Rightarrow>
                        (let (ok, w) = write_request k serverFd \<lparr>req_pid = me, seqLen = len\<rparr> w
                         in if \<not> ok then quit 1 w
                            else
                              (case open_fifo k clientFifo False w of
                                 (Inl _, w) \<Rightarrow> quit 1 w
                               | (Inr clientFd, w) \<Rightarrow>
                                   (case read_response k clientFd w of
                                      (None, w) \<Rightarrow> quit 1 w
                                    | (Some resp, w) \<Rightarrow>
                                        quit 0 (fout k (show_int (resp_seqNum resp) @ ''\<newline>'') w))))))))"

subsection \<open>What the servers grant\<close>

text \<open>Requests without a positive length get no answer and do not change the counter.\<close>

fun grants :: "('n \<Rightarrow> int \<Rightarrow> 'n) \<Rightarrow> 'n \<Rightarrow> int list \<Rightarrow> ('n \<times> int) list" where
  "grants add s [] = []"
| "grants add s (n # ns) = (if n \<le> 0 then grants add s ns else (s, n) # grants add (add s n) ns)"

fun counter :: "('n \<Rightarrow> int \<Rightarrow> 'n) \<Rightarrow> 'n \<Rightarrow> int list \<Rightarrow> 'n" where
  "counter add s [] = s"
| "counter add s (n # ns) = counter add (if n \<le> 0 then s else add s n) ns"

definition add32 :: "32 word \<Rightarrow> int \<Rightarrow> 32 word" where
  "add32 s n = s + word_of_int n"

definition apart :: "(int \<times> int) list \<Rightarrow> bool" where
  "apart gs \<longleftrightarrow> sorted_wrt (\<lambda>(s, m) (t, n). s + m \<le> t) gs"

lemma grants_ge: "(t, n) \<in> set (grants (+) s ns) \<Longrightarrow> s \<le> (t :: int)"
proof (induction ns arbitrary: s)
  case (Cons m ns)
  from Cons.prems Cons.IH [of s] Cons.IH [of "s + m"] show ?case by (auto split: if_splits)
qed simp

lemma grants_apart: "apart (grants (+) s ns)"
  unfolding apart_def by (induction ns arbitrary: s) (auto dest: grants_ge)

text \<open>As long as the counter does not wrap around, the 32-bit numbers are those of the integers.\<close>

lemma uint_add32: "0 < n \<Longrightarrow> uint s + n < 2 ^ 32 \<Longrightarrow> uint (add32 s n) = uint s + n"
  by (simp add: add32_def uint_word_ariths(1) uint_word_of_int mod_simps)

lemma grants_add32:
  "uint s + sum_list (filter ((<) 0) ns) < 2 ^ 32 \<Longrightarrow>
   map (map_prod uint id) (grants add32 s ns) = grants (+) (uint s) ns"
proof (induction ns arbitrary: s)
  case (Cons n ns)
  have rest: "0 \<le> sum_list (filter ((<) 0) ns)" by (rule sum_list_nonneg) simp
  show ?case
  proof (cases "n \<le> 0")
    case True
    then show ?thesis using Cons by simp
  next
    case False
    then have "uint (add32 s n) = uint s + n" using Cons.prems rest by (intro uint_add32) simp_all
    then show ?thesis using Cons.IH [of "add32 s n"] Cons.prems False by (simp add: add.assoc)
  qed
qed simp

lemma counter_grants: "counter add s (ms @ ns) = counter add (counter add s ms) ns"
  by (induction ms arbitrary: s) simp_all

subsection \<open>Serving\<close>

definition sv_laws ::
    "'w host \<Rightarrow> fd \<Rightarrow> ('w \<Rightarrow> string list) \<Rightarrow> (fd \<Rightarrow> 'w \<Rightarrow> string) \<Rightarrow> ('w \<Rightarrow> nat) \<Rightarrow> ('w \<Rightarrow> string list) \<Rightarrow> bool" where
  "sv_laws h lfd pending content intr replies \<longleftrightarrow>
     (\<forall>w r rs. pending w = r # rs \<longrightarrow>
        (\<exists>c a w'. accept h lfd w = (Inr (c, a), w') \<and> pending w' = rs \<and> content c w' = r \<and> replies w' = replies w))
     \<and> (\<forall>c. stream_source (sread h) c (content c) intr)
     \<and> (\<forall>c n w. pending (snd (sread h c n w)) = pending w \<and> replies (snd (sread h c n w)) = replies w)
     \<and> (\<forall>c bs w. \<exists>w'. swrite h c bs w = (Inr (length bs), w') \<and> pending w' = pending w \<and> replies w' = replies w @ [bs])
     \<and> (\<forall>c w. pending (snd (sock_close (hnet h) c w)) = pending w \<and> replies (snd (sock_close (hnet h) c w)) = replies w)
     \<and> (\<forall>s w. pending (serr h s w) = pending w \<and> replies (serr h s w) = replies w)
     \<and> (\<forall>c s w. pending (sout h s w) = pending w \<and> replies (sout h s w) = replies w \<and> content c (sout h s w) = content c w)"

lemma readLine_loop_frame:
  "readLine_loop rd fd n buf w = Some res \<Longrightarrow> (\<And>k v. f (snd (rd fd k v)) = f v) \<Longrightarrow> f (snd (snd res)) = f w"
proof (induction rd fd n buf w res rule: readLine_loop.raw_induct [rotated, consumes 1, case_names step])
  case (step loop rd fd n buf w res)
  obtain x w1 where x: "rd fd 1 w = (x, w1)" by fastforce
  then have w1: "f w1 = f w" using step.prems [of 1 w] by simp
  have IH: "loop rd fd m b v = Some y \<Longrightarrow> f (snd (snd y)) = f v" for m b v y
    by (rule step.IH [where fd = rd]) (use step.prems in auto)
  show ?case
  proof (cases x)
    case (Inl e)
    then show ?thesis using step.hyps x w1 IH by (auto split: if_splits)
  next
    case (Inr bs)
    then show ?thesis using step.hyps x w1 IH by (cases bs) (auto simp: Let_def split: if_splits)
  qed
qed

lemma readLine_frame:
  assumes "readLine rd fd b n w = Some (r, buf, w')" "\<And>k v. f (snd (rd fd k v)) = f v"
  shows "f w' = f w"
  using readLine_loop_frame [of rd fd n "[]" w "(r, buf, w')" f] assms by (auto simp: readLine_def split: if_splits)

lemma length_show_base: "1 < b \<Longrightarrow> n < b ^ Suc k \<Longrightarrow> length (show_base b n) \<le> Suc k"
proof (induction k arbitrary: n)
  case 0
  then show ?case by (simp add: show_base.simps)
next
  case (Suc k)
  show ?case
  proof (cases "n < b")
    case False
    have "n div b < b ^ Suc k" using Suc.prems by (simp add: div_less_iff_less_mult mult.commute)
    then show ?thesis using Suc.IH [of "n div b"] Suc.prems(1) False by (subst show_base.simps) simp
  qed (simp add: show_base.simps)
qed

lemma length_show_int32: "length (show_int (sint (s :: 32 word))) < 29"
proof -
  have "- (2 ^ 31) \<le> sint s" "sint s < 2 ^ 31" using sint_range_size [of s] by (simp_all add: word_size)
  then have "nat \<bar>sint s\<bar> < 10 ^ Suc 9" by simp
  from length_show_base [OF _ this] have "length (show_base 10 (nat \<bar>sint s\<bar>)) \<le> 10" by simp
  then show ?thesis by (auto simp: show_int_def abs_if split: if_splits)
qed

definition reply :: "32 word \<Rightarrow> string" where
  "reply s = show_int (sint s) @ ''\<newline>''"

definition request_len :: "string \<Rightarrow> int" where
  "request_len bytes = (let l = take (INT_LEN - 1) (first_line bytes) in if l = [] then 0 else atoi l)"

lemma snprintf_reply: "snprintf INT_LEN (show_int (sint s) @ ''\<newline>'') = reply s"
  using length_show_int32 [of s] by (simp add: reply_def INT_LEN_def)

lemma serve_request_spec:
  assumes laws: "sv_laws h lfd pending content intr replies"
  shows "\<exists>w'. serve_request h c s w
       = Some (if request_len (content c w) \<le> 0 then s else add32 s (request_len (content c w)), w')
     \<and> pending w' = pending w
     \<and> replies w' = replies w @ (if request_len (content c w) \<le> 0 then [] else [reply s])"
proof -
  define l where "l = take (INT_LEN - 1) (first_line (content c w))"
  have len: "request_len (content c w) = (if l = [] then 0 else atoi l)" by (simp add: l_def request_len_def Let_def)
  have rd: "stream_source (sread h) c (content c) intr"
    and keep: "pending (snd (sread h c n v)) = pending v" "replies (snd (sread h c n v)) = replies v"
    and cl: "pending (snd (sock_close (hnet h) c v)) = pending v" "replies (snd (sock_close (hnet h) c v)) = replies v"
    and er: "pending (serr h m v) = pending v" "replies (serr h m v) = replies v" for n v m
    using laws unfolding sv_laws_def by blast+
  have wr: "\<exists>w'. swrite h c bs v = (Inr (length bs), w') \<and> pending w' = pending v \<and> replies w' = replies v @ [bs]" for bs v
    using laws unfolding sv_laws_def by blast
  obtain w1 where w1: "readLine (sread h) c False INT_LEN w = Some (Inr (length l), l, w1)"
    using readLine_loop_total [OF rd, of "[]" INT_LEN w] by (auto simp: readLine_def INT_LEN_def l_def)
  have f1: "pending w1 = pending w" "replies w1 = replies w"
    using readLine_frame [OF w1, of pending] readLine_frame [OF w1, of replies] keep by auto
  show ?thesis
  proof (cases "request_len (content c w) \<le> 0")
    case True
    then show ?thesis using w1 f1 cl by (auto simp: serve_request_def len Let_def)
  next
    case False
    obtain w2 where w2: "swrite h c (reply s) w1 = (Inr (length (reply s)), w2)" "pending w2 = pending w1"
      "replies w2 = replies w1 @ [reply s]" using wr by blast
    obtain x w3 where w3: "sock_close (hnet h) c w2 = (x, w3)" by fastforce
    then have "pending w3 = pending w2" "replies w3 = replies w2" using cl [of w2] by simp_all
    then show ?thesis
      using False w1 f1 w2 w3 er
      by (cases x) (auto simp: serve_request_def len Let_def snprintf_reply add32_def split: if_splits)
  qed
qed

lemma serve_spec:
  assumes step: "\<And>r rs s w. pending w = r # rs \<Longrightarrow>
      \<exists>w'. step s w = Some (if len r \<le> 0 then s else add s (len r), w') \<and> pending w' = rs
        \<and> replies w' = replies w @ (if len r \<le> 0 then [] else [answer s])"
  shows "pending w = rs \<Longrightarrow> \<exists>w'. serve step (length rs) s w = Some (counter add s (map len rs), w') \<and> pending w' = []
        \<and> replies w' = replies w @ map (answer \<circ> fst) (grants add s (map len rs))"
proof (induction rs arbitrary: s w)
  case (Cons r rs)
  obtain w1 where w1: "step s w = Some (if len r \<le> 0 then s else add s (len r), w1)" "pending w1 = rs"
    "replies w1 = replies w @ (if len r \<le> 0 then [] else [answer s])"
    using step [OF Cons.prems] by blast
  from Cons.IH [OF w1(2)] show ?case using w1 by (auto split: if_splits)
qed simp

lemma is_seqnum_steps:
  assumes laws: "sv_laws h lfd pending content intr replies" and p: "pending w = r # rs"
    and st: "step = is_seqnum_step h lfd \<or> step = is_seqnum_v2_step h lfd"
  shows "\<exists>w'. step s w = Some (if request_len r \<le> 0 then s else add32 s (request_len r), w') \<and> pending w' = rs
        \<and> replies w' = replies w @ (if request_len r \<le> 0 then [] else [reply s])"
proof -
  obtain c a w1 where w1: "accept h lfd w = (Inr (c, a), w1)" "pending w1 = rs" "content c w1 = r" "replies w1 = replies w"
    using laws p unfolding sv_laws_def by blast
  have so: "pending (sout h m v) = pending v" "replies (sout h m v) = replies v" "content c (sout h m v) = content c v" for m v
    using laws unfolding sv_laws_def by blast+
  from st w1(1) obtain m where "step s w = serve_request h c s (sout h m w1)"
    by (auto simp: is_seqnum_step_def is_seqnum_v2_step_def Let_def)
  with serve_request_spec [OF laws, of c s "sout h m w1"] show ?thesis unfolding so w1(2-4) by simp
qed

lemma first_line_newline: "CHR 0x0A \<notin> set t \<Longrightarrow> first_line (t @ ''\<newline>'') = t @ ''\<newline>''"
  by (induction t) auto

lemma request_len_show: "0 < n \<Longrightarrow> n \<le> INT_MAX \<Longrightarrow> request_len (show_int n @ ''\<newline>'') = n"
proof -
  assume n: "0 < n" "n \<le> INT_MAX"
  have nl: "CHR 0x0A \<notin> set (show_int n)" by (rule show_int_notin) simp
  have "nat n < 10 ^ Suc 9" using n by (simp add: c_limits)
  from length_show_base [OF _ this] have "length (show_int n) \<le> 10" using n by (simp add: show_int_def)
  moreover have "atoi (show_int n @ ''\<newline>'') = n"
    using n by (intro atoi_show_int) (simp_all add: c_limits valid_digit_def digit_num_def)
  ultimately show ?thesis using first_line_newline [OF nl] by (simp add: request_len_def INT_LEN_def Let_def)
qed

text \<open>
  C19: the two stream socket servers answer the requests in order, each positive length with the current
  number, which then advances by the length modulo \<open>2 ^ 32\<close>; other requests, which include everything that is
  not a number, get no answer and change nothing.  As long as the counter does not wrap around, no two
  clients are granted overlapping ranges.
\<close>

theorem seqnum_serves:
  assumes "sv_laws h lfd pending content intr replies" "pending w = reqs"
    and "step = is_seqnum_step h lfd \<or> step = is_seqnum_v2_step h lfd"
    and "gs = grants add32 s (map request_len reqs)"
  shows "\<exists>w'. serve step (length reqs) s w = Some (counter add32 s (map request_len reqs), w')
      \<and> replies w' = replies w @ map (reply \<circ> fst) gs
      \<and> (uint s + sum_list (filter ((<) 0) (map request_len reqs)) < 2 ^ 32 \<longrightarrow> apart (map (map_prod uint id) gs))"
proof -
  have "\<exists>w'. serve step (length reqs) s w = Some (counter add32 s (map request_len reqs), w') \<and> pending w' = []
      \<and> replies w' = replies w @ map (reply \<circ> fst) (grants add32 s (map request_len reqs))"
    by (rule serve_spec [where pending = pending and len = request_len and add = add32])
       (use is_seqnum_steps [OF assms(1) _ assms(3)] assms(2) in auto)
  then show ?thesis using grants_add32 [of s "map request_len reqs"] grants_apart assms(4) by fastforce
qed

text \<open>A host whose clients have all sent their request: the waiting requests, the unread input and the answers.\<close>

definition demo_host :: "(string list \<times> string \<times> string list) host" where
  "demo_host =
     \<lparr>hnet = \<lparr>getaddrinfo = \<lambda>_ _ _ w. (Inr [], w), socket = \<lambda>_ _ _ w. (Inl 1, w), setsockopt = \<lambda>_ w. (Inr (), w),
        bind_to = \<lambda>_ _ w. (Inr (), w), connect_to = \<lambda>_ _ w. (Inr (), w), listen_on = \<lambda>_ _ w. (Inr (), w),
        getnameinfo = \<lambda>_. None, sock_close = \<lambda>_ w. (Inr (), w)\<rparr>,
      ignore_sigpipe = \<lambda>w. (Inr (), w),
      accept = \<lambda>_ (p, c, r). (case p of [] \<Rightarrow> (Inl 4, (p, c, r)) | q # qs \<Rightarrow> (Inr (5, ''''), (qs, q, r))),
      resolve_name = \<lambda>_. None, sread = \<lambda>_ n (p, c, r). (Inr (take n c), (p, drop n c, r)),
      swrite = \<lambda>_ bs (p, c, r). (Inr (length bs), (p, c, r @ [bs])), sout = \<lambda>_ w. w, serr = \<lambda>_ w. w\<rparr>"

lemma demo_host_laws: "sv_laws demo_host 3 fst (\<lambda>_. fst \<circ> snd) (\<lambda>_. 0) (snd \<circ> snd)"
  unfolding sv_laws_def stream_source_def by (auto simp: demo_host_def)

theorem seqnum_serves_witness:
  "\<exists>w'. serve (is_seqnum_step demo_host 3) 3 7 ([''5\<newline>'', ''bad\<newline>'', ''2\<newline>''], '''', []) = Some (14, w')
      \<and> snd (snd w') = [reply 7, reply 12] \<and> apart [(7, 5), (12, 2)]"
proof -
  let ?reqs = "[''5\<newline>'', ''bad\<newline>'', ''2\<newline>'']"
  have r: "map request_len ?reqs = [5, 0, 2]" by code_simp
  have g: "grants add32 7 [5, 0, 2] = [(7, 5), (12, 2)]" "counter add32 7 [5, 0, 2] = 14" by (simp_all add: add32_def)
  from seqnum_serves [OF demo_host_laws, of "(?reqs, '''', [])" ?reqs "is_seqnum_step demo_host 3" _ 7]
  show ?thesis unfolding r g by (simp add: numeral_3_eq_3)
qed

text \<open>
  Against a server that answers a complete request line with a number, the client that asks for \<open>n\<close>
  numbers sends a request that the server reads as \<open>n\<close>, prints the answer and exits with status 0.
\<close>

theorem seqnum_client:
  assumes "0 < n" "n \<le> INT_MAX"
    and rd: "stream_source (sread h) c (content c) intr" "\<forall>k v. sent (snd (sread h c k v)) = sent v"
    and wr: "\<forall>bs v. \<exists>v'. swrite h c bs v = (Inr (length bs), v') \<and> sent v' = sent v @ bs"
    and sv: "\<forall>v bs v'. swrite h c bs v = (Inr (length bs), v') \<longrightarrow> sent v' = show_int n @ ''\<newline>'' \<longrightarrow> content c v' = reply s"
    and w: "sent w = []"
  shows "\<exists>w'. cl_exchange h c (show_int n) w = Some (Exits 0, sout h (''Sequence number: '' @ reply s) w')
      \<and> request_len (sent w') = n"
proof -
  obtain w1 where w1: "swrite h c (show_int n) w = (Inr (length (show_int n)), w1)" "sent w1 = show_int n"
    using wr w by fastforce
  obtain w2 where w2: "swrite h c ''\<newline>'' w1 = (Inr 1, w2)" "sent w2 = show_int n @ ''\<newline>''"
    using wr [rule_format, of "''\<newline>''" w1] w1(2) by auto
  have nl: "CHR 0x0A \<notin> set (show_int (sint s))" "CHR 0x00 \<notin> set (show_int (sint s))" by (rule show_int_notin, simp)+
  have line: "first_line (reply s) = reply s"
    unfolding reply_def by (rule first_line_newline [OF nl(1)])
  have l: "length (reply s) \<le> INT_LEN - 1" using length_show_int32 [of s] by (simp add: reply_def INT_LEN_def)
  have c: "content c w2 = reply s" using sv [rule_format, of "''\<newline>''" w1 w2] w2 by simp
  obtain w3 where w3: "readLine (sread h) c False INT_LEN w2 = Some (Inr (length (reply s)), reply s, w3)"
    using readLine_loop_total [OF rd(1), of "[]" INT_LEN w2] l by (auto simp: readLine_def INT_LEN_def c line)
  have "sent w3 = sent w2" by (rule readLine_frame [OF w3, of sent]) (use rd(2) in simp)
  moreover have tw: "takeWhile (\<lambda>c. c \<noteq> CHR 0x00) (reply s) = reply s"
    using nl(2) by (auto simp: reply_def takeWhile_eq_all_conv)
  moreover have "reply s \<noteq> []" by (simp add: reply_def)
  ultimately show ?thesis
    using w1 w2 w3 request_len_show [OF assms(1,2)] by (intro exI [of _ w3]) (simp add: cl_exchange_def del: takeWhile_eq_all_conv)
qed

text \<open>A connection to a server that answers 42; the world is what has been sent and what is unread.\<close>

definition demo_client :: "(string \<times> string) host" where
  "demo_client =
     \<lparr>hnet = \<lparr>getaddrinfo = \<lambda>_ _ _ w. (Inr [], w), socket = \<lambda>_ _ _ w. (Inl 1, w), setsockopt = \<lambda>_ w. (Inr (), w),
        bind_to = \<lambda>_ _ w. (Inr (), w), connect_to = \<lambda>_ _ w. (Inr (), w), listen_on = \<lambda>_ _ w. (Inr (), w),
        getnameinfo = \<lambda>_. None, sock_close = \<lambda>_ w. (Inr (), w)\<rparr>,
      ignore_sigpipe = \<lambda>w. (Inr (), w), accept = \<lambda>_ w. (Inl 4, w), resolve_name = \<lambda>_. None,
      sread = \<lambda>_ n (s, inp). (Inr (take n inp), (s, drop n inp)),
      swrite = \<lambda>_ bs (s, inp). (Inr (length bs), (s @ bs, reply 42)), sout = \<lambda>_ w. w, serr = \<lambda>_ w. w\<rparr>"

theorem seqnum_client_witness:
  "\<exists>w'. cl_exchange demo_client 3 (show_int 10) ([], []) = Some (Exits 0, w') \<and> request_len (fst w') = 10"
proof -
  have src: "stream_source (sread demo_client) 3 snd (\<lambda>_. 0)"
    by (auto simp: stream_source_def demo_client_def)
  have "(10 :: int) \<le> INT_MAX" by (simp add: c_limits)
  from seqnum_client [OF _ this, where h = demo_client and c = 3 and content = "\<lambda>_. snd" and sent = fst
      and w = "([], [])" and s = 42, OF _ src] show ?thesis
    by (auto simp: demo_client_def)
qed

text \<open>The FIFO server.\<close>

definition fifo_laws ::
    "'w fifos \<Rightarrow> fd \<Rightarrow> ('w \<Rightarrow> request list) \<Rightarrow> ('w \<Rightarrow> fd \<Rightarrow> string) \<Rightarrow> ('w \<Rightarrow> (string \<times> int) list) \<Rightarrow> bool" where
  "fifo_laws k sfd pending owner answers \<longleftrightarrow>
     (\<forall>w r rs. pending w = r # rs \<longrightarrow>
        (\<exists>w'. read_request k sfd w = (Some r, w') \<and> pending w' = rs \<and> answers w' = answers w))
     \<and> (\<forall>name w. \<exists>c w'. open_fifo k name True w = (Inr c, w') \<and> owner w' c = name
          \<and> pending w' = pending w \<and> answers w' = answers w)
     \<and> (\<forall>c r w. \<exists>w'. write_response k c r w = (True, w') \<and> pending w' = pending w
          \<and> answers w' = answers w @ [(owner w c, resp_seqNum r)])
     \<and> (\<forall>c w. pending (snd (fifo_close k c w)) = pending w \<and> answers (snd (fifo_close k c w)) = answers w)
     \<and> (\<forall>m w. pending (ferr k m w) = pending w \<and> answers (ferr k m w) = answers w)"

lemma fifo_step_spec:
  assumes laws: "fifo_laws k sfd pending owner answers" and p: "pending w = r # rs"
    and range: "INT_MIN \<le> s + seqLen r" "s + seqLen r \<le> INT_MAX"
  shows "\<exists>w'. fifo_step k sfd s w = Some (s + seqLen r, w') \<and> pending w' = rs
     \<and> answers w' = answers w @ [(client_fifo_name (req_pid r), s)]"
proof -
  let ?name = "client_fifo_name (req_pid r)"
  obtain w1 where w1: "read_request k sfd w = (Some r, w1)" "pending w1 = rs" "answers w1 = answers w"
    using laws p unfolding fifo_laws_def by blast
  obtain c w2 where w2: "open_fifo k ?name True w1 = (Inr c, w2)" "owner w2 c = ?name" "pending w2 = rs" "answers w2 = answers w"
    using laws w1 unfolding fifo_laws_def by metis
  obtain w3 where w3: "write_response k c \<lparr>resp_seqNum = s\<rparr> w2 = (True, w3)" "pending w3 = rs"
    "answers w3 = answers w @ [(?name, s)]"
    using laws w2 unfolding fifo_laws_def by (metis response.select_convs(1))
  obtain x w4 where w4: "fifo_close k c w3 = (x, w4)" by fastforce
  have "pending w4 = rs" "answers w4 = answers w @ [(?name, s)]"
    "pending (ferr k m w4) = pending w4" "answers (ferr k m w4) = answers w4" for m
    using laws w3 w4 unfolding fifo_laws_def by (metis snd_conv)+
  then show ?thesis
    using w1 w2 w3 w4 range by (cases x) (auto simp: fifo_step_def Let_def)
qed

text \<open>
  The FIFO server answers each request of a positive length on the FIFO of the process that made it,
  with the sum of the lengths before it, so that the granted ranges do not overlap, as long as the sum of
  all lengths is within the range of \<open>int\<close>.
\<close>

theorem fifo_serves:
  assumes "fifo_laws k sfd pending owner answers" "pending w = reqs" "\<forall>r \<in> set reqs. 0 < seqLen r"
    and "0 \<le> s" "s + sum_list (map seqLen reqs) \<le> INT_MAX"
  shows "\<exists>w'. serve (fifo_step k sfd) (length reqs) s w = Some (s + sum_list (map seqLen reqs), w')
      \<and> answers w' = answers w @ zip (map (client_fifo_name \<circ> req_pid) reqs) (map fst (grants (+) s (map seqLen reqs)))
      \<and> length (grants (+) s (map seqLen reqs)) = length reqs \<and> apart (grants (+) s (map seqLen reqs))"
  using assms(2-)
proof (induction reqs arbitrary: s w)
  case Nil
  then show ?case by (simp add: apart_def)
next
  case (Cons r rs)
  have "0 \<le> sum_list (map seqLen rs)" using Cons.prems(2) by (intro sum_list_nonneg) auto
  then have range: "INT_MIN \<le> s + seqLen r" "s + seqLen r \<le> INT_MAX" using Cons.prems by (simp_all add: c_limits)
  obtain w1 where w1: "fifo_step k sfd s w = Some (s + seqLen r, w1)" "pending w1 = rs"
    "answers w1 = answers w @ [(client_fifo_name (req_pid r), s)]"
    using fifo_step_spec [OF assms(1) Cons.prems(1) range] by blast
  have "\<forall>r \<in> set rs. 0 < seqLen r" "0 \<le> s + seqLen r" "s + seqLen r + sum_list (map seqLen rs) \<le> INT_MAX"
    using Cons.prems by simp_all
  from Cons.IH [OF w1(2) this] w1 Cons.prems(2) show ?case
    using grants_apart [of s "map seqLen (r # rs)"] by (auto simp: add.assoc)
qed

text \<open>FIFOs with the requests already made; the world also has the name of the FIFO opened last.\<close>

definition demo_fifos :: "(request list \<times> string \<times> (string \<times> int) list) fifos" where
  "demo_fifos =
     \<lparr>mkfifo = \<lambda>_ w. (Inr (), w), open_fifo = \<lambda>name _ (p, n, a). (Inr 4, (p, name, a)),
      read_request = \<lambda>_ (p, n, a). (case p of [] \<Rightarrow> (None, (p, n, a)) | r # rs \<Rightarrow> (Some r, (rs, n, a))),
      write_request = \<lambda>_ _ w. (True, w), read_response = \<lambda>_ w. (None, w),
      write_response = \<lambda>_ r (p, n, a). (True, (p, n, a @ [(n, resp_seqNum r)])), fifo_close = \<lambda>_ w. (Inr (), w),
      atexit_ok = True, set_sigpipe = \<lambda>w. (Inr (), w), fout = \<lambda>_ w. w, ferr = \<lambda>_ w. w, unlink_fifo = \<lambda>_ w. w\<rparr>"

lemma demo_fifos_laws: "fifo_laws demo_fifos 3 fst (\<lambda>w _. fst (snd w)) (\<lambda>w. snd (snd w))"
  unfolding fifo_laws_def by (auto simp: demo_fifos_def)

theorem fifo_serves_witness:
  "\<exists>w'. serve (fifo_step demo_fifos 3) 2 0 ([\<lparr>req_pid = 8, seqLen = 5\<rparr>, \<lparr>req_pid = 9, seqLen = 1\<rparr>], [], []) = Some (6, w')
      \<and> snd (snd w') = [(client_fifo_name 8, 0), (client_fifo_name 9, 5)]"
proof -
  let ?reqs = "[\<lparr>req_pid = 8, seqLen = 5\<rparr>, \<lparr>req_pid = 9, seqLen = 1\<rparr>]"
  have "0 + sum_list (map seqLen ?reqs) \<le> INT_MAX" by (simp add: c_limits)
  from fifo_serves [OF demo_fifos_laws, of "(?reqs, [], [])" ?reqs 0] this show ?thesis
    by (simp add: numeral_2_eq_2)
qed

end
