(* ===== verification/Sv_Sems.thy ===== *)
theory Sv_Sems
  imports Prelude
begin

text \<open>
  Binary semaphores and event flags over System V semaphores: \<open>tlpi-dist/svsem/binary_sems.c\<close> and
  \<open>event_flags.c\<close>.  The calls \<open>semop\<close> and \<open>semctl\<close> are fields of a record; \<open>semop\<close> gives \<^const>\<open>None\<close> when it would
  block.  What the code relies on is stated by \<open>sem_laws\<close>: the documented atomic effect of these calls
  on the values \<open>sem w n\<close>, and that only a call that can block is interrupted, finitely often.
\<close>

record 'w semsys =
  semop :: "nat \<Rightarrow> int \<Rightarrow> bool \<Rightarrow> 'w \<Rightarrow> (unit sysres \<times> 'w) option"
  semctl_setval :: "nat \<Rightarrow> int \<Rightarrow> 'w \<Rightarrow> unit sysres \<times> 'w"
  semctl_getval :: "nat \<Rightarrow> 'w \<Rightarrow> int sysres \<times> 'w"

record bs_config =
  bsUseSemUndo :: bool
  bsRetryOnEintr :: bool

definition bs_default :: bs_config where
  "bs_default = \<lparr>bsUseSemUndo = False, bsRetryOnEintr = True\<rparr>"

text \<open>
  One iteration of a loop around a blocking call: the caller is blocked, is to try again, or the function
  returns \<open>-1\<close> with \<open>errno\<close>, or 0.
\<close>

datatype 'w attempt = Blocked | Retry 'w | Failed errno 'w | Done 'w

subsection \<open>Binary semaphores\<close>

definition initSemAvailable :: "'w semsys \<Rightarrow> nat \<Rightarrow> 'w \<Rightarrow> unit sysres \<times> 'w" where
  "initSemAvailable k semNum w = semctl_setval k semNum 1 w"

definition initSemInUse :: "'w semsys \<Rightarrow> nat \<Rightarrow> 'w \<Rightarrow> unit sysres \<times> 'w" where
  "initSemInUse k semNum w = semctl_setval k semNum 0 w"

definition reserveSem :: "'w semsys \<Rightarrow> bs_config \<Rightarrow> nat \<Rightarrow> 'w \<Rightarrow> 'w attempt" where
  "reserveSem k cfg semNum w =
     (case semop k semNum (- 1) (bsUseSemUndo cfg) w of
        None \<Rightarrow> Blocked
      | Some (Inl e, w) \<Rightarrow> if e \<noteq> EINTR \<or> \<not> bsRetryOnEintr cfg then Failed e w else Retry w
      | Some (Inr _, w) \<Rightarrow> Done w)"

definition releaseSem :: "'w semsys \<Rightarrow> bs_config \<Rightarrow> nat \<Rightarrow> 'w \<Rightarrow> 'w attempt" where
  "releaseSem k cfg semNum w =
     (case semop k semNum 1 (bsUseSemUndo cfg) w of
        None \<Rightarrow> Blocked
      | Some (Inl e, w) \<Rightarrow> Failed e w
      | Some (Inr _, w) \<Rightarrow> Done w)"

subsection \<open>Event flags\<close>

definition waitForEventFlag :: "'w semsys \<Rightarrow> nat \<Rightarrow> 'w \<Rightarrow> 'w attempt" where
  "waitForEventFlag k semNum w =
     (case semop k semNum 0 False w of
        None \<Rightarrow> Blocked
      | Some (Inl e, w) \<Rightarrow> if e \<noteq> EINTR then Failed e w else Retry w
      | Some (Inr _, w) \<Rightarrow> Done w)"

definition clearEventFlag :: "'w semsys \<Rightarrow> nat \<Rightarrow> 'w \<Rightarrow> unit sysres \<times> 'w" where
  "clearEventFlag k semNum w = semctl_setval k semNum 1 w"

definition setEventFlag :: "'w semsys \<Rightarrow> nat \<Rightarrow> 'w \<Rightarrow> unit sysres \<times> 'w" where
  "setEventFlag k semNum w = semctl_setval k semNum 0 w"

definition getFlagState :: "'w semsys \<Rightarrow> nat \<Rightarrow> 'w \<Rightarrow> bool sysres \<times> 'w" where
  "getFlagState k semNum w =
     (case semctl_getval k semNum w of
        (Inl e, w) \<Rightarrow> (Inl e, w)
      | (Inr sem_val, w) \<Rightarrow> (Inr (sem_val = 0), w))"

subsection \<open>The calls\<close>

text \<open>
  A positive operation is added at once, a negative one when the result is not negative, and the
  operation 0 waits for the value 0.
\<close>

definition would_block :: "int \<Rightarrow> int \<Rightarrow> bool" where
  "would_block v d \<longleftrightarrow> (if d = 0 then v \<noteq> 0 else v + d < 0)"

definition sem_laws :: "'w semsys \<Rightarrow> ('w \<Rightarrow> nat \<Rightarrow> int) \<Rightarrow> ('w \<Rightarrow> nat) \<Rightarrow> ('w \<Rightarrow> 'r) \<Rightarrow> bool" where
  "sem_laws k sem intr rest \<longleftrightarrow>
     (\<forall>n d u w. semop k n d u w = None \<longrightarrow> would_block (sem w n) d)
     \<and> (\<forall>n d u w w'. semop k n d u w = Some (Inr (), w') \<longrightarrow>
          \<not> would_block (sem w n) d \<and> sem w' = (sem w)(n := sem w n + d) \<and> rest w' = rest w \<and> intr w' = intr w)
     \<and> (\<forall>n d u w e w'. semop k n d u w = Some (Inl e, w') \<longrightarrow>
          e = EINTR \<and> d \<le> 0 \<and> sem w' = sem w \<and> rest w' = rest w \<and> intr w' < intr w)
     \<and> (\<forall>n v w. \<exists>w'. semctl_setval k n v w = (Inr (), w') \<and> sem w' = (sem w)(n := v) \<and> rest w' = rest w)
     \<and> (\<forall>n w. \<exists>w'. semctl_getval k n w = (Inr (sem w n), w') \<and> sem w' = sem w \<and> rest w' = rest w)"

lemma sem_laws_op:
  assumes "sem_laws k sem intr rest"
  shows "semop k n d u w = None \<Longrightarrow> would_block (sem w n) d"
    and "semop k n d u w = Some (Inr (), w') \<Longrightarrow>
          \<not> would_block (sem w n) d \<and> sem w' = (sem w)(n := sem w n + d) \<and> rest w' = rest w \<and> intr w' = intr w"
    and "semop k n d u w = Some (Inl e, w') \<Longrightarrow>
          e = EINTR \<and> d \<le> 0 \<and> sem w' = sem w \<and> rest w' = rest w \<and> intr w' < intr w"
  using assms unfolding sem_laws_def by (elim conjE; metis)+

lemma sem_laws_ctl:
  assumes "sem_laws k sem intr rest"
  obtains w' where "semctl_setval k n v w = (Inr (), w')" "sem w' = (sem w)(n := v)" "rest w' = rest w"
  using assms unfolding sem_laws_def by metis

lemma reserveSem_cases:
  assumes "sem_laws k sem intr rest"
  obtains (blocked) "reserveSem k bs_default n w = Blocked" "sem w n \<le> 0"
    | (retry) w' where "reserveSem k bs_default n w = Retry w'" "sem w' = sem w" "rest w' = rest w" "intr w' < intr w"
    | (got) w' where "reserveSem k bs_default n w = Done w'" "0 < sem w n" "sem w' = (sem w)(n := sem w n - 1)"
        "rest w' = rest w" "intr w' = intr w"
proof (cases "semop k n (- 1) False w")
  case None
  then show ?thesis using sem_laws_op(1) [OF assms None] by (intro blocked) (simp_all add: reserveSem_def bs_default_def would_block_def)
next
  case (Some rw)
  obtain r w' where rw: "rw = (r, w')" by fastforce
  show ?thesis
  proof (cases r)
    case (Inl e)
    then show ?thesis
      using sem_laws_op(3) [OF assms, of n "- 1" False w e w'] Some rw by (intro retry [of w']) (simp_all add: reserveSem_def bs_default_def)
  next
    case (Inr u)
    then show ?thesis
      using sem_laws_op(2) [OF assms, of n "- 1" False w w'] Some rw
      by (intro got [of w']) (simp_all add: reserveSem_def bs_default_def would_block_def)
  qed
qed

lemma releaseSem_done:
  assumes "sem_laws k sem intr rest" "0 \<le> sem w n"
  obtains w' where "releaseSem k bs_default n w = Done w'" "sem w' = (sem w)(n := sem w n + 1)"
    "rest w' = rest w" "intr w' = intr w"
proof -
  obtain r w' where r: "semop k n 1 False w = Some (r, w')"
    using sem_laws_op(1) [OF assms(1), of n 1 False w] assms(2) by (fastforce simp: would_block_def)
  then have "r = Inr ()" using sem_laws_op(3) [OF assms(1), of n 1 False w _ w'] by (cases r) auto
  then show ?thesis
    using that [of w'] r sem_laws_op(2) [OF assms(1), of n 1 False w w'] by (simp add: releaseSem_def bs_default_def)
qed

text \<open>
  An event flag behaves like a gate: after \<open>setEventFlag\<close> a wait is never blocked and \<open>getFlagState\<close>
  reports true; after \<open>clearEventFlag\<close> a wait does not return, until the flag is set again, and
  \<open>getFlagState\<close> reports false.  Other flags are not affected.
\<close>

theorem event_flag_gate:
  assumes laws: "sem_laws k sem intr rest"
  shows "\<exists>w1 w2. setEventFlag k n w = (Inr (), w1) \<and> waitForEventFlag k n w1 \<noteq> Blocked
       \<and> fst (getFlagState k n w1) = Inr True \<and> (\<forall>m. m \<noteq> n \<longrightarrow> sem w1 m = sem w m)
     \<and> clearEventFlag k n w = (Inr (), w2) \<and> (\<forall>w'. waitForEventFlag k n w2 \<noteq> Done w')
       \<and> fst (getFlagState k n w2) = Inr False \<and> (\<forall>m. m \<noteq> n \<longrightarrow> sem w2 m = sem w m)"
proof -
  obtain w1 where w1: "semctl_setval k n 0 w = (Inr (), w1)" "sem w1 = (sem w)(n := 0)"
    using sem_laws_ctl [OF laws] by metis
  obtain w2 where w2: "semctl_setval k n 1 w = (Inr (), w2)" "sem w2 = (sem w)(n := 1)"
    using sem_laws_ctl [OF laws] by metis
  have get: "fst (getFlagState k n v) = Inr (sem v n = 0)" for v
  proof -
    obtain v' where "semctl_getval k n v = (Inr (sem v n), v')" using laws unfolding sem_laws_def by metis
    then show ?thesis by (simp add: getFlagState_def)
  qed
  have "semop k n 0 False w1 \<noteq> None" using sem_laws_op(1) [OF laws, of n 0 False w1] w1(2) by (auto simp: would_block_def simp del: not_None_eq)
  then have "waitForEventFlag k n w1 \<noteq> Blocked" by (auto simp: waitForEventFlag_def split: sum.splits if_splits)
  moreover have "semop k n 0 False w2 \<noteq> Some (Inr (), w')" for w'
    using sem_laws_op(2) [OF laws, of n 0 False w2 w'] w2(2) by (auto simp: would_block_def)
  then have "waitForEventFlag k n w2 \<noteq> Done w'" for w'
    by (auto simp: waitForEventFlag_def split: option.splits sum.splits if_splits)
  ultimately show ?thesis
    using w1 w2 get by (intro exI [of _ w1] exI [of _ w2]) (simp add: setEventFlag_def clearEventFlag_def)
qed

text \<open>Semaphores kept as a function, with a number of pending interruptions.\<close>

definition fun_sems :: "((nat \<Rightarrow> int) \<times> nat) semsys" where
  "fun_sems =
     \<lparr>semop = \<lambda>n d _ (s, i). if d \<le> 0 \<and> 0 < i then Some (Inl EINTR, (s, i - 1))
        else if would_block (s n) d then None else Some (Inr (), (s(n := s n + d), i)),
      semctl_setval = \<lambda>n v (s, i). (Inr (), (s(n := v), i)), semctl_getval = \<lambda>n (s, i). (Inr (s n), (s, i))\<rparr>"

lemma fun_sems_laws: "sem_laws fun_sems fst snd (\<lambda>_. ())"
  unfolding sem_laws_def by (auto simp: fun_sems_def split: if_splits)

theorem event_flag_gate_witness:
  "\<exists>w1. setEventFlag fun_sems 0 (\<lambda>_. 1, 0) = (Inr (), w1) \<and> fst (getFlagState fun_sems 0 w1) = Inr True"
  using event_flag_gate [OF fun_sems_laws, of 0 "(\<lambda>_. 1, 0)"] by blast

end
