(* ===== verification/Shm_Xfr.thy ===== *)
theory Shm_Xfr
  imports Sv_Sems C_String
begin

text \<open>
  Transfer of a byte stream through shared memory by two processes that take turns with two binary
  semaphores: \<open>tlpi-dist/svshm/svshm_xfr_writer.c\<close> and \<open>svshm_xfr_reader.c\<close>.  Each process is a step function
  on the common state, one step per system call or access to the segment; a step of a process that is
  blocked or has ended changes nothing.  The processes interleave in any order.
\<close>

subsection \<open>State\<close>

definition WRITE_SEM :: nat where "WRITE_SEM = 0"
definition READ_SEM :: nat where "READ_SEM = 1"
definition XFR_BUF_SIZE :: nat where "XFR_BUF_SIZE = 1024"

datatype writer_pc =
  W_Reserve | W_Read | W_Release | W_Test | W_Last | W_RmSem | W_Detach | W_RmShm | W_Report | W_Exited int

datatype reader_pc =
  R_Reserve | R_Check | R_Write | R_Release | R_Detach | R_Last | R_Report | R_Exited int

record 'w shmsys =
  sems :: "'w semsys"
  semget :: "'w \<Rightarrow> unit sysres \<times> 'w"
  shmget :: "'w \<Rightarrow> unit sysres \<times> 'w"
  shmat :: "'w \<Rightarrow> unit sysres \<times> 'w"
  read_stdin :: "nat \<Rightarrow> 'w \<Rightarrow> string sysres \<times> 'w"
  write_stdout :: "string \<Rightarrow> 'w \<Rightarrow> nat sysres \<times> 'w"
  rm_sems :: "'w \<Rightarrow> unit sysres \<times> 'w"
  shmdt :: "'w \<Rightarrow> unit sysres \<times> 'w"
  rm_shm :: "'w \<Rightarrow> unit sysres \<times> 'w"
  report :: "string \<Rightarrow> 'w \<Rightarrow> 'w"

text \<open>\<open>cnt\<close> and \<open>buf\<close> are the shared segment; the counters are the locals of the two programs.\<close>

record 'w xfr =
  wpc :: writer_pc
  rpc :: reader_pc
  cnt :: int
  buf :: string
  w_xfrs :: int
  w_bytes :: int
  r_xfrs :: int
  r_bytes :: int
  kern :: 'w

subsection \<open>Start\<close>

fun all_ok :: "('w \<Rightarrow> unit sysres \<times> 'w) list \<Rightarrow> 'w \<Rightarrow> bool \<times> 'w" where
  "all_ok [] w = (True, w)"
| "all_ok (f # fs) w = (case f w of (Inl _, w) \<Rightarrow> (False, w) | (Inr _, w) \<Rightarrow> all_ok fs w)"

definition writer_start :: "'w shmsys \<Rightarrow> 'w \<Rightarrow> bool \<times> 'w" where
  "writer_start k w =
     all_ok [semget k, initSemAvailable (sems k) WRITE_SEM, initSemInUse (sems k) READ_SEM, shmget k, shmat k] w"

definition reader_start :: "'w shmsys \<Rightarrow> 'w \<Rightarrow> bool \<times> 'w" where
  "reader_start k w = all_ok [semget k, shmget k, shmat k] w"

text \<open>The state when both are about to enter their loops; a new segment is filled with zeros.\<close>

definition xfr_init :: "'w \<Rightarrow> 'w xfr" where
  "xfr_init w =
     \<lparr>wpc = W_Reserve, rpc = R_Reserve, cnt = 0, buf = replicate XFR_BUF_SIZE (CHR 0x00),
      w_xfrs = 0, w_bytes = 0, r_xfrs = 0, r_bytes = 0, kern = w\<rparr>"

subsection \<open>Steps\<close>

definition w_after :: "'w attempt \<Rightarrow> writer_pc \<Rightarrow> 'w xfr \<Rightarrow> 'w xfr" where
  "w_after a pc s =
     (case a of
        Blocked \<Rightarrow> s
      | Retry w \<Rightarrow> s\<lparr>kern := w\<rparr>
      | Failed _ w \<Rightarrow> s\<lparr>kern := w, wpc := W_Exited 1\<rparr>
      | Done w \<Rightarrow> s\<lparr>kern := w, wpc := pc\<rparr>)"

definition r_after :: "'w attempt \<Rightarrow> reader_pc \<Rightarrow> 'w xfr \<Rightarrow> 'w xfr" where
  "r_after a pc s =
     (case a of
        Blocked \<Rightarrow> s
      | Retry w \<Rightarrow> s\<lparr>kern := w\<rparr>
      | Failed _ w \<Rightarrow> s\<lparr>kern := w, rpc := R_Exited 1\<rparr>
      | Done w \<Rightarrow> s\<lparr>kern := w, rpc := pc\<rparr>)"

definition attempt_of :: "unit sysres \<times> 'w \<Rightarrow> 'w attempt" where
  "attempt_of r = (case r of (Inl e, w) \<Rightarrow> Failed e w | (Inr _, w) \<Rightarrow> Done w)"

definition writer_step :: "'w shmsys \<Rightarrow> 'w xfr \<Rightarrow> 'w xfr" where
  "writer_step k s =
     (case wpc s of
        W_Reserve \<Rightarrow> w_after (reserveSem (sems k) bs_default WRITE_SEM (kern s)) W_Read s
      | W_Read \<Rightarrow>
          (case read_stdin k XFR_BUF_SIZE (kern s) of
             (Inl _, w) \<Rightarrow> s\<lparr>kern := w, cnt := - 1, wpc := W_Exited 1\<rparr>
           | (Inr bs, w) \<Rightarrow>
               s\<lparr>kern := w, cnt := int (length bs), buf := bs @ drop (length bs) (buf s), wpc := W_Release\<rparr>)
      | W_Release \<Rightarrow> w_after (releaseSem (sems k) bs_default READ_SEM (kern s)) W_Test s
      | W_Test \<Rightarrow>
          if cnt s = 0 then s\<lparr>wpc := W_Last\<rparr>
          else s\<lparr>w_xfrs := w_xfrs s + 1, w_bytes := w_bytes s + cnt s, wpc := W_Reserve\<rparr>
      | W_Last \<Rightarrow> w_after (reserveSem (sems k) bs_default WRITE_SEM (kern s)) W_RmSem s
      | W_RmSem \<Rightarrow> w_after (attempt_of (rm_sems k (kern s))) W_Detach s
      | W_Detach \<Rightarrow> w_after (attempt_of (shmdt k (kern s))) W_RmShm s
      | W_RmShm \<Rightarrow> w_after (attempt_of (rm_shm k (kern s))) W_Report s
      | W_Report \<Rightarrow>
          s\<lparr>kern := report k (''Sent '' @ show_int (w_bytes s) @ '' bytes ('' @ show_int (w_xfrs s) @ '' xfrs)\<newline>'') (kern s),
            wpc := W_Exited 0\<rparr>
      | W_Exited _ \<Rightarrow> s)"

definition reader_step :: "'w shmsys \<Rightarrow> 'w xfr \<Rightarrow> 'w xfr" where
  "reader_step k s =
     (case rpc s of
        R_Reserve \<Rightarrow> r_after (reserveSem (sems k) bs_default READ_SEM (kern s)) R_Check s
      | R_Check \<Rightarrow>
          if cnt s = 0 then s\<lparr>rpc := R_Detach\<rparr> else s\<lparr>r_bytes := r_bytes s + cnt s, rpc := R_Write\<rparr>
      | R_Write \<Rightarrow>
          (case write_stdout k (take (nat (cnt s)) (buf s)) (kern s) of
             (r, w) \<Rightarrow> if r = Inr (nat (cnt s)) then s\<lparr>kern := w, rpc := R_Release\<rparr> else s\<lparr>kern := w, rpc := R_Exited 1\<rparr>)
      | R_Release \<Rightarrow>
          (case releaseSem (sems k) bs_default WRITE_SEM (kern s) of
             Done w \<Rightarrow> s\<lparr>kern := w, rpc := R_Reserve, r_xfrs := r_xfrs s + 1\<rparr>
           | a \<Rightarrow> r_after a R_Reserve s)
      | R_Detach \<Rightarrow> r_after (attempt_of (shmdt k (kern s))) R_Last s
      | R_Last \<Rightarrow> r_after (releaseSem (sems k) bs_default WRITE_SEM (kern s)) R_Report s
      | R_Report \<Rightarrow>
          s\<lparr>kern := report k (''Received '' @ show_int (r_bytes s) @ '' bytes ('' @ show_int (r_xfrs s) @ '' xfrs)\<newline>'') (kern s),
            rpc := R_Exited 0\<rparr>
      | R_Exited _ \<Rightarrow> s)"

text \<open>All interleavings from a state.\<close>

inductive xfr_run :: "'w shmsys \<Rightarrow> 'w xfr \<Rightarrow> 'w xfr \<Rightarrow> bool" for k s0 where
  xfr_start: "xfr_run k s0 s0"
| xfr_writer: "xfr_run k s0 s \<Longrightarrow> xfr_run k s0 (writer_step k s)"
| xfr_reader: "xfr_run k s0 s \<Longrightarrow> xfr_run k s0 (reader_step k s)"

subsection \<open>The system calls\<close>

text \<open>
  \<open>inp\<close> is what is left of standard input, \<open>out\<close> what has been written to standard output.  Reads deliver
  data from the front and nothing only at the end, writes are complete, and no call fails; removing the
  semaphores may change their values.
\<close>

definition shm_laws ::
    "'w shmsys \<Rightarrow> ('w \<Rightarrow> nat \<Rightarrow> int) \<Rightarrow> ('w \<Rightarrow> nat) \<Rightarrow> ('w \<Rightarrow> string) \<Rightarrow> ('w \<Rightarrow> string) \<Rightarrow> bool" where
  "shm_laws k sem intr inp out \<longleftrightarrow>
     sem_laws (sems k) sem intr (\<lambda>w. (inp w, out w))
     \<and> (\<forall>n w. 0 < n \<longrightarrow> (\<exists>bs w'. read_stdin k n w = (Inr bs, w') \<and> length bs \<le> n \<and> inp w = bs @ inp w'
          \<and> (bs = [] \<longrightarrow> inp w = []) \<and> sem w' = sem w \<and> out w' = out w))
     \<and> (\<forall>bs w. \<exists>w'. write_stdout k bs w = (Inr (length bs), w') \<and> out w' = out w @ bs \<and> sem w' = sem w \<and> inp w' = inp w)
     \<and> (\<forall>w. \<exists>w'. rm_sems k w = (Inr (), w') \<and> inp w' = inp w \<and> out w' = out w)
     \<and> (\<forall>w. \<exists>w'. shmdt k w = (Inr (), w') \<and> sem w' = sem w \<and> inp w' = inp w \<and> out w' = out w)
     \<and> (\<forall>w. \<exists>w'. rm_shm k w = (Inr (), w') \<and> sem w' = sem w \<and> inp w' = inp w \<and> out w' = out w)
     \<and> (\<forall>m w. sem (report k m w) = sem w \<and> inp (report k m w) = inp w \<and> out (report k m w) = out w)"

lemma shm_lawsD:
  assumes "shm_laws k sem intr inp out"
  shows "sem_laws (sems k) sem intr (\<lambda>w. (inp w, out w))"
    and "0 < n \<Longrightarrow> \<exists>bs w'. read_stdin k n w = (Inr bs, w') \<and> length bs \<le> n \<and> inp w = bs @ inp w'
          \<and> (bs = [] \<longrightarrow> inp w = []) \<and> sem w' = sem w \<and> out w' = out w"
    and "\<exists>w'. write_stdout k bs w = (Inr (length bs), w') \<and> out w' = out w @ bs \<and> sem w' = sem w \<and> inp w' = inp w"
    and "\<exists>w'. rm_sems k w = (Inr (), w') \<and> inp w' = inp w \<and> out w' = out w"
    and "\<exists>w'. shmdt k w = (Inr (), w') \<and> sem w' = sem w \<and> inp w' = inp w \<and> out w' = out w"
    and "\<exists>w'. rm_shm k w = (Inr (), w') \<and> sem w' = sem w \<and> inp w' = inp w \<and> out w' = out w"
    and "sem (report k m w) = sem w \<and> inp (report k m w) = inp w \<and> out (report k m w) = out w"
  using assms unfolding shm_laws_def by (elim conjE; blast)+

subsection \<open>Invariant\<close>

text \<open>
  One token is passed around: it is in one of the semaphores or held by a process.  The segment is full
  from the writer's read until the reader's write.
\<close>

definition w_holds :: "writer_pc \<Rightarrow> bool" where
  "w_holds pc \<longleftrightarrow> pc = W_Read \<or> pc = W_Release \<or> pc = W_RmSem"

definition w_gone :: "writer_pc \<Rightarrow> bool" where
  "w_gone pc \<longleftrightarrow> pc = W_Detach \<or> pc = W_RmShm \<or> pc = W_Report \<or> pc = W_Exited 0"

definition r_holds :: "reader_pc \<Rightarrow> bool" where
  "r_holds pc \<longleftrightarrow> pc = R_Check \<or> pc = R_Write \<or> pc = R_Release \<or> pc = R_Detach \<or> pc = R_Last"

definition r_end :: "reader_pc \<Rightarrow> bool" where
  "r_end pc \<longleftrightarrow> pc = R_Detach \<or> pc = R_Last \<or> pc = R_Report \<or> pc = R_Exited 0"

definition w_end :: "'w xfr \<Rightarrow> bool" where
  "w_end s \<longleftrightarrow> wpc s = W_Test \<and> cnt s = 0 \<or> wpc s = W_Last \<or> wpc s = W_RmSem"

lemmas xfr_phases = w_holds_def w_gone_def r_holds_def r_end_def w_end_def

definition full :: "('w \<Rightarrow> nat \<Rightarrow> int) \<Rightarrow> 'w xfr \<Rightarrow> bool" where
  "full sem s \<longleftrightarrow> wpc s = W_Release \<or> sem (kern s) READ_SEM = 1 \<or> rpc s = R_Check \<or> rpc s = R_Write"

definition one_token :: "('w \<Rightarrow> nat \<Rightarrow> int) \<Rightarrow> 'w xfr \<Rightarrow> bool" where
  "one_token sem s \<longleftrightarrow>
     0 \<le> sem (kern s) WRITE_SEM \<and> 0 \<le> sem (kern s) READ_SEM
     \<and> sem (kern s) WRITE_SEM + sem (kern s) READ_SEM + of_bool (w_holds (wpc s)) + of_bool (r_holds (rpc s)) = 1"

definition live_inv ::
    "('w \<Rightarrow> nat \<Rightarrow> int) \<Rightarrow> ('w \<Rightarrow> string) \<Rightarrow> ('w \<Rightarrow> string) \<Rightarrow> string \<Rightarrow> 'w xfr \<Rightarrow> bool" where
  "live_inv sem inp out orig s \<longleftrightarrow>
     one_token sem s \<and> (\<forall>n. wpc s \<noteq> W_Exited n) \<and> (\<forall>n. rpc s = R_Exited n \<longrightarrow> n = 0)
     \<and> out (kern s) @ (if full sem s then take (nat (cnt s)) (buf s) else []) @ inp (kern s) = orig
     \<and> length (buf s) = XFR_BUF_SIZE \<and> 0 \<le> cnt s \<and> cnt s \<le> int XFR_BUF_SIZE
     \<and> (wpc s = W_Release \<and> cnt s = 0 \<or> w_end s \<longrightarrow> cnt s = 0 \<and> inp (kern s) = [])
     \<and> (w_end s \<longrightarrow> r_end (rpc s) \<or> full sem s) \<and> (r_end (rpc s) \<longrightarrow> w_end s)
     \<and> (wpc s = W_Reserve \<and> full sem s \<longrightarrow> cnt s \<noteq> 0)
     \<and> (rpc s = R_Write \<longrightarrow> cnt s \<noteq> 0) \<and> (r_end (rpc s) \<longrightarrow> sem (kern s) READ_SEM = 0)"

definition xfr_inv ::
    "('w \<Rightarrow> nat \<Rightarrow> int) \<Rightarrow> ('w \<Rightarrow> string) \<Rightarrow> ('w \<Rightarrow> string) \<Rightarrow> string \<Rightarrow> 'w xfr \<Rightarrow> bool" where
  "xfr_inv sem inp out orig s \<longleftrightarrow>
     (if w_gone (wpc s) then (rpc s = R_Report \<or> rpc s = R_Exited 0) \<and> out (kern s) = orig \<and> inp (kern s) = []
      else live_inv sem inp out orig s)"

lemma sem_names [simp]: "WRITE_SEM \<noteq> READ_SEM" "READ_SEM \<noteq> WRITE_SEM"
  by (simp_all add: WRITE_SEM_def READ_SEM_def)

lemma xfr_buf_size_pos [simp]: "0 < XFR_BUF_SIZE"
  by (simp add: XFR_BUF_SIZE_def)

lemma xfr_init_inv:
  "sem w WRITE_SEM = 1 \<Longrightarrow> sem w READ_SEM = 0 \<Longrightarrow> xfr_inv sem inp out (out w @ inp w) (xfr_init w)"
  by (simp add: xfr_inv_def live_inv_def xfr_init_def one_token_def full_def xfr_phases)

lemma live_not_exited [simp]: "wpc s = W_Exited n \<Longrightarrow> \<not> live_inv sem inp out orig s"
  by (simp add: live_inv_def)

lemma gone_rpc: "xfr_inv sem inp out orig s \<Longrightarrow> w_gone (wpc s) \<Longrightarrow> rpc s = R_Report \<or> rpc s = R_Exited 0"
  by (simp add: xfr_inv_def)

lemmas inv_defs = xfr_inv_def live_inv_def one_token_def full_def xfr_phases

lemma xfr_inv_kern:
  "sem w' = sem (kern s) \<Longrightarrow> inp w' = inp (kern s) \<Longrightarrow> out w' = out (kern s) \<Longrightarrow>
   xfr_inv sem inp out orig (s\<lparr>kern := w'\<rparr>) = xfr_inv sem inp out orig s"
  by (simp add: inv_defs)

lemma writer_reserve_inv:
  assumes laws: "shm_laws k sem intr inp out" and inv: "xfr_inv sem inp out orig s"
    and pc: "wpc s = W_Reserve \<and> pc' = W_Read \<or> wpc s = W_Last \<and> pc' = W_RmSem"
  shows "xfr_inv sem inp out orig (w_after (reserveSem (sems k) bs_default WRITE_SEM (kern s)) pc' s)"
proof (cases rule: reserveSem_cases [OF shm_lawsD(1) [OF laws], of WRITE_SEM "kern s", case_names blocked retry got])
  case blocked
  then show ?thesis using inv by (simp add: w_after_def)
next
  case (retry w')
  then have "inp w' = inp (kern s)" "out w' = out (kern s)" by simp_all
  then show ?thesis using inv retry by (simp add: w_after_def xfr_inv_kern)
next
  case (got w')
  then show ?thesis
    using inv pc by (cases "rpc s"; elim disjE conjE; simp add: w_after_def inv_defs)
qed

lemma writer_read_inv:
  assumes laws: "shm_laws k sem intr inp out" and inv: "xfr_inv sem inp out orig s" and pc: "wpc s = W_Read"
  shows "xfr_inv sem inp out orig (writer_step k s)"
proof -
  obtain bs w' where w': "read_stdin k XFR_BUF_SIZE (kern s) = (Inr bs, w')" "length bs \<le> XFR_BUF_SIZE"
    "inp (kern s) = bs @ inp w'" "bs = [] \<longrightarrow> inp (kern s) = []" "sem w' = sem (kern s)" "out w' = out (kern s)"
    using shm_lawsD(2) [OF laws xfr_buf_size_pos] by blast
  then show ?thesis using inv pc by (cases "rpc s"; simp add: writer_step_def inv_defs; auto split: if_splits)
qed

lemma writer_release_inv:
  assumes laws: "shm_laws k sem intr inp out" and inv: "xfr_inv sem inp out orig s" and pc: "wpc s = W_Release"
  shows "xfr_inv sem inp out orig (writer_step k s)"
proof -
  have "0 \<le> sem (kern s) READ_SEM" using inv pc by (simp add: inv_defs)
  from releaseSem_done [OF shm_lawsD(1) [OF laws] this] obtain w'
    where "releaseSem (sems k) bs_default READ_SEM (kern s) = Done w'"
      "sem w' = (sem (kern s))(READ_SEM := sem (kern s) READ_SEM + 1)" "inp w' = inp (kern s)" "out w' = out (kern s)"
    by auto
  then show ?thesis using inv pc by (cases "rpc s"; simp add: writer_step_def w_after_def inv_defs; auto split: if_splits)
qed

lemma writer_test_inv:
  assumes inv: "xfr_inv sem inp out orig s" and pc: "wpc s = W_Test"
  shows "xfr_inv sem inp out orig (writer_step k s)"
  using inv pc by (cases "rpc s"; cases "cnt s = 0"; simp add: writer_step_def inv_defs; auto split: if_splits)

lemma writer_rmsem_inv:
  assumes laws: "shm_laws k sem intr inp out" and inv: "xfr_inv sem inp out orig s" and pc: "wpc s = W_RmSem"
  shows "xfr_inv sem inp out orig (writer_step k s)"
proof -
  obtain w' where "rm_sems k (kern s) = (Inr (), w')" "inp w' = inp (kern s)" "out w' = out (kern s)"
    using shm_lawsD(4) [OF laws] by blast
  then show ?thesis
    using inv pc by (cases "rpc s"; simp add: writer_step_def w_after_def attempt_of_def inv_defs; auto split: if_splits)
qed

lemma writer_gone_inv:
  assumes laws: "shm_laws k sem intr inp out" and inv: "xfr_inv sem inp out orig s" and pc: "w_gone (wpc s)"
  shows "xfr_inv sem inp out orig (writer_step k s)"
proof -
  obtain w1 w2 where "shmdt k (kern s) = (Inr (), w1)" "inp w1 = inp (kern s)" "out w1 = out (kern s)"
    "rm_shm k (kern s) = (Inr (), w2)" "inp w2 = inp (kern s)" "out w2 = out (kern s)"
    using shm_lawsD(5,6) [OF laws] by metis
  then show ?thesis
    using inv pc shm_lawsD(7) [OF laws]
    by (auto simp: writer_step_def w_after_def attempt_of_def xfr_inv_def w_gone_def)
qed

lemma writer_step_inv:
  assumes laws: "shm_laws k sem intr inp out" and inv: "xfr_inv sem inp out orig s"
  shows "xfr_inv sem inp out orig (writer_step k s)"
proof (cases "wpc s")
  case W_Reserve
  then show ?thesis using writer_reserve_inv [OF laws inv] by (simp add: writer_step_def)
next
  case W_Last
  then show ?thesis using writer_reserve_inv [OF laws inv] by (simp add: writer_step_def)
next
  case (W_Exited n)
  then show ?thesis using inv by (simp add: writer_step_def)
qed (use assms in \<open>auto intro: writer_read_inv writer_release_inv writer_test_inv writer_rmsem_inv writer_gone_inv
       simp: w_gone_def\<close>)

lemma reader_reserve_inv:
  assumes laws: "shm_laws k sem intr inp out" and inv: "xfr_inv sem inp out orig s" and pc: "rpc s = R_Reserve"
  shows "xfr_inv sem inp out orig (reader_step k s)"
proof (cases rule: reserveSem_cases [OF shm_lawsD(1) [OF laws], of READ_SEM "kern s", case_names blocked retry got])
  case blocked
  then show ?thesis using inv pc by (simp add: reader_step_def r_after_def)
next
  case (retry w')
  then have "inp w' = inp (kern s)" "out w' = out (kern s)" by simp_all
  then show ?thesis using inv pc retry by (simp add: reader_step_def r_after_def xfr_inv_kern)
next
  case (got w')
  then show ?thesis using inv pc by (cases "wpc s"; simp add: reader_step_def r_after_def inv_defs; auto split: if_splits)
qed

lemma reader_check_inv:
  assumes inv: "xfr_inv sem inp out orig s" and pc: "rpc s = R_Check"
  shows "xfr_inv sem inp out orig (reader_step k s)"
  using inv pc by (cases "wpc s"; cases "cnt s = 0"; simp add: reader_step_def inv_defs; auto split: if_splits)

lemma reader_write_inv:
  assumes laws: "shm_laws k sem intr inp out" and inv: "xfr_inv sem inp out orig s" and pc: "rpc s = R_Write"
  shows "xfr_inv sem inp out orig (reader_step k s)"
proof -
  let ?bs = "take (nat (cnt s)) (buf s)"
  obtain w' where w': "write_stdout k ?bs (kern s) = (Inr (length ?bs), w')" "out w' = out (kern s) @ ?bs"
    "sem w' = sem (kern s)" "inp w' = inp (kern s)"
    using shm_lawsD(3) [OF laws] by blast
  moreover have "length ?bs = nat (cnt s)" using inv pc by (cases "wpc s"; simp add: inv_defs; auto split: if_splits)
  ultimately show ?thesis using inv pc by (cases "wpc s"; simp add: reader_step_def inv_defs; auto split: if_splits)
qed

lemma reader_release_done:
  assumes laws: "shm_laws k sem intr inp out" and inv: "xfr_inv sem inp out orig s" and pc: "r_holds (rpc s)"
  obtains w' where "releaseSem (sems k) bs_default WRITE_SEM (kern s) = Done w'"
      "sem w' = (sem (kern s))(WRITE_SEM := sem (kern s) WRITE_SEM + 1)" "inp w' = inp (kern s)" "out w' = out (kern s)"
      "intr w' = intr (kern s)"
proof -
  have "\<not> w_gone (wpc s)" using gone_rpc [OF inv] pc by (auto simp: r_holds_def)
  then have "0 \<le> sem (kern s) WRITE_SEM" using inv by (simp add: xfr_inv_def live_inv_def one_token_def)
  from releaseSem_done [OF shm_lawsD(1) [OF laws] this] show thesis using that by auto
qed

lemma reader_release_inv:
  assumes laws: "shm_laws k sem intr inp out" and inv: "xfr_inv sem inp out orig s" and pc: "rpc s = R_Release"
  shows "xfr_inv sem inp out orig (reader_step k s)"
proof -
  have "r_holds (rpc s)" using pc by (simp add: r_holds_def)
  from reader_release_done [OF laws inv this] obtain w'
    where "releaseSem (sems k) bs_default WRITE_SEM (kern s) = Done w'"
      "sem w' = (sem (kern s))(WRITE_SEM := sem (kern s) WRITE_SEM + 1)" "inp w' = inp (kern s)" "out w' = out (kern s)"
    by blast
  then show ?thesis using inv pc by (cases "wpc s"; simp add: reader_step_def inv_defs; auto split: if_splits)
qed

lemma reader_last_inv:
  assumes laws: "shm_laws k sem intr inp out" and inv: "xfr_inv sem inp out orig s" and pc: "rpc s = R_Last"
  shows "xfr_inv sem inp out orig (reader_step k s)"
proof -
  have "r_holds (rpc s)" using pc by (simp add: r_holds_def)
  from reader_release_done [OF laws inv this] obtain w'
    where "releaseSem (sems k) bs_default WRITE_SEM (kern s) = Done w'"
      "sem w' = (sem (kern s))(WRITE_SEM := sem (kern s) WRITE_SEM + 1)" "inp w' = inp (kern s)" "out w' = out (kern s)"
    by blast
  then show ?thesis using inv pc by (cases "wpc s"; simp add: reader_step_def r_after_def inv_defs; auto split: if_splits)
qed

lemma reader_detach_inv:
  assumes laws: "shm_laws k sem intr inp out" and inv: "xfr_inv sem inp out orig s" and pc: "rpc s = R_Detach"
  shows "xfr_inv sem inp out orig (reader_step k s)"
proof -
  obtain w' where "shmdt k (kern s) = (Inr (), w')" "sem w' = sem (kern s)" "inp w' = inp (kern s)" "out w' = out (kern s)"
    using shm_lawsD(5) [OF laws] by blast
  then show ?thesis using inv pc by (cases "wpc s"; simp add: reader_step_def r_after_def attempt_of_def inv_defs; auto split: if_splits)
qed

lemma reader_report_inv:
  assumes laws: "shm_laws k sem intr inp out" and inv: "xfr_inv sem inp out orig s" and pc: "rpc s = R_Report"
  shows "xfr_inv sem inp out orig (reader_step k s)"
  using inv pc shm_lawsD(7) [OF laws] by (cases "wpc s"; simp add: reader_step_def inv_defs; auto split: if_splits)

lemma reader_step_inv:
  assumes laws: "shm_laws k sem intr inp out" and inv: "xfr_inv sem inp out orig s"
  shows "xfr_inv sem inp out orig (reader_step k s)"
proof (cases "rpc s")
  case (R_Exited n)
  then show ?thesis using inv by (simp add: reader_step_def)
qed (use assms in \<open>auto intro: reader_reserve_inv reader_check_inv reader_write_inv reader_release_inv reader_last_inv reader_detach_inv
       reader_report_inv\<close>)

lemma xfr_run_inv:
  assumes "xfr_run k s0 s" "shm_laws k sem intr inp out" "xfr_inv sem inp out orig s0"
  shows "xfr_inv sem inp out orig s"
  using assms by (induction rule: xfr_run.induct) (auto intro: writer_step_inv reader_step_inv)

subsection \<open>Progress\<close>

definition w_rank :: "writer_pc \<Rightarrow> nat" where
  "w_rank pc =
     (case pc of W_Release \<Rightarrow> 9 | W_Test \<Rightarrow> 8 | W_Reserve \<Rightarrow> 7 | W_Last \<Rightarrow> 7 | W_Read \<Rightarrow> 6 | W_RmSem \<Rightarrow> 6
      | W_Detach \<Rightarrow> 5 | W_RmShm \<Rightarrow> 4 | W_Report \<Rightarrow> 3 | W_Exited _ \<Rightarrow> 0)"

definition r_rank :: "('w \<Rightarrow> nat \<Rightarrow> int) \<Rightarrow> 'w xfr \<Rightarrow> nat" where
  "r_rank sem s =
     (case rpc s of R_Reserve \<Rightarrow> if full sem s then 6 else 0 | R_Check \<Rightarrow> 5 | R_Write \<Rightarrow> 4 | R_Release \<Rightarrow> 3
      | R_Detach \<Rightarrow> 4 | R_Last \<Rightarrow> 3 | R_Report \<Rightarrow> 2 | R_Exited _ \<Rightarrow> 0)"

definition eof_read :: "'w xfr \<Rightarrow> bool" where
  "eof_read s \<longleftrightarrow> wpc s = W_Release \<and> cnt s = 0 \<or> w_end s \<or> w_gone (wpc s)"

text \<open>
  Every effective step consumes input, or moves one of the processes on within the round, or uses up one
  of the interruptions.
\<close>

definition xfr_order :: "('w \<Rightarrow> nat \<Rightarrow> int) \<Rightarrow> ('w \<Rightarrow> nat) \<Rightarrow> ('w \<Rightarrow> string) \<Rightarrow> ('w xfr \<times> 'w xfr) set" where
  "xfr_order sem intr inp =
     measures [\<lambda>s. length (inp (kern s)) + of_bool (\<not> eof_read s), \<lambda>s. w_rank (wpc s) + r_rank sem s, \<lambda>s. intr (kern s)]"

lemma wf_xfr_order: "wf (xfr_order sem intr inp)"
  by (simp add: xfr_order_def)

lemmas order_defs = xfr_order_def w_rank_def r_rank_def eof_read_def

lemma retry_order:
  "sem w' = sem (kern s) \<Longrightarrow> inp w' = inp (kern s) \<Longrightarrow> intr w' < intr (kern s) \<Longrightarrow>
   (s\<lparr>kern := w'\<rparr>, s) \<in> xfr_order sem intr inp"
  by (simp add: order_defs full_def w_end_def)

lemma writer_reserve_order:
  assumes laws: "shm_laws k sem intr inp out" and inv: "xfr_inv sem inp out orig s"
    and pc: "wpc s = W_Reserve \<and> pc' = W_Read \<or> wpc s = W_Last \<and> pc' = W_RmSem"
    and s': "s' = w_after (reserveSem (sems k) bs_default WRITE_SEM (kern s)) pc' s" "s' \<noteq> s"
  shows "(s', s) \<in> xfr_order sem intr inp"
proof (cases rule: reserveSem_cases [OF shm_lawsD(1) [OF laws], of WRITE_SEM "kern s", case_names blocked retry got])
  case blocked
  then show ?thesis using s' by (simp add: w_after_def)
next
  case (retry w')
  then have "s' = s\<lparr>kern := w'\<rparr>" "inp w' = inp (kern s)" using s' by (simp_all add: w_after_def)
  then show ?thesis using retry retry_order by metis
next
  case (got w')
  then have "s' = s\<lparr>kern := w', wpc := pc'\<rparr>" "inp w' = inp (kern s)" using s' by (simp_all add: w_after_def)
  then show ?thesis using pc got(3) by (cases "rpc s"; elim disjE conjE; simp add: order_defs xfr_phases full_def)
qed

lemma writer_step_order:
  assumes laws: "shm_laws k sem intr inp out" and inv: "xfr_inv sem inp out orig s" and eff: "writer_step k s \<noteq> s"
  shows "(writer_step k s, s) \<in> xfr_order sem intr inp"
proof (cases "wpc s")
  case W_Reserve
  then show ?thesis using writer_reserve_order [OF laws inv _ _ eff] by (simp add: writer_step_def)
next
  case W_Last
  then show ?thesis using writer_reserve_order [OF laws inv _ _ eff] by (simp add: writer_step_def)
next
  case W_Read
  obtain bs w' where w': "read_stdin k XFR_BUF_SIZE (kern s) = (Inr bs, w')"
    "inp (kern s) = bs @ inp w'" "bs = [] \<longrightarrow> inp (kern s) = []"
    using shm_lawsD(2) [OF laws xfr_buf_size_pos] by blast
  then show ?thesis using W_Read by (cases bs) (simp_all add: writer_step_def order_defs xfr_phases)
next
  case W_Release
  have "0 \<le> sem (kern s) READ_SEM" using inv W_Release by (simp add: inv_defs)
  from releaseSem_done [OF shm_lawsD(1) [OF laws] this] obtain w'
    where "releaseSem (sems k) bs_default READ_SEM (kern s) = Done w'" "inp w' = inp (kern s)"
      "sem w' = (sem (kern s))(READ_SEM := sem (kern s) READ_SEM + 1)"
    by auto
  then show ?thesis
    using W_Release inv by (cases "rpc s"; simp add: writer_step_def w_after_def order_defs inv_defs)
next
  case W_Test
  then show ?thesis by (cases "rpc s"; simp add: writer_step_def order_defs xfr_phases full_def)
next
  case W_RmSem
  obtain w' where w': "rm_sems k (kern s) = (Inr (), w')" "inp w' = inp (kern s)" using shm_lawsD(4) [OF laws] by blast
  have "rpc s \<noteq> R_Reserve" using inv W_RmSem by (auto simp: inv_defs)
  then show ?thesis
    using W_RmSem w' by (cases "rpc s"; simp add: writer_step_def w_after_def attempt_of_def order_defs xfr_phases)
next
  case (W_Exited n)
  then show ?thesis using eff by (simp add: writer_step_def)
next
  case W_Detach
  obtain w' where w': "shmdt k (kern s) = (Inr (), w')" "inp w' = inp (kern s)" using shm_lawsD(5) [OF laws] by blast
  then show ?thesis
    using gone_rpc [OF inv] W_Detach
    by (cases "rpc s"; simp add: writer_step_def w_after_def attempt_of_def order_defs xfr_phases)
next
  case W_RmShm
  obtain w' where w': "rm_shm k (kern s) = (Inr (), w')" "inp w' = inp (kern s)" using shm_lawsD(6) [OF laws] by blast
  then show ?thesis
    using gone_rpc [OF inv] W_RmShm
    by (cases "rpc s"; simp add: writer_step_def w_after_def attempt_of_def order_defs xfr_phases)
next
  case W_Report
  then show ?thesis
    using gone_rpc [OF inv] shm_lawsD(7) [OF laws]
    by (cases "rpc s"; simp add: writer_step_def order_defs xfr_phases)
qed

lemma reader_reserve_order:
  assumes laws: "shm_laws k sem intr inp out" and inv: "xfr_inv sem inp out orig s" and pc: "rpc s = R_Reserve"
    and eff: "reader_step k s \<noteq> s"
  shows "(reader_step k s, s) \<in> xfr_order sem intr inp"
proof (cases rule: reserveSem_cases [OF shm_lawsD(1) [OF laws], of READ_SEM "kern s", case_names blocked retry got])
  case blocked
  then show ?thesis using pc eff by (simp add: reader_step_def r_after_def)
next
  case (retry w')
  then have "reader_step k s = s\<lparr>kern := w'\<rparr>" "inp w' = inp (kern s)" using pc by (simp_all add: reader_step_def r_after_def)
  then show ?thesis using retry retry_order by metis
next
  case (got w')
  have "\<not> w_gone (wpc s)" using gone_rpc [OF inv] pc by auto
  then have "one_token sem s" using inv by (simp add: xfr_inv_def live_inv_def)
  then have "full sem s" using got(2) by (auto simp: one_token_def full_def of_bool_def split: if_splits)
  moreover have "reader_step k s = s\<lparr>kern := w', rpc := R_Check\<rparr>" "inp w' = inp (kern s)"
    using got pc by (simp_all add: reader_step_def r_after_def)
  ultimately show ?thesis using pc by (simp add: order_defs w_end_def)
qed

lemma reader_release_order:
  assumes laws: "shm_laws k sem intr inp out" and inv: "xfr_inv sem inp out orig s"
    and pc: "rpc s = R_Release \<or> rpc s = R_Last"
  shows "(reader_step k s, s) \<in> xfr_order sem intr inp"
proof -
  have holds: "r_holds (rpc s)" using pc by (auto simp: r_holds_def)
  from reader_release_done [OF laws inv holds] obtain w'
    where w': "releaseSem (sems k) bs_default WRITE_SEM (kern s) = Done w'"
      "sem w' = (sem (kern s))(WRITE_SEM := sem (kern s) WRITE_SEM + 1)" "inp w' = inp (kern s)"
    by blast
  have "\<not> w_gone (wpc s)" using gone_rpc [OF inv] pc by auto
  then have "one_token sem s" using inv by (simp add: xfr_inv_def live_inv_def)
  then have "sem (kern s) READ_SEM \<noteq> 1" "wpc s \<noteq> W_Release" using holds by (auto simp: one_token_def w_holds_def of_bool_def split: if_splits)
  then show ?thesis
    using pc w' by (elim disjE; simp add: reader_step_def r_after_def order_defs full_def w_end_def)
qed

lemma reader_step_order:
  assumes laws: "shm_laws k sem intr inp out" and inv: "xfr_inv sem inp out orig s" and eff: "reader_step k s \<noteq> s"
  shows "(reader_step k s, s) \<in> xfr_order sem intr inp"
proof (cases "rpc s")
  case R_Reserve
  then show ?thesis using reader_reserve_order [OF laws inv _ eff] by blast
next
  case R_Check
  then show ?thesis by (cases "cnt s = 0"; simp add: reader_step_def order_defs w_end_def)
next
  case R_Write
  obtain w' where w': "write_stdout k (take (nat (cnt s)) (buf s)) (kern s) = (Inr (length (take (nat (cnt s)) (buf s))), w')"
    "inp w' = inp (kern s)" "sem w' = sem (kern s)"
    using shm_lawsD(3) [OF laws] by blast
  then show ?thesis using R_Write by (simp add: reader_step_def order_defs w_end_def)
next
  case R_Detach
  obtain w' where "shmdt k (kern s) = (Inr (), w')" "inp w' = inp (kern s)" using shm_lawsD(5) [OF laws] by blast
  then show ?thesis using R_Detach by (simp add: reader_step_def r_after_def attempt_of_def order_defs w_end_def)
next
  case R_Report
  then show ?thesis using shm_lawsD(7) [OF laws] by (simp add: reader_step_def order_defs w_end_def)
next
  case (R_Exited n)
  then show ?thesis using eff by (simp add: reader_step_def)
qed (use reader_release_order [OF laws inv] in blast)+

lemma w_reserve_stuck:
  assumes laws: "shm_laws k sem intr inp out" and st: "w_after (reserveSem (sems k) bs_default n (kern s)) pc' s = s"
    and "wpc s \<noteq> pc'"
  shows "sem (kern s) n \<le> 0"
proof (cases rule: reserveSem_cases [OF shm_lawsD(1) [OF laws], of n "kern s", case_names blocked retry got])
  case (retry w')
  then have "s\<lparr>kern := w'\<rparr> = s" using st by (simp add: w_after_def)
  then have "w' = kern s" by (metis xfr.select_convs(9) xfr.surjective xfr.update_convs(9))
  then show ?thesis using retry(4) by simp
next
  case (got w')
  then have "wpc (s\<lparr>kern := w', wpc := pc'\<rparr>) = wpc s" using st by (simp add: w_after_def)
  then show ?thesis using assms(3) by simp
qed

lemma r_reserve_stuck:
  assumes laws: "shm_laws k sem intr inp out" and st: "r_after (reserveSem (sems k) bs_default n (kern s)) pc' s = s"
    and "rpc s \<noteq> pc'"
  shows "sem (kern s) n \<le> 0"
proof (cases rule: reserveSem_cases [OF shm_lawsD(1) [OF laws], of n "kern s", case_names blocked retry got])
  case (retry w')
  then have "s\<lparr>kern := w'\<rparr> = s" using st by (simp add: r_after_def)
  then have "w' = kern s" by (metis xfr.select_convs(9) xfr.surjective xfr.update_convs(9))
  then show ?thesis using retry(4) by simp
next
  case (got w')
  then have "rpc (s\<lparr>kern := w', rpc := pc'\<rparr>) = rpc s" using st by (simp add: r_after_def)
  then show ?thesis using assms(3) by simp
qed

lemma writer_stuck:
  assumes laws: "shm_laws k sem intr inp out" and st: "writer_step k s = s"
    and read: "wpc s = W_Release \<Longrightarrow> 0 \<le> sem (kern s) READ_SEM"
  shows "(\<exists>n. wpc s = W_Exited n) \<or> (wpc s = W_Reserve \<or> wpc s = W_Last) \<and> sem (kern s) WRITE_SEM \<le> 0"
proof -
  have pc: "wpc (writer_step k s) = wpc s" using st by simp
  show ?thesis
  proof (cases "wpc s")
    case W_Reserve
    then show ?thesis using w_reserve_stuck [OF laws] st by (simp add: writer_step_def)
  next
    case W_Last
    then show ?thesis using w_reserve_stuck [OF laws] st by (simp add: writer_step_def)
  next
    case W_Read
    then show ?thesis using pc shm_lawsD(2) [OF laws xfr_buf_size_pos, of "kern s"] by (auto simp: writer_step_def)
  next
    case W_Release
    from releaseSem_done [OF shm_lawsD(1) [OF laws] read [OF this]] obtain w'
      where "releaseSem (sems k) bs_default READ_SEM (kern s) = Done w'" by blast
    then show ?thesis using pc W_Release by (simp add: writer_step_def w_after_def)
  next
    case W_Test
    then show ?thesis using pc by (cases "cnt s = 0") (simp_all add: writer_step_def)
  next
    case W_RmSem
    then show ?thesis using pc shm_lawsD(4) [OF laws, of "kern s"] by (auto simp: writer_step_def w_after_def attempt_of_def)
  next
    case W_Detach
    then show ?thesis using pc shm_lawsD(5) [OF laws, of "kern s"] by (auto simp: writer_step_def w_after_def attempt_of_def)
  next
    case W_RmShm
    then show ?thesis using pc shm_lawsD(6) [OF laws, of "kern s"] by (auto simp: writer_step_def w_after_def attempt_of_def)
  qed (use pc in \<open>simp_all add: writer_step_def\<close>)
qed

lemma reader_stuck:
  assumes laws: "shm_laws k sem intr inp out" and inv: "xfr_inv sem inp out orig s" and st: "reader_step k s = s"
  shows "(\<exists>n. rpc s = R_Exited n) \<or> rpc s = R_Reserve \<and> sem (kern s) READ_SEM \<le> 0"
proof -
  have pc: "rpc (reader_step k s) = rpc s" using st by simp
  show ?thesis
  proof (cases "rpc s")
    case R_Reserve
    then show ?thesis using r_reserve_stuck [OF laws] st by (simp add: reader_step_def)
  next
    case R_Check
    then show ?thesis using pc by (cases "cnt s = 0") (simp_all add: reader_step_def)
  next
    case R_Write
    then show ?thesis using pc by (auto simp: reader_step_def split: prod.splits if_splits)
  next
    case R_Release
    then have "r_holds (rpc s)" by (simp add: r_holds_def)
    from reader_release_done [OF laws inv this] obtain w'
      where "releaseSem (sems k) bs_default WRITE_SEM (kern s) = Done w'" by blast
    then show ?thesis using R_Release pc by (simp add: reader_step_def)
  next
    case R_Last
    then have "r_holds (rpc s)" by (simp add: r_holds_def)
    from reader_release_done [OF laws inv this] obtain w'
      where "releaseSem (sems k) bs_default WRITE_SEM (kern s) = Done w'" by blast
    then show ?thesis using R_Last pc by (simp add: reader_step_def r_after_def)
  next
    case R_Detach
    then show ?thesis using pc shm_lawsD(5) [OF laws, of "kern s"] by (auto simp: reader_step_def r_after_def attempt_of_def)
  qed (use pc in \<open>simp_all add: reader_step_def\<close>)
qed

lemma xfr_stuck:
  assumes laws: "shm_laws k sem intr inp out" and inv: "xfr_inv sem inp out orig s"
    and st: "writer_step k s = s" "reader_step k s = s"
  shows "wpc s = W_Exited 0 \<and> rpc s = R_Exited 0"
proof (cases "w_gone (wpc s)")
  case True
  then show ?thesis
    using writer_stuck [OF laws st(1)] reader_stuck [OF laws inv st(2)] gone_rpc [OF inv] by (auto simp: w_gone_def)
next
  case False
  then have live: "live_inv sem inp out orig s" using inv by (simp add: xfr_inv_def)
  then have nn: "0 \<le> sem (kern s) READ_SEM" by (simp add: live_inv_def one_token_def)
  have w: "wpc s = W_Reserve \<or> wpc s = W_Last" "sem (kern s) WRITE_SEM \<le> 0"
    using writer_stuck [OF laws st(1) nn] live by (auto simp: live_inv_def)
  have "sem (kern s) READ_SEM \<le> 0 \<and> \<not> r_holds (rpc s)"
    using reader_stuck [OF laws inv st(2)]
  proof
    assume "\<exists>n. rpc s = R_Exited n"
    then have "rpc s = R_Exited 0" using live unfolding live_inv_def by blast
    then show ?thesis using live by (simp add: live_inv_def r_end_def r_holds_def)
  qed (simp add: r_holds_def)
  moreover have "\<not> w_holds (wpc s)" using w(1) by (auto simp: w_holds_def)
  moreover have "one_token sem s" using live by (simp add: live_inv_def)
  ultimately show ?thesis using w(2) by (simp add: one_token_def)
qed

subsection \<open>Properties\<close>

text \<open>
  C1: in every interleaving of the writer and the reader, the two never access the shared segment at the
  same time (the writer filling it while the reader examines or writes it out), what the reader has
  written is always a beginning of the writer's input, no process has failed, and when both have ended
  everything has been copied.
\<close>

theorem xfr_copies:
  assumes laws: "shm_laws k sem intr inp out" and start: "sem w WRITE_SEM = 1" "sem w READ_SEM = 0" "out w = []"
    and run: "xfr_run k (xfr_init w) s"
  shows "\<not> (wpc s = W_Read \<and> (rpc s = R_Check \<or> rpc s = R_Write))
    \<and> (\<exists>rest. inp w = out (kern s) @ rest)
    \<and> (\<forall>n. wpc s = W_Exited n \<longrightarrow> n = 0) \<and> (\<forall>n. rpc s = R_Exited n \<longrightarrow> n = 0)
    \<and> (wpc s = W_Exited 0 \<longrightarrow> out (kern s) = inp w)"
proof -
  have "xfr_inv sem inp out (inp w) (xfr_init w)" using xfr_init_inv [of sem w inp out] start by simp
  note inv = xfr_run_inv [OF run laws this]
  show ?thesis
  proof (cases "w_gone (wpc s)")
    case True
    then show ?thesis using inv by (auto simp: xfr_inv_def w_gone_def)
  next
    case False
    then have live: "live_inv sem inp out (inp w) s" using inv by (simp add: xfr_inv_def)
    then have "\<not> (wpc s = W_Read \<and> (rpc s = R_Check \<or> rpc s = R_Write))"
      by (auto simp: live_inv_def one_token_def w_holds_def r_holds_def)
    moreover have "\<exists>rest. inp w = out (kern s) @ rest" using live unfolding live_inv_def by metis
    ultimately show ?thesis using live unfolding live_inv_def by blast
  qed
qed

text \<open>
  C2: no interleaving of the transfer runs forever without being blocked, and it does not deadlock: the
  effective steps from reachable states are well-founded, and in a reachable state in which neither
  process can move both have ended with status 0.
\<close>

theorem xfr_completes:
  assumes laws: "shm_laws k sem intr inp out" and start: "sem w WRITE_SEM = 1" "sem w READ_SEM = 0" "out w = []"
  shows "wf {(t, s). xfr_run k (xfr_init w) s \<and> (t = writer_step k s \<or> t = reader_step k s) \<and> t \<noteq> s}
    \<and> (\<forall>s. xfr_run k (xfr_init w) s \<and> writer_step k s = s \<and> reader_step k s = s \<longrightarrow>
         wpc s = W_Exited 0 \<and> rpc s = R_Exited 0)"
proof -
  have "xfr_inv sem inp out (inp w) (xfr_init w)" using xfr_init_inv [of sem w inp out] start by simp
  then have inv: "xfr_inv sem inp out (inp w) s" if "xfr_run k (xfr_init w) s" for s
    using xfr_run_inv [OF that laws] by blast
  have "{(t, s). xfr_run k (xfr_init w) s \<and> (t = writer_step k s \<or> t = reader_step k s) \<and> t \<noteq> s} \<subseteq> xfr_order sem intr inp"
    using writer_step_order [OF laws inv] reader_step_order [OF laws inv] by auto
  then have "wf {(t, s). xfr_run k (xfr_init w) s \<and> (t = writer_step k s \<or> t = reader_step k s) \<and> t \<noteq> s}"
    by (rule wf_subset [OF wf_xfr_order])
  then show ?thesis using xfr_stuck [OF laws inv] by simp
qed

text \<open>Semaphores, pending interruptions, input and output of one machine.\<close>

type_synonym demo_shm_world = "((nat \<Rightarrow> int) \<times> nat) \<times> string \<times> string"

definition demo_shm :: "demo_shm_world shmsys" where
  "demo_shm =
     \<lparr>sems = \<lparr>semop = \<lambda>n d u (s, io). map_option (map_prod id (\<lambda>s. (s, io))) (semop fun_sems n d u s),
        semctl_setval = \<lambda>n v (s, io). map_prod id (\<lambda>s. (s, io)) (semctl_setval fun_sems n v s),
        semctl_getval = \<lambda>n (s, io). map_prod id (\<lambda>s. (s, io)) (semctl_getval fun_sems n s)\<rparr>,
      semget = \<lambda>w. (Inr (), w), shmget = \<lambda>w. (Inr (), w), shmat = \<lambda>w. (Inr (), w),
      read_stdin = \<lambda>n (s, i, out). (Inr (take n i), (s, drop n i, out)),
      write_stdout = \<lambda>bs (s, i, out). (Inr (length bs), (s, i, out @ bs)),
      rm_sems = \<lambda>w. (Inr (), w), shmdt = \<lambda>w. (Inr (), w), rm_shm = \<lambda>w. (Inr (), w), report = \<lambda>_ w. w\<rparr>"

lemma demo_semop:
  "semop (sems demo_shm) n d u ((s, i), io) =
     (if d \<le> 0 \<and> 0 < i then Some (Inl EINTR, ((s, i - 1), io))
      else if would_block (s n) d then None else Some (Inr (), ((s(n := s n + d), i), io)))"
  by (simp add: demo_shm_def fun_sems_def)

lemma demo_semctl:
  "semctl_setval (sems demo_shm) n v ((s, i), io) = (Inr (), ((s(n := v), i), io))"
  "semctl_getval (sems demo_shm) n ((s, i), io) = (Inr (s n), ((s, i), io))"
  by (simp_all add: demo_shm_def fun_sems_def)

lemma demo_sem_laws:
  "sem_laws (sems demo_shm) (fst \<circ> fst) (snd \<circ> fst) (\<lambda>w. ((fst \<circ> snd) w, (snd \<circ> snd) w))"
  unfolding sem_laws_def split_paired_All by (simp add: demo_semop demo_semctl) blast

lemma demo_shm_laws:
  "shm_laws demo_shm (fst \<circ> fst) (snd \<circ> fst) (fst \<circ> snd) (snd \<circ> snd)"
  unfolding shm_laws_def split_paired_All using demo_sem_laws by (simp add: demo_shm_def)

definition demo_start :: demo_shm_world where
  "demo_start = ((\<lambda>n. if n = WRITE_SEM then 1 else 0, 1), ''data'', [])"

lemma demo_start_facts:
  "(fst \<circ> fst) demo_start WRITE_SEM = 1" "(fst \<circ> fst) demo_start READ_SEM = 0" "(snd \<circ> snd) demo_start = []"
  "(fst \<circ> snd) demo_start = ''data''"
  by (simp_all add: demo_start_def)

theorem xfr_copies_witness:
  "\<exists>rest. ''data'' = (snd \<circ> snd) (kern (writer_step demo_shm (writer_step demo_shm (xfr_init demo_start)))) @ rest"
proof -
  have "xfr_run demo_shm (xfr_init demo_start) (writer_step demo_shm (writer_step demo_shm (xfr_init demo_start)))"
    by (intro xfr_writer xfr_start)
  from xfr_copies [OF demo_shm_laws demo_start_facts(1-3) this] show ?thesis
    unfolding demo_start_facts(4) by blast
qed

theorem xfr_completes_witness:
  "wf {(t, s). xfr_run demo_shm (xfr_init demo_start) s \<and> (t = writer_step demo_shm s \<or> t = reader_step demo_shm s) \<and> t \<noteq> s}"
  using xfr_completes [OF demo_shm_laws demo_start_facts(1-3)] by blast

end
