(* ===== verification/Seccomp.thy ===== *)
theory Seccomp
  imports C_String
begin

text \<open>
  The seccomp filters of \<open>tlpi-dist/seccomp\<close>, as programs of the classic BPF machine: the instructions the
  sources use, their execution on the description of a system call, and what each filter decides.
\<close>

unbundle bit_operations_syntax

subsection \<open>Filters\<close>

datatype sock_filter =
  LD_ABS nat
| LD_IMM "32 word"
| JEQ "32 word" nat nat
| JGT "32 word" nat nat
| JGE "32 word" nat nat
| JSET "32 word" nat nat
| JA nat
| RET "32 word"

text \<open>The system call number, the architecture, and the arguments of the call.\<close>

record seccomp_data =
  nr :: "32 word"
  arch :: "32 word"
  instruction_pointer :: "64 word"
  args :: "64 word list"

text \<open>
  The word at a byte offset of the structure: \<open>nr\<close>, \<open>arch\<close>, then 64-bit fields, of which a little-endian
  machine has the low half first.
\<close>

definition half :: "64 word \<Rightarrow> bool \<Rightarrow> 32 word" where
  "half x high = (if high then ucast (drop_bit 32 x) else ucast x)"

definition load_word :: "seccomp_data \<Rightarrow> nat \<Rightarrow> 32 word option" where
  "load_word d off =
     (if off mod 4 \<noteq> 0 \<or> 64 \<le> off then None
      else if off = 0 then Some (nr d)
      else if off = 4 then Some (arch d)
      else if off < 16 then Some (half (instruction_pointer d) (off = 12))
      else Some (half (args d ! ((off - 16) div 8)) ((off - 16) mod 8 = 4)))"

definition off_nr :: nat where "off_nr = 0"
definition off_arch :: nat where "off_arch = 4"
definition off_arg :: "nat \<Rightarrow> nat" where "off_arg i = 16 + 8 * i"

text \<open>
  Jumps are forward and relative to the next instruction.  The result is the value that the program
  returns; running past its end gives \<^const>\<open>None\<close>.
\<close>

function bpf_run :: "sock_filter list \<Rightarrow> seccomp_data \<Rightarrow> 32 word \<Rightarrow> 32 word option" where
  "bpf_run [] d a = None"
| "bpf_run (LD_ABS off # p) d a = (case load_word d off of None \<Rightarrow> None | Some v \<Rightarrow> bpf_run p d v)"
| "bpf_run (LD_IMM k # p) d a = bpf_run p d k"
| "bpf_run (JEQ k t f # p) d a = bpf_run (drop (if a = k then t else f) p) d a"
| "bpf_run (JGT k t f # p) d a = bpf_run (drop (if a > k then t else f) p) d a"
| "bpf_run (JGE k t f # p) d a = bpf_run (drop (if a \<ge> k then t else f) p) d a"
| "bpf_run (JSET k t f # p) d a = bpf_run (drop (if a AND k \<noteq> 0 then t else f) p) d a"
| "bpf_run (JA n # p) d a = bpf_run (drop n p) d a"
| "bpf_run (RET k # p) d a = Some k"
  by pat_completeness auto
termination
  by (relation "measure (\<lambda>(p, _, _). length p)") auto

definition decide :: "sock_filter list \<Rightarrow> seccomp_data \<Rightarrow> 32 word option" where
  "decide prog d = bpf_run prog d 0"

subsection \<open>Numbers of the Linux interface\<close>

definition AUDIT_ARCH_X86_64 :: "32 word" where "AUDIT_ARCH_X86_64 = 0xC000003E"
definition AUDIT_ARCH_I386 :: "32 word" where "AUDIT_ARCH_I386 = 0x40000003"
definition X32_SYSCALL_BIT :: "32 word" where "X32_SYSCALL_BIT = 0x40000000"

definition SECCOMP_RET_KILL_PROCESS :: "32 word" where "SECCOMP_RET_KILL_PROCESS = 0x80000000"
definition SECCOMP_RET_KILL :: "32 word" where "SECCOMP_RET_KILL = 0"
definition SECCOMP_RET_TRAP :: "32 word" where "SECCOMP_RET_TRAP = 0x00030000"
definition SECCOMP_RET_ERRNO :: "32 word" where "SECCOMP_RET_ERRNO = 0x00050000"
definition SECCOMP_RET_USER_NOTIF :: "32 word" where "SECCOMP_RET_USER_NOTIF = 0x7fc00000"
definition SECCOMP_RET_TRACE :: "32 word" where "SECCOMP_RET_TRACE = 0x7ff00000"
definition SECCOMP_RET_LOG :: "32 word" where "SECCOMP_RET_LOG = 0x7ffc0000"
definition SECCOMP_RET_ALLOW :: "32 word" where "SECCOMP_RET_ALLOW = 0x7fff0000"

definition NR_open :: "32 word" where "NR_open = 2"
definition NR_lseek :: "32 word" where "NR_lseek = 8"
definition NR_mkdir :: "32 word" where "NR_mkdir = 83"
definition NR_getppid :: "32 word" where "NR_getppid = 110"
definition NR_openat :: "32 word" where "NR_openat = 257"

definition O_CREAT_bit :: "32 word" where "O_CREAT_bit = 0x40"
definition O_WRONLY_bit :: "32 word" where "O_WRONLY_bit = 1"
definition O_RDWR_bit :: "32 word" where "O_RDWR_bit = 2"
definition ENOTSUP_num :: "32 word" where "ENOTSUP_num = 95"

subsection \<open>The filters of the programs\<close>

definition control_open_filter :: "sock_filter list" where
  "control_open_filter =
     [LD_ABS off_arch,
      JEQ AUDIT_ARCH_X86_64 0 2,
      LD_ABS off_nr,
      JGE X32_SYSCALL_BIT 0 1,
      RET SECCOMP_RET_KILL_PROCESS,
      JEQ NR_open 2 0,
      JEQ NR_openat 3 0,
      RET SECCOMP_RET_ALLOW,
      LD_ABS (off_arg 1),
      JA 1,
      LD_ABS (off_arg 2),
      JSET O_CREAT_bit 0 1,
      RET SECCOMP_RET_KILL_PROCESS,
      JSET (O_WRONLY_bit OR O_RDWR_bit) 0 1,
      RET (SECCOMP_RET_ERRNO OR ENOTSUP_num),
      RET SECCOMP_RET_ALLOW]"

definition deny_open_filter :: "sock_filter list" where
  "deny_open_filter =
     [LD_ABS off_arch,
      JEQ AUDIT_ARCH_X86_64 1 0,
      RET SECCOMP_RET_KILL_PROCESS,
      LD_ABS off_nr,
      JGE X32_SYSCALL_BIT 0 1,
      RET SECCOMP_RET_KILL_PROCESS,
      JEQ NR_open 2 0,
      JEQ NR_openat 1 0,
      RET SECCOMP_RET_ALLOW,
      RET SECCOMP_RET_KILL_PROCESS]"

definition arg64_filter :: "sock_filter list" where
  "arg64_filter =
     [LD_ABS off_arch,
      JEQ AUDIT_ARCH_X86_64 0 2,
      LD_ABS off_nr,
      JGE X32_SYSCALL_BIT 0 1,
      RET SECCOMP_RET_KILL_PROCESS,
      JEQ NR_lseek 1 0,
      RET SECCOMP_RET_ALLOW,
      LD_ABS (off_arg 1 + 4),
      JEQ 0 1 0,
      RET (SECCOMP_RET_ERRNO OR 2),
      LD_ABS (off_arg 1),
      JGT 1000 0 1,
      RET (SECCOMP_RET_ERRNO OR 1),
      RET SECCOMP_RET_ALLOW]"

definition NR_mq_notify_x86_64 :: "32 word" where "NR_mq_notify_x86_64 = 244"
definition NR_mq_notify_i386 :: "32 word" where "NR_mq_notify_i386 = 281"
definition NR_mq_notify_x32 :: "32 word" where "NR_mq_notify_x32 = 527"

definition multiarch_filter :: "sock_filter list" where
  "multiarch_filter =
     [LD_ABS off_arch,
      JEQ AUDIT_ARCH_X86_64 0 5,
      LD_ABS off_nr,
      JEQ NR_mq_notify_x86_64 0 1,
      RET (SECCOMP_RET_ERRNO OR NR_mq_notify_x86_64),
      JEQ (NR_mq_notify_x32 + X32_SYSCALL_BIT) 0 5,
      RET (SECCOMP_RET_ERRNO OR NR_mq_notify_x32),
      JEQ AUDIT_ARCH_I386 0 4,
      LD_ABS off_nr,
      JEQ NR_mq_notify_i386 0 1,
      RET (SECCOMP_RET_ERRNO OR NR_mq_notify_i386),
      RET SECCOMP_RET_ALLOW,
      RET SECCOMP_RET_KILL_PROCESS]"

definition perf_filter :: "sock_filter list" where
  "perf_filter =
     [LD_ABS off_arch,
      JEQ AUDIT_ARCH_X86_64 0 2,
      LD_ABS off_nr,
      JGE X32_SYSCALL_BIT 0 1,
      RET SECCOMP_RET_KILL_PROCESS,
      JEQ NR_open 1 0,
      RET SECCOMP_RET_ALLOW,
      RET SECCOMP_RET_KILL_PROCESS]"

definition trap_sigsys_filter :: "sock_filter list" where
  "trap_sigsys_filter =
     [LD_ABS off_arch,
      JEQ AUDIT_ARCH_X86_64 1 0,
      RET SECCOMP_RET_KILL,
      LD_ABS off_nr,
      JGE X32_SYSCALL_BIT 0 1,
      RET SECCOMP_RET_KILL_PROCESS,
      JEQ NR_getppid 0 1,
      RET SECCOMP_RET_TRAP,
      RET SECCOMP_RET_ALLOW]"

definition logging_filter :: "sock_filter list" where
  "logging_filter =
     [LD_ABS off_arch,
      JEQ AUDIT_ARCH_X86_64 0 2,
      LD_ABS off_nr,
      JGE X32_SYSCALL_BIT 0 1,
      RET SECCOMP_RET_KILL_PROCESS,
      RET SECCOMP_RET_LOG]"

definition X86_64_CHECK_ARCH_AND_LOAD_SYSCALL_NR :: "sock_filter list" where
  "X86_64_CHECK_ARCH_AND_LOAD_SYSCALL_NR =
     [LD_ABS off_arch,
      JEQ AUDIT_ARCH_X86_64 0 2,
      LD_ABS off_nr,
      JGE X32_SYSCALL_BIT 0 1,
      RET SECCOMP_RET_KILL_PROCESS]"

definition mkdir_notify_filter :: "sock_filter list" where
  "mkdir_notify_filter =
     X86_64_CHECK_ARCH_AND_LOAD_SYSCALL_NR @
     [JEQ NR_mkdir 0 1,
      RET SECCOMP_RET_USER_NOTIF,
      RET SECCOMP_RET_ALLOW]"

definition openat_notify_filter :: "sock_filter list" where
  "openat_notify_filter =
     X86_64_CHECK_ARCH_AND_LOAD_SYSCALL_NR @
     [JEQ NR_openat 0 1,
      RET SECCOMP_RET_USER_NOTIF,
      RET SECCOMP_RET_ALLOW]"

text \<open>The second filter, whose last instruction is replaced according to the option \<open>-f\<close>.\<close>

definition mkdir_filter2 :: "32 word \<Rightarrow> sock_filter list" where
  "mkdir_filter2 secondFilter =
     (let prog = X86_64_CHECK_ARCH_AND_LOAD_SYSCALL_NR @ [JEQ NR_mkdir 1 0, RET SECCOMP_RET_ALLOW, LD_IMM 0];
          retTrace = RET SECCOMP_RET_TRACE;
          retErrno = RET (SECCOMP_RET_ERRNO OR ENOTSUP_num)
      in prog[length prog - 1 := (if secondFilter = SECCOMP_RET_ERRNO then retErrno else retTrace)])"

subsection \<open>Execution\<close>

lemma load_fixed [simp]:
  "load_word d off_nr = Some (nr d)" "load_word d off_arch = Some (arch d)"
  by (simp_all add: load_word_def off_nr_def off_arch_def)

lemma load_arg [simp]:
  "i < 6 \<Longrightarrow> load_word d (off_arg i) = Some (half (args d ! i) False)"
  "i < 6 \<Longrightarrow> load_word d (off_arg i + 4) = Some (half (args d ! i) True)"
  by (auto simp: load_word_def off_arg_def mod_add_eq)

definition foreign :: "seccomp_data \<Rightarrow> bool" where
  "foreign d \<longleftrightarrow> arch d \<noteq> AUDIT_ARCH_X86_64 \<or> nr d \<ge> X32_SYSCALL_BIT"

lemma check_arch_run:
  "bpf_run (X86_64_CHECK_ARCH_AND_LOAD_SYSCALL_NR @ p) d a =
     (if foreign d then Some SECCOMP_RET_KILL_PROCESS else bpf_run p d (nr d))"
  by (simp add: X86_64_CHECK_ARCH_AND_LOAD_SYSCALL_NR_def foreign_def)

subsection \<open>Well-formed programs return\<close>

text \<open>
  The conditions under which the kernel accepts a program, for the instructions used here: the words loaded
  are inside the description and aligned, jumps stay inside the program, and it ends with a return.
\<close>

fun fits :: "sock_filter \<Rightarrow> nat \<Rightarrow> bool" where
  "fits (LD_ABS off) n \<longleftrightarrow> off mod 4 = 0 \<and> off < 64 \<and> 0 < n"
| "fits (LD_IMM k) n \<longleftrightarrow> 0 < n"
| "fits (JEQ k t f) n \<longleftrightarrow> t < n \<and> f < n"
| "fits (JGT k t f) n \<longleftrightarrow> t < n \<and> f < n"
| "fits (JGE k t f) n \<longleftrightarrow> t < n \<and> f < n"
| "fits (JSET k t f) n \<longleftrightarrow> t < n \<and> f < n"
| "fits (JA t) n \<longleftrightarrow> t < n"
| "fits (RET k) n \<longleftrightarrow> True"

fun accepted :: "sock_filter list \<Rightarrow> bool" where
  "accepted [] \<longleftrightarrow> True"
| "accepted (i # p) \<longleftrightarrow> fits i (length p) \<and> accepted p"

lemma accepted_drop: "accepted p \<Longrightarrow> accepted (drop n p)"
  by (induction p arbitrary: n) (auto simp: drop_Cons split: nat.split)

lemma accepted_runs: "accepted p \<Longrightarrow> p \<noteq> [] \<Longrightarrow> \<exists>r. bpf_run p d a = Some r"
  by (induction p d a rule: bpf_run.induct) (auto simp: accepted_drop load_word_def)

lemmas filter_defs = control_open_filter_def deny_open_filter_def arg64_filter_def multiarch_filter_def
  perf_filter_def trap_sigsys_filter_def logging_filter_def mkdir_notify_filter_def mkdir_filter2_def
  openat_notify_filter_def X86_64_CHECK_ARCH_AND_LOAD_SYSCALL_NR_def

lemma program_filters_accepted:
  "p \<in> set [control_open_filter, deny_open_filter, arg64_filter, multiarch_filter, perf_filter,
              trap_sigsys_filter, logging_filter, mkdir_notify_filter, mkdir_filter2 f, openat_notify_filter] \<Longrightarrow>
   accepted p \<and> p \<noteq> []"
  by (auto simp: filter_defs off_nr_def off_arch_def off_arg_def)

subsection \<open>Decisions\<close>

lemma half_high_zero: "half x True = 0 \<longleftrightarrow> unat x < 2 ^ 32"
proof -
  have "half x True = 0 \<longleftrightarrow> unat (half x True) = 0"
    by (simp add: unat_eq_0)
  also have "unat (half x True) = take_bit 32 (drop_bit 32 (unat x))"
    by (simp add: half_def unsigned_ucast_eq unat_drop_bit_eq)
  also have "\<dots> = unat x div 2 ^ 32"
    using unsigned_less [of x, where ?'a = nat] by (simp add: drop_bit_eq_div take_bit_eq_mod)
  finally show ?thesis
    by (simp add: div_eq_0_iff)
qed

lemma half_low: "unat x < 2 ^ 32 \<Longrightarrow> unat (half x False) = unat x"
  by (simp add: half_def unsigned_ucast_eq take_bit_eq_mod)

lemma sint_of_uint: "sint (x :: 64 word) = (if uint x < 2 ^ 63 then uint x else uint x - 2 ^ 64)"
proof (cases "uint x < 2 ^ 63")
  case True
  have "- (2 ^ 63) \<le> uint x"
    by (rule order_trans [of _ 0]) auto
  with True show ?thesis
    by (simp add: sint_uint signed_take_bit_int_eq_self_iff)
next
  case False
  have "uint x < 2 ^ 64"
    using uint_bounded [of x] by simp
  with False have "uint x div 2 ^ 63 = 1"
    by (intro int_div_pos_eq [of _ _ _ "uint x - 2 ^ 63"]) auto
  then have "bit (uint x) 63"
    by (simp add: bit_iff_odd)
  then show ?thesis
    using False \<open>uint x < 2 ^ 64\<close>
    by (simp add: sint_uint signed_take_bit_eq_take_bit_minus take_bit_int_eq_self)
qed

lemma unat_less_iff: "unat x < n \<longleftrightarrow> uint x < int n" "m < unat x \<longleftrightarrow> int m < uint x"
  by (subst uint_nat, simp only: of_nat_less_iff)+

lemma nonneg_sint: "0 \<le> sint (x :: 64 word) \<and> sint x < 2 ^ 32 \<longleftrightarrow> unat x < 2 ^ 32"
proof -
  have "unat x < 2 ^ 32 \<longleftrightarrow> uint x < 2 ^ 32"
    by (simp add: unat_less_iff)
  moreover have "0 \<le> uint x" "uint x < 2 ^ 64"
    using uint_bounded [of x] by simp_all
  ultimately show ?thesis
    by (cases "uint x < 2 ^ 63") (simp_all add: sint_of_uint)
qed

lemma seek_classes:
  "half x True = 0 \<longleftrightarrow> 0 \<le> sint x \<and> sint x < 2 ^ 32"
  "half x True = 0 \<Longrightarrow> half x False > 1000 \<longleftrightarrow> sint x > 1000"
proof -
  show "half x True = 0 \<longleftrightarrow> 0 \<le> sint x \<and> sint x < 2 ^ 32"
    using nonneg_sint [of x] by (simp only: half_high_zero)
  assume "half x True = 0"
  then have small: "unat x < 2 ^ 32"
    by (simp only: half_high_zero)
  then have "uint x < 2 ^ 32"
    by (simp add: unat_less_iff)
  then have "sint x = uint x"
    by (simp add: sint_of_uint)
  then show "half x False > 1000 \<longleftrightarrow> sint x > 1000"
    using half_low [OF small] by (simp add: word_less_nat_alt unat_less_iff(2) [of _ x])
qed

text \<open>
  C37: The filter of \<open>seccomp_arg64.c\<close> kills a process of another architecture or ABI, allows every other call
  than \<open>lseek()\<close>, and decides a call of \<open>lseek()\<close> by its signed 64-bit offset: from 0 to 1000 it is allowed, a
  larger offset that fits in 32 bits fails with error 1, and an offset that is negative or does not fit
  fails with error 2.
\<close>

theorem arg64_lseek:
  "decide arg64_filter d =
     Some (if foreign d then SECCOMP_RET_KILL_PROCESS
           else if nr d \<noteq> NR_lseek then SECCOMP_RET_ALLOW
           else if sint (args d ! 1) < 0 \<or> 2 ^ 32 \<le> sint (args d ! 1) then SECCOMP_RET_ERRNO OR 2
           else if 1000 < sint (args d ! 1) then SECCOMP_RET_ERRNO OR 1
           else SECCOMP_RET_ALLOW)"
proof -
  have "decide arg64_filter d =
     Some (if foreign d then SECCOMP_RET_KILL_PROCESS
           else if nr d \<noteq> NR_lseek then SECCOMP_RET_ALLOW
           else if half (args d ! 1) True \<noteq> 0 then SECCOMP_RET_ERRNO OR 2
           else if 1000 < half (args d ! 1) False then SECCOMP_RET_ERRNO OR 1
           else SECCOMP_RET_ALLOW)"
    by (simp add: decide_def arg64_filter_def foreign_def NR_lseek_def X32_SYSCALL_BIT_def)
  then show ?thesis
    using seek_classes [of "args d ! 1"] by (auto simp: not_less not_le)
qed

definition open_flags :: "seccomp_data \<Rightarrow> 64 word" where
  "open_flags d = (if nr d = NR_open then args d ! 1 else args d ! 2)"

lemma bit_half_low: "n < 32 \<Longrightarrow> bit (half x False) n \<longleftrightarrow> bit x n"
  by (simp add: half_def bit_ucast_iff)

lemma O_CREAT_set: "half x False AND O_CREAT_bit \<noteq> 0 \<longleftrightarrow> bit x 6"
  using and_exp_eq_0_iff_not_bit [of "half x False" 6] by (simp add: O_CREAT_bit_def bit_half_low)

lemma O_write_set: "half x False AND (O_WRONLY_bit OR O_RDWR_bit) \<noteq> 0 \<longleftrightarrow> bit x 0 \<or> bit x 1"
proof -
  have "half x False AND O_WRONLY_bit = 0 \<longleftrightarrow> \<not> bit x 0"
    using and_exp_eq_0_iff_not_bit [of "half x False" 0] bit_half_low [of 0 x] by (simp add: O_WRONLY_bit_def)
  moreover have "half x False AND O_RDWR_bit = 0 \<longleftrightarrow> \<not> bit x 1"
    using and_exp_eq_0_iff_not_bit [of "half x False" 1] by (simp add: O_RDWR_bit_def bit_half_low)
  ultimately show ?thesis
    by (simp only: bit.conj_disj_distrib or_eq_0_iff) blast
qed

text \<open>
  The filter of \<open>seccomp_control_open.c\<close> decides \<open>open()\<close> and \<open>openat()\<close> by the low half of their flags argument
  alone: with \<open>O_CREAT\<close> the process is killed, otherwise with \<open>O_WRONLY\<close> or \<open>O_RDWR\<close> the call fails with
  \<open>ENOTSUP\<close>, and otherwise it is allowed, as are all other calls of the x86-64 ABI.
\<close>

theorem control_open_decides:
  "decide control_open_filter d =
     Some (if foreign d then SECCOMP_RET_KILL_PROCESS
           else if nr d \<noteq> NR_open \<and> nr d \<noteq> NR_openat then SECCOMP_RET_ALLOW
           else if bit (open_flags d) 6 then SECCOMP_RET_KILL_PROCESS
           else if bit (open_flags d) 0 \<or> bit (open_flags d) 1 then SECCOMP_RET_ERRNO OR ENOTSUP_num
           else SECCOMP_RET_ALLOW)"
  by (simp add: decide_def control_open_filter_def foreign_def open_flags_def O_CREAT_set O_write_set
      NR_open_def NR_openat_def X32_SYSCALL_BIT_def)


text \<open>
  The remaining filters.  \<open>seccomp_deny_open.c\<close> kills a process that opens a file by either call, \<open>seccomp_perf.c\<close>
  only for \<open>open()\<close>, \<open>seccomp_trap_sigsys.c\<close> traps \<open>getppid()\<close>, \<open>seccomp_logging.c\<close> logs every call;
  \<open>seccomp_multiarch.c\<close> makes \<open>mq_notify()\<close> fail with its own number on each of the three ABIs and allows the other
  calls of x86-64, x32 and i386; the supervised programs raise a notification for exactly the one call they
  supervise.  Except in \<open>seccomp_multiarch.c\<close>, a call of another architecture or ABI is killed; the filter of
  \<open>seccomp_trap_sigsys.c\<close> kills only the thread when the architecture is another one.
\<close>

theorem filters_decide:
  "decide deny_open_filter d =
     Some (if foreign d \<or> nr d = NR_open \<or> nr d = NR_openat then SECCOMP_RET_KILL_PROCESS else SECCOMP_RET_ALLOW) \<and>
   decide perf_filter d =
     Some (if foreign d \<or> nr d = NR_open then SECCOMP_RET_KILL_PROCESS else SECCOMP_RET_ALLOW) \<and>
   decide trap_sigsys_filter d =
     Some (if arch d \<noteq> AUDIT_ARCH_X86_64 then SECCOMP_RET_KILL else if foreign d then SECCOMP_RET_KILL_PROCESS
           else if nr d = NR_getppid then SECCOMP_RET_TRAP else SECCOMP_RET_ALLOW) \<and>
   decide logging_filter d = Some (if foreign d then SECCOMP_RET_KILL_PROCESS else SECCOMP_RET_LOG) \<and>
   decide multiarch_filter d =
     Some (if arch d = AUDIT_ARCH_X86_64 \<and> nr d = NR_mq_notify_x86_64 then SECCOMP_RET_ERRNO OR 244
           else if arch d = AUDIT_ARCH_X86_64 \<and> nr d = X32_SYSCALL_BIT OR 527 then SECCOMP_RET_ERRNO OR 527
           else if arch d = AUDIT_ARCH_I386 \<and> nr d = NR_mq_notify_i386 then SECCOMP_RET_ERRNO OR 281
           else if arch d = AUDIT_ARCH_X86_64 \<or> arch d = AUDIT_ARCH_I386 then SECCOMP_RET_ALLOW
           else SECCOMP_RET_KILL_PROCESS) \<and>
   decide mkdir_notify_filter d =
     Some (if foreign d then SECCOMP_RET_KILL_PROCESS
           else if nr d = NR_mkdir then SECCOMP_RET_USER_NOTIF else SECCOMP_RET_ALLOW) \<and>
   decide openat_notify_filter d =
     Some (if foreign d then SECCOMP_RET_KILL_PROCESS
           else if nr d = NR_openat then SECCOMP_RET_USER_NOTIF else SECCOMP_RET_ALLOW)"
  by (intro conjI)
    (simp_all add: decide_def deny_open_filter_def perf_filter_def trap_sigsys_filter_def logging_filter_def
      multiarch_filter_def foreign_def NR_open_def NR_openat_def NR_getppid_def NR_mq_notify_x86_64_def
      NR_mq_notify_x32_def NR_mq_notify_i386_def X32_SYSCALL_BIT_def AUDIT_ARCH_X86_64_def AUDIT_ARCH_I386_def
      mkdir_notify_filter_def openat_notify_filter_def check_arch_run)

subsection \<open>Several filters\<close>

text \<open>
  All the installed filters are run, and the action of the highest precedence is taken; of equal actions
  the one of the filter installed last.
\<close>

definition SECCOMP_RET_ACTION_FULL :: "32 word" where "SECCOMP_RET_ACTION_FULL = 0xffff0000"

definition precedence :: "32 word \<Rightarrow> nat" where
  "precedence r = length (takeWhile (\<lambda>x. x \<noteq> r AND SECCOMP_RET_ACTION_FULL)
     [SECCOMP_RET_KILL_PROCESS, SECCOMP_RET_KILL, SECCOMP_RET_TRAP, SECCOMP_RET_ERRNO, SECCOMP_RET_USER_NOTIF,
      SECCOMP_RET_TRACE, SECCOMP_RET_LOG, SECCOMP_RET_ALLOW])"

fun decide_all :: "sock_filter list list \<Rightarrow> seccomp_data \<Rightarrow> 32 word" where
  "decide_all [] d = SECCOMP_RET_ALLOW"
| "decide_all (p # ps) d =
     (let r = (case decide p d of None \<Rightarrow> SECCOMP_RET_KILL_PROCESS | Some r \<Rightarrow> r); r' = decide_all ps d
      in if precedence r \<le> precedence r' then r else r')"

text \<open>The filters of the target process, the last installed first; \<^const>\<open>None\<close> is the option's \<open>-1\<close>.\<close>

definition target_filters :: "32 word option \<Rightarrow> sock_filter list list" where
  "target_filters secondFilter =
     (case secondFilter of None \<Rightarrow> [mkdir_notify_filter] | Some v \<Rightarrow> [mkdir_filter2 v, mkdir_notify_filter])"

lemmas action_defs = SECCOMP_RET_KILL_PROCESS_def SECCOMP_RET_KILL_def SECCOMP_RET_TRAP_def SECCOMP_RET_ERRNO_def
  SECCOMP_RET_USER_NOTIF_def SECCOMP_RET_TRACE_def SECCOMP_RET_LOG_def SECCOMP_RET_ALLOW_def

lemma decide_mkdir_filter2:
  "decide (mkdir_filter2 v) d =
     Some (if foreign d then SECCOMP_RET_KILL_PROCESS
           else if nr d \<noteq> NR_mkdir then SECCOMP_RET_ALLOW
           else if v = SECCOMP_RET_ERRNO then SECCOMP_RET_ERRNO OR ENOTSUP_num else SECCOMP_RET_TRACE)"
proof -
  have "mkdir_filter2 v = X86_64_CHECK_ARCH_AND_LOAD_SYSCALL_NR @
     [JEQ NR_mkdir 1 0, RET SECCOMP_RET_ALLOW,
      RET (if v = SECCOMP_RET_ERRNO then SECCOMP_RET_ERRNO OR ENOTSUP_num else SECCOMP_RET_TRACE)]"
    by (simp add: mkdir_filter2_def X86_64_CHECK_ARCH_AND_LOAD_SYSCALL_NR_def)
  then show ?thesis
    by (simp add: decide_def check_arch_run)
qed

lemma decide_mkdir_notify:
  "decide mkdir_notify_filter d =
     Some (if foreign d then SECCOMP_RET_KILL_PROCESS
           else if nr d = NR_mkdir then SECCOMP_RET_USER_NOTIF else SECCOMP_RET_ALLOW)"
  by (simp add: decide_def mkdir_notify_filter_def check_arch_run)

text \<open>
  The experiment of \<open>installFilter2()\<close>: without a second filter, and with one that returns \<open>SECCOMP_RET_TRACE\<close>,
  \<open>mkdir()\<close> raises the notification; with one that returns \<open>SECCOMP_RET_ERRNO\<close> it fails with \<open>ENOTSUP\<close> and no
  notification is raised.  Every other call of the x86-64 ABI stays allowed, and foreign calls are killed.
\<close>

theorem second_filter_precedence:
  "decide_all (target_filters v) d =
     (if foreign d then SECCOMP_RET_KILL_PROCESS
      else if nr d \<noteq> NR_mkdir then SECCOMP_RET_ALLOW
      else if v = Some SECCOMP_RET_ERRNO then SECCOMP_RET_ERRNO OR ENOTSUP_num
      else SECCOMP_RET_USER_NOTIF)"
  by (cases v)
    (simp_all add: target_filters_def decide_mkdir_notify decide_mkdir_filter2 Let_def precedence_def
      SECCOMP_RET_ACTION_FULL_def action_defs ENOTSUP_num_def)

end
