(* ===== verification/Seccomp_Unotify.thy ===== *)
theory Seccomp_Unotify
  imports Seccomp
begin

text \<open>
  The supervisors of \<open>seccomp_unotify_mkdir.c\<close> and \<open>seccomp_unotify_openat.c\<close> and the functions they share in
  \<open>seccomp_functions.c\<close>: receiving the notification of a blocked system call, fetching its pathname from the
  memory of the target, deciding the answer and sending it.  The lines the programs print about their
  progress are not modelled.
\<close>

subsection \<open>Requests, responses and the system\<close>

record seccomp_notif =
  req_id :: "64 word"
  req_pid :: int
  req_data :: seccomp_data

record seccomp_notif_resp =
  resp_id :: "64 word"
  resp_val :: int
  resp_error :: int
  resp_flags :: "32 word"

record seccomp_notif_addfd =
  addfd_id :: "64 word"
  srcfd :: fd
  newfd :: int
  addfd_setfd :: bool
  newfd_cloexec :: bool

definition SECCOMP_USER_NOTIF_FLAG_CONTINUE :: "32 word" where "SECCOMP_USER_NOTIF_FLAG_CONTINUE = 1"
definition EOPNOTSUPP :: errno where [errno_defs]: "EOPNOTSUPP = 95"
definition PATH_MAX :: nat where "PATH_MAX = 4096"

text \<open>The system calls of the supervisor, over a state of the system of any type.\<close>

record 'w notify_sys =
  sys_recv :: "fd \<Rightarrow> 'w \<Rightarrow> seccomp_notif sysres \<times> 'w"
  sys_id_valid :: "fd \<Rightarrow> 64 word \<Rightarrow> 'w \<Rightarrow> unit sysres \<times> 'w"
  sys_send :: "fd \<Rightarrow> seccomp_notif_resp \<Rightarrow> 'w \<Rightarrow> unit sysres \<times> 'w"
  sys_addfd :: "fd \<Rightarrow> seccomp_notif_addfd \<Rightarrow> 'w \<Rightarrow> fd sysres \<times> 'w"
  sys_open :: "string \<Rightarrow> 'w \<Rightarrow> fd sysres \<times> 'w"
  sys_pread :: "fd \<Rightarrow> nat \<Rightarrow> 64 word \<Rightarrow> 'w \<Rightarrow> string sysres \<times> 'w"
  sys_close :: "fd \<Rightarrow> 'w \<Rightarrow> 'w"
  sys_sleep :: "'w \<Rightarrow> 'w"
  sys_mkdir :: "string \<Rightarrow> 32 word \<Rightarrow> 'w \<Rightarrow> unit sysres \<times> 'w"
  sys_openat :: "32 word \<Rightarrow> string \<Rightarrow> 32 word \<Rightarrow> 32 word \<Rightarrow> 'w \<Rightarrow> fd sysres \<times> 'w"

subsection \<open>Shared functions\<close>

definition GTP_BAD_READ :: int where "GTP_BAD_READ = -1"
definition GTP_ID_NOT_VALID :: int where "GTP_ID_NOT_VALID = -2"
definition GTP_BAD_PATH :: int where "GTP_BAD_PATH = -3"

definition cookieIsValid :: "'w notify_sys \<Rightarrow> fd \<Rightarrow> 64 word \<Rightarrow> 'w \<Rightarrow> bool \<times> 'w" where
  "cookieIsValid sys notifyFd i w = (case sys_id_valid sys notifyFd i w of (r, w) \<Rightarrow> (r = Inr (), w))"

definition strnlen :: "string \<Rightarrow> nat \<Rightarrow> nat" where
  "strnlen s n = length (takeWhile (\<lambda>c. c \<noteq> CHR 0x00) (take n s))"

definition c_str :: "string \<Rightarrow> string" where
  "c_str buf = takeWhile (\<lambda>c. c \<noteq> CHR 0x00) buf"

text \<open>The pathname goes into the buffer \<open>path\<close>, of \<open>len\<close> bytes, which keeps the rest of its contents.\<close>

definition getTargetPathname ::
    "'w notify_sys \<Rightarrow> seccomp_notif \<Rightarrow> fd \<Rightarrow> nat \<Rightarrow> string \<Rightarrow> nat \<Rightarrow> 'w \<Rightarrow> (int \<times> string) \<times> 'w" where
  "getTargetPathname sys req notifyFd argNum path len w =
     (case sys_open sys (snprintf PATH_MAX (''/proc/'' @ show_int (req_pid req) @ ''/mem'')) w of
        (Inl _, w) \<Rightarrow> ((GTP_BAD_READ, path), w)
      | (Inr procMemFd, w) \<Rightarrow>
          (case cookieIsValid sys notifyFd (req_id req) w of
             (False, w) \<Rightarrow> ((GTP_ID_NOT_VALID, path), sys_close sys procMemFd w)
           | (True, w) \<Rightarrow>
               (case sys_pread sys procMemFd len (args (req_data req) ! argNum) w of
                  (Inl _, w) \<Rightarrow> ((GTP_BAD_READ, path), sys_close sys procMemFd w)
                | (Inr bytes, w) \<Rightarrow>
                    let nread = length bytes; path = bytes @ drop nread path; w = sys_close sys procMemFd w
                    in if nread = 0 then ((GTP_BAD_READ, path), w)
                       else (case cookieIsValid sys notifyFd (req_id req) w of
                               (False, w) \<Rightarrow> ((GTP_ID_NOT_VALID, path), w)
                             | (True, w) \<Rightarrow> ((if strnlen path nread < nread then 0 else GTP_BAD_PATH, path), w)))))"

text \<open>
  The sizes that the kernel reports (\<^const>\<open>None\<close> when it refuses), and an allocator that gives an address or
  fails.  The test after the second allocation looks at \<open>resp\<close>, the address of the caller's variable, and
  so never fails: the caller may be left with a null pointer, here \<^const>\<open>None\<close>.
\<close>

definition allocSeccompNotifBuffers ::
    "(nat \<times> nat) option \<Rightarrow> nat \<Rightarrow> (nat \<Rightarrow> 'w \<Rightarrow> nat option \<times> 'w) \<Rightarrow> 'w \<Rightarrow> (nat \<times> nat option) outcome \<times> 'w" where
  "allocSeccompNotifBuffers sizes sizeof_resp malloc w =
     (case sizes of
        None \<Rightarrow> (Exits 1, w)
      | Some (notif, notif_resp) \<Rightarrow>
          (case malloc notif w of
             (None, w) \<Rightarrow> (Exits 1, w)
           | (Some req, w) \<Rightarrow>
               let resp_size = (if sizeof_resp > notif_resp then sizeof_resp else notif_resp);
                   (resp, w) = malloc resp_size w
               in (Returns (req, resp), w)))"

subsection \<open>The supervisor of \<open>mkdir()\<close>\<close>

record cmdLineOpts =
  delaySecs :: int
  secondFilter :: "32 word option"

fun mkdir_options :: "(char \<times> string) list \<Rightarrow> cmdLineOpts \<Rightarrow> cmdLineOpts option" where
  "mkdir_options [] opts = Some opts"
| "mkdir_options ((opt, optarg) # os) opts =
     (if opt = CHR ''f'' then
        if take 1 optarg = ''e'' then mkdir_options os (opts\<lparr>secondFilter := Some SECCOMP_RET_ERRNO\<rparr>)
        else if take 1 optarg = ''t'' then mkdir_options os (opts\<lparr>secondFilter := Some SECCOMP_RET_TRACE\<rparr>)
        else None
      else if opt = CHR ''d'' then mkdir_options os (opts\<lparr>delaySecs := atoi optarg\<rparr>)
      else None)"

definition parseCommandLineOptions :: "(char \<times> string) list \<Rightarrow> string list \<Rightarrow> cmdLineOpts outcome" where
  "parseCommandLineOptions os rest =
     (case mkdir_options os \<lparr>delaySecs = 0, secondFilter = None\<rparr> of
        None \<Rightarrow> Exits 1
      | Some opts \<Rightarrow> if rest = [] then Exits 1 else Returns opts)"

text \<open>The delay, with its checks of the notification before and after.\<close>

fun sleep_loop :: "'w notify_sys \<Rightarrow> nat \<Rightarrow> 'w \<Rightarrow> 'w" where
  "sleep_loop sys 0 w = w"
| "sleep_loop sys (Suc d) w = sleep_loop sys d (sys_sleep sys w)"

definition delay :: "'w notify_sys \<Rightarrow> fd \<Rightarrow> int \<Rightarrow> seccomp_notif \<Rightarrow> 'w \<Rightarrow> unit outcome \<times> 'w" where
  "delay sys notifyFd secs req w =
     (if secs > 0 then
        (case cookieIsValid sys notifyFd (req_id req) w of
           (False, w) \<Rightarrow> (Exits 1, w)
         | (True, w) \<Rightarrow>
             (case cookieIsValid sys notifyFd (req_id req) (sleep_loop sys (nat secs) w) of
                (False, w) \<Rightarrow> (Exits 1, w)
              | (True, w) \<Rightarrow> (Returns (), w)))
      else (Returns (), w))"

definition mkdir_response ::
    "'w notify_sys \<Rightarrow> seccomp_notif \<Rightarrow> int \<Rightarrow> string \<Rightarrow> 'w \<Rightarrow> seccomp_notif_resp \<times> 'w" where
  "mkdir_response sys req pathStatus path w =
     (let resp = \<lparr>resp_id = req_id req, resp_val = 0, resp_error = 0, resp_flags = 0\<rparr> in
      if pathStatus \<noteq> 0 then (resp\<lparr>resp_error := - EINVAL\<rparr>, w)
      else if has_prefix ''/tmp/'' (c_str path) then
        (case sys_mkdir sys (c_str path) (ucast (args (req_data req) ! 1)) w of
           (Inr _, w) \<Rightarrow> (resp\<lparr>resp_error := 0, resp_val := int (length (c_str path))\<rparr>, w)
         | (Inl e, w) \<Rightarrow> (resp\<lparr>resp_error := - e\<rparr>, w))
      else if has_prefix ''./'' (c_str path) then
        (resp\<lparr>resp_error := 0, resp_val := 0, resp_flags := SECCOMP_USER_NOTIF_FLAG_CONTINUE\<rparr>, w)
      else (resp\<lparr>resp_error := - EOPNOTSUPP\<rparr>, w))"

text \<open>
  One turn of the loop.  It returns the buffer and whether the loop is left.  The buffer, of \<^const>\<open>PATH_MAX\<close>
  bytes, has unspecified contents at first, and the comparison with \<open>"/bye"\<close> is made on whatever it holds.
  The response is written through \<open>resp\<close>, which may be null.
\<close>

definition handle_mkdir ::
    "'w notify_sys \<Rightarrow> fd \<Rightarrow> nat option \<Rightarrow> int \<Rightarrow> string \<Rightarrow> 'w \<Rightarrow> (string \<times> bool) outcome \<times> 'w" where
  "handle_mkdir sys notifyFd resp secs path w =
     (case sys_recv sys notifyFd w of
        (Inl e, w) \<Rightarrow> if e = EINTR then (Returns (path, False), w) else (Exits 1, w)
      | (Inr req, w) \<Rightarrow>
          if nr (req_data req) \<noteq> NR_mkdir then (Exits 1, w)
          else andthen (delay sys notifyFd secs req w) (\<lambda>_ w.
            case getTargetPathname sys req notifyFd 0 path PATH_MAX w of
              ((pathStatus, path), w) \<Rightarrow>
                if resp = None then (Undefined, w)
                else (case mkdir_response sys req pathStatus path w of
                   (answer, w) \<Rightarrow>
                     (case sys_send sys notifyFd answer w of
                        (_, w) \<Rightarrow> (Returns (path, take 5 path = ''/bye'' @ [CHR 0x00]), w)))))"

text \<open>
  The loop, for at most \<open>n\<close> turns: \<^const>\<open>None\<close> when it is still running then.  It is left by \<open>"/bye"\<close>, and the
  process then exits, with the status of a failure.
\<close>

fun mkdir_loop ::
    "'w notify_sys \<Rightarrow> fd \<Rightarrow> nat option \<Rightarrow> int \<Rightarrow> nat \<Rightarrow> string \<Rightarrow> 'w \<Rightarrow> unit outcome option \<times> 'w" where
  "mkdir_loop sys notifyFd resp secs 0 path w = (None, w)"
| "mkdir_loop sys notifyFd resp secs (Suc n) path w =
     (case handle_mkdir sys notifyFd resp secs path w of
        (Returns (path, bye), w) \<Rightarrow> if bye then (Some (Exits 1), w) else mkdir_loop sys notifyFd resp secs n path w
      | (Exits c, w) \<Rightarrow> (Some (Exits c), w)
      | (Aborts, w) \<Rightarrow> (Some Aborts, w)
      | (Undefined, w) \<Rightarrow> (Some Undefined, w))"

definition handleNotifications_mkdir ::
    "'w notify_sys \<Rightarrow> (nat \<times> nat) option \<Rightarrow> nat \<Rightarrow> (nat \<Rightarrow> 'w \<Rightarrow> nat option \<times> 'w) \<Rightarrow> fd \<Rightarrow> cmdLineOpts \<Rightarrow> nat
       \<Rightarrow> string \<Rightarrow> 'w \<Rightarrow> unit outcome option \<times> 'w" where
  "handleNotifications_mkdir sys sizes sizeof_resp malloc notifyFd opts n path w =
     (case allocSeccompNotifBuffers sizes sizeof_resp malloc w of
        (Returns (_, resp), w) \<Rightarrow> mkdir_loop sys notifyFd resp (delaySecs opts) n path w
      | (_, w) \<Rightarrow> (Some (Exits 1), w))"

subsection \<open>The supervisor of \<open>openat()\<close>\<close>

definition openat_response ::
    "'w notify_sys \<Rightarrow> fd \<Rightarrow> seccomp_notif \<Rightarrow> int \<Rightarrow> string \<Rightarrow> 'w \<Rightarrow> seccomp_notif_resp outcome \<times> 'w" where
  "openat_response sys notifyFd req pathStatus path w =
     (let resp = \<lparr>resp_id = req_id req, resp_val = 0, resp_error = 0, resp_flags = 0\<rparr>;
          arg = (\<lambda>i. ucast (args (req_data req) ! i))
      in
      if pathStatus \<noteq> 0 then (Returns (resp\<lparr>resp_error := - EINVAL\<rparr>), w)
      else
        (case sys_openat sys (arg 0) (c_str path) (arg 2) (arg 3) w of
           (Inr d, w) \<Rightarrow>
             (case sys_addfd sys notifyFd
                  \<lparr>addfd_id = req_id req, srcfd = d, newfd = 42 + d, addfd_setfd = True, newfd_cloexec = True\<rparr> w of
                (Inl _, w) \<Rightarrow> (Exits 1, w)
              | (Inr remoteFd, w) \<Rightarrow>
                  (Returns (resp\<lparr>resp_error := 0, resp_val := remoteFd\<rparr>), sys_close sys d w))
         | (Inl e, w) \<Rightarrow> (Returns (resp\<lparr>resp_error := - e\<rparr>), w)))"

definition handle_openat ::
    "'w notify_sys \<Rightarrow> fd \<Rightarrow> nat option \<Rightarrow> string \<Rightarrow> 'w \<Rightarrow> string outcome \<times> 'w" where
  "handle_openat sys notifyFd resp path w =
     (case sys_recv sys notifyFd w of
        (Inl e, w) \<Rightarrow> if e = EINTR then (Returns path, w) else (Exits 1, w)
      | (Inr req, w) \<Rightarrow>
          if nr (req_data req) \<noteq> NR_openat then (Exits 1, w)
          else
            (case getTargetPathname sys req notifyFd 1 path PATH_MAX w of
              ((pathStatus, path), w) \<Rightarrow>
                if resp = None then (Undefined, w)
                else andthen (openat_response sys notifyFd req pathStatus path w) (\<lambda>answer w.
                     case sys_send sys notifyFd answer w of (_, w) \<Rightarrow> (Returns path, w))))"

fun openat_loop ::
    "'w notify_sys \<Rightarrow> fd \<Rightarrow> nat option \<Rightarrow> nat \<Rightarrow> string \<Rightarrow> 'w \<Rightarrow> unit outcome option \<times> 'w" where
  "openat_loop sys notifyFd resp 0 path w = (None, w)"
| "openat_loop sys notifyFd resp (Suc n) path w =
     (case handle_openat sys notifyFd resp path w of
        (Returns path, w) \<Rightarrow> openat_loop sys notifyFd resp n path w
      | (Exits c, w) \<Rightarrow> (Some (Exits c), w)
      | (Aborts, w) \<Rightarrow> (Some Aborts, w)
      | (Undefined, w) \<Rightarrow> (Some Undefined, w))"

definition handleNotifications_openat ::
    "'w notify_sys \<Rightarrow> (nat \<times> nat) option \<Rightarrow> nat \<Rightarrow> (nat \<Rightarrow> 'w \<Rightarrow> nat option \<times> 'w) \<Rightarrow> fd \<Rightarrow> nat
       \<Rightarrow> string \<Rightarrow> 'w \<Rightarrow> unit outcome option \<times> 'w" where
  "handleNotifications_openat sys sizes sizeof_resp malloc notifyFd n path w =
     (case allocSeccompNotifBuffers sizes sizeof_resp malloc w of
        (Returns (_, resp), w) \<Rightarrow> openat_loop sys notifyFd resp n path w
      | (_, w) \<Rightarrow> (Some (Exits 1), w))"

subsection \<open>The pathname of the target\<close>

lemma strnlen_less: "strnlen (bytes @ t) (length bytes) < length bytes \<longleftrightarrow> CHR 0x00 \<in> set bytes"
  by (induction bytes) (auto simp: strnlen_def)

lemma c_str_append: "CHR 0x00 \<in> set bytes \<Longrightarrow> c_str (bytes @ t) = c_str bytes"
  by (auto simp: c_str_def)

lemmas gtp_codes = GTP_BAD_READ_def GTP_ID_NOT_VALID_def GTP_BAD_PATH_def

text \<open>
  \<open>getTargetPathname()\<close> reports success only when the buffer holds a terminated string that was read from the
  target's memory at the address in its argument, and the notification was still valid before and after that read.
\<close>

theorem getTargetPathname_sound:
  assumes "getTargetPathname sys req notifyFd argNum path len w = ((0, path'), w')"
  shows "\<exists>f w1 w2 bytes w3.
    cookieIsValid sys notifyFd (req_id req) w1 = (True, w2) \<and>
    sys_pread sys f len (args (req_data req) ! argNum) w2 = (Inr bytes, w3) \<and>
    cookieIsValid sys notifyFd (req_id req) (sys_close sys f w3) = (True, w') \<and>
    CHR 0x00 \<in> set bytes \<and> c_str path' = c_str bytes \<and> path' = bytes @ drop (length bytes) path"
proof -
  note def = assms [unfolded getTargetPathname_def]
  obtain f w1 where 1: "sys_open sys (snprintf PATH_MAX (''/proc/'' @ show_int (req_pid req) @ ''/mem'')) w = (Inr f, w1)"
    using def by (auto simp: gtp_codes split: prod.splits sum.splits)
  obtain w2 where 2: "cookieIsValid sys notifyFd (req_id req) w1 = (True, w2)"
    using def 1 by (auto simp: gtp_codes split: prod.splits bool.splits)
  obtain bytes w3 where 3: "sys_pread sys f len (args (req_data req) ! argNum) w2 = (Inr bytes, w3)"
    using def 1 2 by (auto simp: gtp_codes split: prod.splits sum.splits)
  have some: "bytes \<noteq> []"
    using def 1 2 3 by (auto simp: gtp_codes)
  have 4: "cookieIsValid sys notifyFd (req_id req) (sys_close sys f w3) = (True, w')"
    using def 1 2 3 some by (auto simp: gtp_codes Let_def split: prod.splits bool.splits)
  have "CHR 0x00 \<in> set bytes" "path' = bytes @ drop (length bytes) path"
    using def 1 2 3 4 some by (auto simp: gtp_codes Let_def strnlen_less split: if_splits)
  with 2 3 4 show ?thesis
    using c_str_append by metis
qed

subsection \<open>What the supervisors do\<close>

text \<open>
  The visible actions of a supervisor: the notifications it received, the directories it tried to make
  and the answers it sent.
\<close>

datatype event = Got seccomp_notif | Made string "32 word" | Answered seccomp_notif_resp

definition notify_laws :: "'w notify_sys \<Rightarrow> ('w \<Rightarrow> event list) \<Rightarrow> bool" where
  "notify_laws sys log \<longleftrightarrow>
     (\<forall>d w q w'. sys_recv sys d w = (Inr q, w') \<longrightarrow> log w' = log w @ [Got q]) \<and>
     (\<forall>d w e w'. sys_recv sys d w = (Inl e, w') \<longrightarrow> log w' = log w) \<and>
     (\<forall>d a w r w'. sys_send sys d a w = (r, w') \<longrightarrow> log w' = log w @ [Answered a]) \<and>
     (\<forall>p m w r w'. sys_mkdir sys p m w = (r, w') \<longrightarrow> log w' = log w @ [Made p m]) \<and>
     (\<forall>d i w r w'. sys_id_valid sys d i w = (r, w') \<longrightarrow> log w' = log w) \<and>
     (\<forall>p w r w'. sys_open sys p w = (r, w') \<longrightarrow> log w' = log w) \<and>
     (\<forall>d n a w r w'. sys_pread sys d n a w = (r, w') \<longrightarrow> log w' = log w) \<and>
     (\<forall>d w. log (sys_close sys d w) = log w) \<and>
     (\<forall>w. log (sys_sleep sys w) = log w) \<and>
     (\<forall>d p f m w r w'. sys_openat sys d p f m w = (r, w') \<longrightarrow> log w' = log w) \<and>
     (\<forall>d a w r w'. sys_addfd sys d a w = (r, w') \<longrightarrow> log w' = log w)"

lemma notify_lawsD:
  assumes "notify_laws sys log"
  shows "sys_recv sys d w = (Inr q, w') \<Longrightarrow> log w' = log w @ [Got q]"
    "sys_recv sys d w = (Inl e, w') \<Longrightarrow> log w' = log w"
    "sys_send sys d a w = (u, w') \<Longrightarrow> log w' = log w @ [Answered a]"
    "sys_mkdir sys p m w = (u, w') \<Longrightarrow> log w' = log w @ [Made p m]"
    "sys_id_valid sys d i w = (u, w') \<Longrightarrow> log w' = log w"
    "sys_open sys p w = (v, w') \<Longrightarrow> log w' = log w"
    "sys_pread sys d n i w = (s, w') \<Longrightarrow> log w' = log w"
    "log (sys_close sys d w) = log w"
    "log (sys_sleep sys w) = log w"
    "sys_openat sys fl p m m' w = (v, w') \<Longrightarrow> log w' = log w"
    "sys_addfd sys d ad w = (v, w') \<Longrightarrow> log w' = log w"
  using assms unfolding notify_laws_def by (elim conjE; metis)+

text \<open>
  The pattern of a supervisor that answers: each notification is followed by its answer, with at most one
  directory made in between, which is below \<open>/tmp/\<close>, has the mode asked for, and whose pathname's length is what the
  target is told when it was made.
\<close>

fun answered :: "event list \<Rightarrow> bool" where
  "answered [] \<longleftrightarrow> True"
| "answered (Got q # Answered a # t) \<longleftrightarrow>
     resp_id a = req_id q \<and> (resp_flags a \<noteq> 0 \<longrightarrow> resp_error a = 0) \<and> answered t"
| "answered (Got q # Made p m # Answered a # t) \<longleftrightarrow>
     resp_id a = req_id q \<and> has_prefix ''/tmp/'' p \<and> m = ucast (args (req_data q) ! 1) \<and>
     resp_flags a = 0 \<and> (resp_val a = int (length p) \<and> resp_error a = 0 \<or> resp_val a = 0) \<and> answered t"
| "answered _ \<longleftrightarrow> False"

lemma answered_append: "answered t \<Longrightarrow> answered u \<Longrightarrow> answered (t @ u)"
  by (induction t rule: answered.induct) auto

lemma cookieIsValid_log:
  "notify_laws sys log \<Longrightarrow> cookieIsValid sys d i w = (b, w') \<Longrightarrow> log w' = log w"
  by (auto simp: cookieIsValid_def split: prod.splits dest: notify_lawsD)

lemma getTargetPathname_log:
  assumes laws: "notify_laws sys log" and "getTargetPathname sys q d i path len w = (r, w')"
  shows "log w' = log w"
  using assms(2) unfolding getTargetPathname_def Let_def
  by (auto split: prod.splits sum.splits bool.splits if_splits
      simp: notify_lawsD(8) [OF laws] dest!: notify_lawsD(6,7) [OF laws] cookieIsValid_log [OF laws])

lemma sleep_loop_log: "notify_laws sys log \<Longrightarrow> log (sleep_loop sys n w) = log w"
  by (induction n arbitrary: w) (simp_all add: notify_lawsD)

lemma delay_log:
  assumes "notify_laws sys log" "delay sys d secs q w = (r, w')"
  shows "log w' = log w \<and> (r = Returns () \<or> r = Exits 1)"
  using assms(2) unfolding delay_def
  by (auto split: prod.splits bool.splits if_splits
      simp: sleep_loop_log [OF assms(1)] dest!: cookieIsValid_log [OF assms(1)])

lemma mkdir_response_log:
  assumes "notify_laws sys log" "mkdir_response sys q st path w = (a, w')"
  shows "\<exists>t. log w' = log w @ t \<and> answered (Got q # t @ [Answered a])"
  using assms(2) unfolding mkdir_response_def Let_def
  by (auto split: prod.splits sum.splits if_splits dest!: notify_lawsD(4) [OF assms(1)])

lemma openat_response_log:
  assumes "notify_laws sys log" "openat_response sys d q st path w = (r, w')"
  shows "log w' = log w \<and> (r = Exits 1 \<or> (\<exists>a. r = Returns a \<and> answered [Got q, Answered a]))"
  using assms(2) unfolding openat_response_def Let_def
  by (auto split: prod.splits sum.splits if_splits simp: notify_lawsD(8) [OF assms(1)]
      dest!: notify_lawsD(10,11) [OF assms(1)])

definition turn_ok :: "'a outcome \<Rightarrow> event list \<Rightarrow> event list \<Rightarrow> bool" where
  "turn_ok r before after \<longleftrightarrow>
     (\<exists>t u. after = before @ t @ u \<and> answered t \<and>
        ((\<exists>x. r = Returns x) \<and> u = [] \<or> r = Exits 1 \<and> (u = [] \<or> (\<exists>q. u = [Got q]))))"

lemma turn_ok_intros:
  "answered t \<Longrightarrow> turn_ok (Returns x) l (l @ t)"
  "turn_ok (Exits 1) l l"
  "turn_ok (Exits 1) l (l @ [Got q])"
  unfolding turn_ok_def by (rule exI [of _ t], simp) (rule exI [of _ "[]"], simp)+

lemma handle_mkdir_turn:
  assumes laws: "notify_laws sys log" and res: "handle_mkdir sys d (Some b) secs path w = (r, w')"
  shows "turn_ok r (log w) (log w')"
proof (cases "sys_recv sys d w")
  case recv: (Pair x w1)
  show ?thesis
  proof (cases x)
    case (Inl e)
    then show ?thesis
      using res recv notify_lawsD(2) [OF laws, of d w e w1] turn_ok_intros(1) [of "[]"] turn_ok_intros(2)
      by (auto simp: handle_mkdir_def split: if_splits)
  next
    case (Inr q)
    have got: "log w1 = log w @ [Got q]"
      using notify_lawsD(1) [OF laws] recv Inr by blast
    obtain rd w2 where dl: "delay sys d secs q w1 = (rd, w2)"
      by fastforce
    obtain st p3 w3 where gt: "getTargetPathname sys q d 0 path PATH_MAX w2 = ((st, p3), w3)"
      by (metis surj_pair)
    obtain a w4 where mr: "mkdir_response sys q st p3 w3 = (a, w4)"
      by fastforce
    obtain u w5 where sd: "sys_send sys d a w4 = (u, w5)"
      by fastforce
    have w2: "log w2 = log w1" and rd: "rd = Returns () \<or> rd = Exits 1"
      using delay_log [OF laws dl] by auto
    obtain t where t: "log w4 = log w3 @ t" "answered (Got q # t @ [Answered a])"
      using mkdir_response_log [OF laws mr] by blast
    have w5: "log w5 = log w @ Got q # t @ [Answered a]"
      using notify_lawsD(3) [OF laws sd] t(1) getTargetPathname_log [OF laws gt] w2 got by simp
    show ?thesis
      using res recv Inr dl gt mr sd rd w2 got w5 turn_ok_intros(1) [OF t(2)] turn_ok_intros(3) [of "log w" q]
      by (auto simp: handle_mkdir_def split: if_splits)
  qed
qed

lemma handle_openat_turn:
  assumes laws: "notify_laws sys log" and res: "handle_openat sys d (Some b) path w = (r, w')"
  shows "turn_ok r (log w) (log w')"
proof (cases "sys_recv sys d w")
  case recv: (Pair x w1)
  show ?thesis
  proof (cases x)
    case (Inl e)
    then show ?thesis
      using res recv notify_lawsD(2) [OF laws, of d w e w1] turn_ok_intros(1) [of "[]"] turn_ok_intros(2)
      by (auto simp: handle_openat_def split: if_splits)
  next
    case (Inr q)
    have got: "log w1 = log w @ [Got q]"
      using notify_lawsD(1) [OF laws] recv Inr by blast
    obtain st p3 w3 where gt: "getTargetPathname sys q d 1 path PATH_MAX w1 = ((st, p3), w3)"
      by (metis surj_pair)
    obtain ro w4 where orr: "openat_response sys d q st p3 w3 = (ro, w4)"
      by fastforce
    have w4: "log w4 = log w @ [Got q]" and ro: "ro = Exits 1 \<or> (\<exists>a. ro = Returns a \<and> answered [Got q, Answered a])"
      using openat_response_log [OF laws orr] getTargetPathname_log [OF laws gt] got by auto
    show ?thesis
    proof (cases "nr (req_data q) = NR_openat \<and> (\<exists>a. ro = Returns a)")
      case True
      then obtain a where a: "ro = Returns a" "answered [Got q, Answered a]"
        using ro by auto
      obtain u w5 where sd: "sys_send sys d a w4 = (u, w5)"
        by fastforce
      have "log w5 = log w @ [Got q, Answered a]"
        using notify_lawsD(3) [OF laws sd] w4 by simp
      moreover have "(r, w') = (Returns p3, w5)"
        using res recv Inr gt orr a(1) sd True by (simp add: handle_openat_def)
      ultimately show ?thesis
        using turn_ok_intros(1) [OF a(2)] by simp
    next
      case False
      then show ?thesis
        using res recv Inr gt orr ro w4 got turn_ok_intros(3) [of "log w" q]
        by (auto simp: handle_openat_def split: if_splits)
    qed
  qed
qed

text \<open>The loops extend the turns.\<close>

definition loop_ok :: "unit outcome option \<Rightarrow> event list \<Rightarrow> event list \<Rightarrow> bool" where
  "loop_ok r before after \<longleftrightarrow>
     (\<exists>t u. after = before @ t @ u \<and> answered t \<and> (u = [] \<or> (\<exists>q. u = [Got q]) \<and> r = Some (Exits 1)) \<and>
        (r = None \<or> r = Some (Exits 1)))"

lemma loop_ok_refl: "loop_ok None l l"
  by (simp add: loop_ok_def)

lemma turn_ok_cases:
  assumes "turn_ok r l l'"
  obtains (returns) x t where "r = Returns x" "l' = l @ t" "answered t"
  | (exits) "r = Exits 1" "loop_ok (Some (Exits 1)) l l'"
  using assms unfolding turn_ok_def loop_ok_def by (elim exE conjE disjE) auto

lemma loop_ok_step: "answered t \<Longrightarrow> loop_ok r (l @ t) l' \<Longrightarrow> loop_ok r l l'"
  unfolding loop_ok_def by (metis answered_append append.assoc)

lemma loop_ok_done: "answered t \<Longrightarrow> loop_ok (Some (Exits 1)) l (l @ t)"
  by (auto simp: loop_ok_def)

lemma mkdir_loop_ok:
  assumes laws: "notify_laws sys log"
  shows "mkdir_loop sys d (Some b) secs n path w = (r, w') \<Longrightarrow> loop_ok r (log w) (log w')"
proof (induction n arbitrary: path w)
  case (Suc n)
  obtain x w1 where h: "handle_mkdir sys d (Some b) secs path w = (x, w1)"
    by fastforce
  from handle_mkdir_turn [OF laws h] show ?case
  proof (cases rule: turn_ok_cases)
    case (returns pb t)
    obtain p bye where pb: "pb = (p, bye)"
      by fastforce
    show ?thesis
    proof (cases bye)
      case True
      then have "(r, w') = (Some (Exits 1), w1)"
        using Suc.prems h returns(1) pb by simp
      then show ?thesis
        using loop_ok_done [OF returns(3)] returns(2) by simp
    next
      case False
      then have "mkdir_loop sys d (Some b) secs n p w1 = (r, w')"
        using Suc.prems h returns(1) pb by simp
      from loop_ok_step [OF returns(3), of r "log w"] Suc.IH [OF this] returns(2) show ?thesis
        by simp
    qed
  next
    case exits
    then show ?thesis
      using Suc.prems h by simp
  qed
qed (simp add: loop_ok_refl)

lemma openat_loop_ok:
  assumes laws: "notify_laws sys log"
  shows "openat_loop sys d (Some b) n path w = (r, w') \<Longrightarrow> loop_ok r (log w) (log w')"
proof (induction n arbitrary: path w)
  case (Suc n)
  obtain x w1 where h: "handle_openat sys d (Some b) path w = (x, w1)"
    by fastforce
  from handle_openat_turn [OF laws h] show ?case
  proof (cases rule: turn_ok_cases)
    case (returns p t)
    then have "openat_loop sys d (Some b) n p w1 = (r, w')"
      using Suc.prems h by simp
    from loop_ok_step [OF returns(3), of r "log w"] Suc.IH [OF this] returns(2) show ?thesis
      by simp
  next
    case exits
    then show ?thesis
      using Suc.prems h by simp
  qed
qed (simp add: loop_ok_refl)


text \<open>A system with a queue of notifications, whose target's memory holds one pathname everywhere.\<close>

definition demo_notify :: "string \<Rightarrow> (event list \<times> seccomp_notif list) notify_sys" where
  "demo_notify p =
     \<lparr>sys_recv = \<lambda>d (l, qs). case qs of [] \<Rightarrow> (Inl EBADF, (l, qs)) | q # qs \<Rightarrow> (Inr q, (l @ [Got q], qs)),
      sys_id_valid = \<lambda>d i w. (Inr (), w),
      sys_send = \<lambda>d a (l, qs). (Inr (), (l @ [Answered a], qs)),
      sys_addfd = \<lambda>d a w. (Inr (newfd a), w),
      sys_open = \<lambda>p w. (Inr 5, w),
      sys_pread = \<lambda>d n a w. (Inr (take n (p @ [CHR 0x00])), w),
      sys_close = \<lambda>d w. w,
      sys_sleep = \<lambda>w. w,
      sys_mkdir = \<lambda>p m (l, qs). (Inr (), (l @ [Made p m], qs)),
      sys_openat = \<lambda>d p f m w. (Inr 6, w)\<rparr>"

lemma demo_notify_laws: "notify_laws (demo_notify p) fst"
  by (auto simp: notify_laws_def demo_notify_def split: list.splits)

definition demo_req :: seccomp_notif where
  "demo_req = \<lparr>req_id = 7, req_pid = 100, req_data =
     \<lparr>nr = NR_mkdir, arch = AUDIT_ARCH_X86_64, instruction_pointer = 0, args = [4096, 448, 0, 0, 0, 0]\<rparr>\<rparr>"

definition demo_alloc :: "nat \<Rightarrow> 'w \<Rightarrow> nat option \<times> 'w" where
  "demo_alloc n w = (Some 8, w)"

lemma demo_alloc_both:
  "allocSeccompNotifBuffers (Some (80, 24)) 24 demo_alloc w = (Returns (8, Some 8), w)"
  by (simp add: allocSeccompNotifBuffers_def demo_alloc_def)

theorem getTargetPathname_sound_witness:
  "\<exists>f w1 w2 bytes w3.
    cookieIsValid (demo_notify ''/tmp/a'') 3 (req_id demo_req) w1 = (True, w2) \<and>
    sys_pread (demo_notify ''/tmp/a'') f 4096 (args (req_data demo_req) ! 0) w2 = (Inr bytes, w3) \<and>
    cookieIsValid (demo_notify ''/tmp/a'') 3 (req_id demo_req) (sys_close (demo_notify ''/tmp/a'') f w3) =
      (True, ([], [])) \<and>
    CHR 0x00 \<in> set bytes \<and> c_str (''/tmp/a'' @ [CHR 0x00]) = c_str bytes \<and>
    ''/tmp/a'' @ [CHR 0x00] = bytes @ drop (length bytes) []"
  by (rule getTargetPathname_sound [where w = "([], [])"])
    (simp add: getTargetPathname_def cookieIsValid_def demo_notify_def strnlen_def Let_def)

text \<open>The run on one notification for \<open>/tmp/a\<close>, and the property on it.\<close>

definition demo_answer :: seccomp_notif_resp where
  "demo_answer = \<lparr>resp_id = 7, resp_val = 6, resp_error = 0, resp_flags = 0\<rparr>"

definition demo_buffer :: string where
  "demo_buffer = replicate PATH_MAX CHR ''x''"

lemma demo_fetch:
  "getTargetPathname (demo_notify ''/tmp/a'') q d i path PATH_MAX w =
     ((0, ''/tmp/a'' @ CHR 0x00 # drop 7 path), w)"
  by (simp add: getTargetPathname_def demo_notify_def cookieIsValid_def strnlen_def PATH_MAX_def Let_def) (simp add: numeral_eq_Suc)

lemma demo_delay: "delay (demo_notify p) d secs q w = (Returns (), w)"
proof -
  have "sleep_loop (demo_notify p) n w = w" for n
    by (induction n) (simp_all add: demo_notify_def)
  then show ?thesis
    by (simp add: delay_def cookieIsValid_def demo_notify_def)
qed

lemma demo_response:
  "mkdir_response (demo_notify ''/tmp/a'') demo_req 0 (''/tmp/a'' @ CHR 0x00 # rest) (l, qs) =
     (demo_answer, (l @ [Made ''/tmp/a'' 448], qs))"
  by (simp add: mkdir_response_def c_str_def demo_notify_def demo_req_def demo_answer_def)

lemma demo_handle_one:
  "handle_mkdir (demo_notify ''/tmp/a'') 3 (Some 8) 2 path ([], [demo_req]) =
     (Returns (''/tmp/a'' @ CHR 0x00 # drop 7 path, False),
      ([Got demo_req, Made ''/tmp/a'' 448, Answered demo_answer], []))"
proof -
  have "sys_recv (demo_notify ''/tmp/a'') 3 ([], [demo_req]) = (Inr demo_req, ([Got demo_req], []))"
    and "nr (req_data demo_req) = NR_mkdir"
    and "sys_send (demo_notify ''/tmp/a'') 3 a (l, qs) = (Inr (), (l @ [Answered a], qs))" for a l qs
    by (simp_all add: demo_notify_def demo_req_def)
  then show ?thesis
    unfolding handle_mkdir_def demo_fetch demo_delay by (simp add: demo_response [simplified])
qed

lemma demo_handle:
  "handleNotifications_mkdir (demo_notify ''/tmp/a'') (Some (80, 24)) 24 demo_alloc 3
     \<lparr>delaySecs = 2, secondFilter = None\<rparr> (Suc (Suc 0)) demo_buffer ([], [demo_req]) =
   (Some (Exits 1), ([Got demo_req, Made ''/tmp/a'' 448, Answered demo_answer], []))"
  by (simp add: handleNotifications_mkdir_def demo_alloc_both demo_handle_one)
    (simp add: handle_mkdir_def demo_notify_def EINTR_def EBADF_def)


text \<open>
  The pathname is compared with \<open>"/bye"\<close> even when it could not be fetched: if the memory of the target of the
  first notification cannot be opened, the contents the buffer happens to have decide whether the supervisor
  goes on.
\<close>

theorem bye_on_stale_buffer:
  assumes "sys_recv sys d w = (Inr req, w1)" "nr (req_data req) = NR_mkdir" "secs \<le> 0"
    and "\<forall>p w. fst (sys_open sys p w) = Inl e"
  shows "fst (handle_mkdir sys d (Some b) secs path w) = Returns (path, take 5 path = ''/bye'' @ [CHR 0x00])"
proof -
  obtain w2 where "sys_open sys (snprintf PATH_MAX (''/proc/'' @ show_int (req_pid req) @ ''/mem'')) w1 = (Inl e, w2)"
    using assms(4) by (metis prod.collapse)
  then show ?thesis
    using assms(1-3) by (simp add: handle_mkdir_def delay_def getTargetPathname_def split: prod.splits)
qed

theorem bye_on_stale_buffer_witness:
  "fst (handle_mkdir (demo_notify []\<lparr>sys_open := \<lambda>p w. (Inl ENOENT, w)\<rparr>) 3 (Some 1) 0
     (''/bye'' @ CHR 0x00 # replicate 4091 CHR ''x'') ([], [demo_req])) = Returns (''/bye'' @ CHR 0x00 # replicate 4091 CHR ''x'', True)"
  using bye_on_stale_buffer [of "demo_notify []\<lparr>sys_open := \<lambda>p w. (Inl ENOENT, w)\<rparr>" 3 "([], [demo_req])" demo_req
      "([Got demo_req], [])" 0 ENOENT 1 "''/bye'' @ CHR 0x00 # replicate 4091 CHR ''x''"]
  by (simp add: demo_notify_def demo_req_def)

end
