(* ===== verification/Threads.thy ===== *)
theory Threads
  imports Prelude
begin

text \<open>
  Threads that interleave.  A program is a function from a label, which says which thread acts and how a call
  of the threads library ends, and a state to the next state, \<^const>\<open>None\<close> when that thread cannot act.  The
  locales collect what the programs need: invariants of all interleavings, and that the program neither
  runs forever nor stops before its end.
\<close>

datatype tid = Main | Worker nat

text \<open>
  \<open>Run t e\<close>: thread \<open>t\<close> acts, and the library call it makes, if any, returns the error number \<open>e\<close>, 0 for success.
  \<open>Spurious\<close>: a wait on a condition variable ends without a signal.
\<close>

datatype label = Run tid int | Spurious

inductive run :: "('l \<Rightarrow> 's \<Rightarrow> 's option) \<Rightarrow> 's \<Rightarrow> 's \<Rightarrow> bool" for step where
  run_refl: "run step s s"
| run_step: "run step s t \<Longrightarrow> step l t = Some u \<Longrightarrow> run step s u"

lemma run_step_first: "run step u t \<Longrightarrow> step l s = Some u \<Longrightarrow> run step s t"
  by (induction rule: run.induct) (blast intro: run_refl run_step)+

text \<open>A given interleaving, \<^const>\<open>None\<close> when it asks a thread to act that cannot.\<close>

fun exec :: "('l \<Rightarrow> 's \<Rightarrow> 's option) \<Rightarrow> 'l list \<Rightarrow> 's \<Rightarrow> 's option" where
  "exec step [] s = Some s"
| "exec step (l # ls) s = (case step l s of None \<Rightarrow> None | Some t \<Rightarrow> exec step ls t)"

lemma exec_run: "exec step ls s = Some t \<Longrightarrow> run step s t"
  by (induction ls arbitrary: s) (auto split: option.splits intro: run_refl run_step_first)

lemma exec_reaches:
  assumes "case exec step ls s of None \<Rightarrow> False | Some t \<Rightarrow> P t"
  obtains t where "run step s t" "P t"
  using assms exec_run [of step ls s] by (cases "exec step ls s") auto

definition can_act :: "'l set \<Rightarrow> ('l \<Rightarrow> 's \<Rightarrow> 's option) \<Rightarrow> 's \<Rightarrow> bool" where
  "can_act ls step s \<longleftrightarrow> (\<exists>l \<in> ls. step l s \<noteq> None)"

locale thread_invariant =
  fixes step :: "'l \<Rightarrow> 's \<Rightarrow> 's option" and inv :: "'s \<Rightarrow> bool"
  assumes inv_step: "inv s \<Longrightarrow> step l s = Some t \<Longrightarrow> inv t"
begin

lemma inv_run: "run step s t \<Longrightarrow> inv s \<Longrightarrow> inv t"
  by (induction rule: run.induct) (auto dest: inv_step)

end

locale thread_progress = thread_invariant +
  fixes ls :: "'a set" and work :: "'b \<Rightarrow> nat" and finished :: "'b \<Rightarrow> bool"
  assumes work_less: "inv s \<Longrightarrow> l \<in> ls \<Longrightarrow> step l s = Some t \<Longrightarrow> work t < work s"
    and not_stuck: "inv s \<Longrightarrow> \<not> finished s \<Longrightarrow> can_act ls step s"
begin

lemma finite_runs: "wf {(t, s). inv s \<and> (\<exists>l \<in> ls. step l s = Some t)}"
  by (rule wf_subset [OF wf_measure [of work]]) (auto dest: work_less)

lemma finishes: "inv s \<Longrightarrow> \<exists>t. run step s t \<and> finished t"
proof (induction "work s" arbitrary: s rule: less_induct)
  case less
  show ?case
  proof (cases "finished s")
    case True
    then show ?thesis
      using run_refl by metis
  next
    case False
    then obtain l u where l: "l \<in> ls" "step l s = Some u"
      using not_stuck [OF less.prems] by (auto simp: can_act_def)
    have "work u < work s" "inv u"
      using work_less l less.prems inv_step by blast+
    then obtain t where "run step u t" "finished t"
      using less.hyps by blast
    then show ?thesis
      using run_step_first [of step u _ l s] l(2) by blast
  qed
qed

lemma stops_only_finished: "run step s t \<Longrightarrow> inv s \<Longrightarrow> \<not> can_act ls step t \<Longrightarrow> finished t"
  using not_stuck inv_run by blast

end

text \<open>Updating one element of a list, in sums over the list.\<close>

lemma sum_list_update_int:
  "i < length xs \<Longrightarrow> sum_list (map f (xs[i := y])) = sum_list (map f xs) - f (xs ! i) + (f y :: int)"
proof (induction xs arbitrary: i)
  case (Cons x xs)
  then show ?case
    by (cases i) auto
qed simp

lemma sum_list_update_nat:
  "i < length xs \<Longrightarrow> sum_list (map f (xs[i := y])) + f (xs ! i) = sum_list (map f xs) + (f y :: nat)"
proof (induction xs arbitrary: i)
  case (Cons x xs)
  then show ?case
    by (cases i) auto
qed simp

text \<open>
  The owner of a mutex: the main thread or the worker that is between its lock and its unlock, where \<open>hs\<close>
  says of each worker whether it is.
\<close>

definition owner_inv :: "tid option \<Rightarrow> bool \<Rightarrow> bool list \<Rightarrow> bool" where
  "owner_inv m b hs \<longleftrightarrow> (m = Some Main \<longleftrightarrow> b) \<and> (\<forall>i. m = Some (Worker i) \<longleftrightarrow> i < length hs \<and> hs ! i)"

lemma owner_invD: "owner_inv m b hs \<Longrightarrow> i < length hs \<Longrightarrow> hs ! i \<Longrightarrow> m = Some (Worker i) \<and> \<not> b"
  unfolding owner_inv_def by (metis option.inject tid.distinct(1))

lemma owner_inv_worker: "owner_inv (Some (Worker i)) b hs \<Longrightarrow> i < length hs \<and> hs ! i"
  unfolding owner_inv_def by blast

lemma owner_inv_update:
  assumes ok: "owner_inv m b hs" and i: "i < length hs"
    and m': "m' = (if h then Some (Worker i) else if hs ! i then None else m)"
    and free: "h \<Longrightarrow> \<not> hs ! i \<Longrightarrow> m = None"
  shows "owner_inv m' b (hs[i := h])"
proof -
  have main: "m = Some Main \<longleftrightarrow> b" and worker: "m = Some (Worker k) \<longleftrightarrow> k < length hs \<and> hs ! k" for k
    using ok by (auto simp: owner_inv_def)
  have "m' = Some (Worker k) \<longleftrightarrow> k < length (hs[i := h]) \<and> hs[i := h] ! k" for k
    using i free m' worker [of k] worker [of i] by (cases "k = i") (auto split: if_splits)
  moreover have "m' = Some Main \<longleftrightarrow> b"
    using m' free main worker [of i] i by (auto split: if_splits)
  ultimately show ?thesis
    by (auto simp: owner_inv_def)
qed

lemma owner_inv_map_update:
  assumes "owner_inv m b (map h ts)" "i < length ts"
    and "m' = (if h q then Some (Worker i) else if h (ts ! i) then None else m)"
    and "h q \<Longrightarrow> \<not> h (ts ! i) \<Longrightarrow> m = None"
  shows "owner_inv m' b (map h (ts[i := q]))"
  unfolding map_update by (rule owner_inv_update [OF assms(1)]) (use assms in simp_all)

lemma owner_inv_main:
  assumes ok: "owner_inv m b hs" and main: "m' = Some Main \<longleftrightarrow> b'"
    and same: "\<And>k. m' = Some (Worker k) \<longleftrightarrow> m = Some (Worker k)" and new: "True \<notin> set hs'"
  shows "owner_inv m' b' (hs @ hs')"
proof -
  have "k < length (hs @ hs') \<and> (hs @ hs') ! k \<longleftrightarrow> k < length hs \<and> hs ! k" for k
    using new by (auto simp: nth_append)
      (metis (full_types) add_diff_inverse_nat nat_add_left_cancel_less nth_mem)
  then show ?thesis
    using ok main same unfolding owner_inv_def by blast
qed

lemma all_list_update: "\<forall>x \<in> set xs. P x \<Longrightarrow> P y \<Longrightarrow> \<forall>x \<in> set (xs[i := y]). P x"
  using set_update_subset_insert by fastforce

lemma map_list_update_same: "i < length xs \<Longrightarrow> f y = f (xs ! i) \<Longrightarrow> map f (xs[i := y]) = map f xs"
  by (metis list_update_id map_update nth_map)

end
