(* ===== verification/Prod_Condvar.thy ===== *)
theory Prod_Condvar
  imports Threads C_String
begin

text \<open>
  The producer/consumer program \<open>threads/prod_condvar.c\<close>: a producer thread for every argument and the consumer in the
  main thread, over a mutex and a condition variable.  A step is a piece of code up to the next call of
  the threads library or the next test.  \<open>sleep()\<close> and the printed lines are not modelled.
\<close>

subsection \<open>The program\<close>

datatype producer_pc = P_Test | P_Lock | P_Incr | P_Unlock | P_Signal | P_Done

record producer =
  p_pc :: producer_pc
  p_j :: int
  p_cnt :: int

datatype consumer_pc =
  M_Create "string list" | M_Lock | M_Test | M_Wait | M_Woken | M_Consume | M_Unlock | M_Check

record prodcons =
  mtx :: "tid option"
  avail :: int
  producers :: "producer list"
  m_pc :: consumer_pc
  totRequired :: int
  numConsumed :: int
  m_done :: bool
  exited :: "int option"

definition pc_init :: "string list \<Rightarrow> prodcons" where
  "pc_init argv =
     \<lparr>mtx = None, avail = 0, producers = [], m_pc = M_Create argv, totRequired = 0, numConsumed = 0,
      m_done = False, exited = None\<rparr>"

definition errExitEN_pc :: "prodcons \<Rightarrow> prodcons" where
  "errExitEN_pc s = s\<lparr>exited := Some 1\<rparr>"

text \<open>A lock blocks while the mutex is held; a signal wakes the consumer if it is waiting.\<close>

definition producer_step :: "nat \<Rightarrow> int \<Rightarrow> prodcons \<Rightarrow> prodcons option" where
  "producer_step i e s =
     (let p = producers s ! i;
          goto = (\<lambda>pc s. s\<lparr>producers := (producers s)[i := p\<lparr>p_pc := pc\<rparr>]\<rparr>)
      in case p_pc p of
        P_Test \<Rightarrow> Some (if p_j p < p_cnt p then goto P_Lock s else goto P_Done s)
      | P_Lock \<Rightarrow>
          if e \<noteq> 0 then Some (errExitEN_pc s)
          else if mtx s = None then Some (goto P_Incr (s\<lparr>mtx := Some (Worker i)\<rparr>)) else None
      | P_Incr \<Rightarrow> Some (goto P_Unlock (s\<lparr>avail := avail s + 1\<rparr>))
      | P_Unlock \<Rightarrow> Some (if e \<noteq> 0 then errExitEN_pc s else goto P_Signal (s\<lparr>mtx := None\<rparr>))
      | P_Signal \<Rightarrow>
          Some (if e \<noteq> 0 then errExitEN_pc s
                else s\<lparr>m_pc := (if m_pc s = M_Wait then M_Woken else m_pc s),
                       producers := (producers s)[i := p\<lparr>p_pc := P_Test, p_j := p_j p + 1\<rparr>]\<rparr>)
      | P_Done \<Rightarrow> None)"

definition consumer_step :: "int \<Rightarrow> prodcons \<Rightarrow> prodcons option" where
  "consumer_step e s =
     (case m_pc s of
        M_Create [] \<Rightarrow> Some (s\<lparr>m_pc := M_Lock\<rparr>)
      | M_Create (a # as) \<Rightarrow>
          (let s = s\<lparr>totRequired := totRequired s + atoi a\<rparr>
           in Some (if e \<noteq> 0 then errExitEN_pc s
                    else s\<lparr>producers := producers s @ [\<lparr>p_pc = P_Test, p_j = 0, p_cnt = atoi a\<rparr>], m_pc := M_Create as\<rparr>))
      | M_Lock \<Rightarrow>
          if e \<noteq> 0 then Some (errExitEN_pc s)
          else if mtx s = None then Some (s\<lparr>mtx := Some Main, m_pc := M_Test\<rparr>) else None
      | M_Test \<Rightarrow>
          Some (if avail s = 0 then if e \<noteq> 0 then errExitEN_pc s else s\<lparr>mtx := None, m_pc := M_Wait\<rparr>
                else s\<lparr>m_pc := M_Consume\<rparr>)
      | M_Wait \<Rightarrow> None
      | M_Woken \<Rightarrow> if mtx s = None then Some (s\<lparr>mtx := Some Main, m_pc := M_Test\<rparr>) else None
      | M_Consume \<Rightarrow>
          Some (if avail s > 0
                then s\<lparr>numConsumed := numConsumed s + 1, avail := avail s - 1,
                       m_done := (numConsumed s + 1 \<ge> totRequired s)\<rparr>
                else s\<lparr>m_pc := M_Unlock\<rparr>)
      | M_Unlock \<Rightarrow> Some (if e \<noteq> 0 then errExitEN_pc s else s\<lparr>mtx := None, m_pc := M_Check\<rparr>)
      | M_Check \<Rightarrow> Some (if m_done s then s\<lparr>exited := Some 0\<rparr> else s\<lparr>m_pc := M_Lock\<rparr>))"

text \<open>Nothing acts once the process has ended.\<close>

fun pc_step :: "label \<Rightarrow> prodcons \<Rightarrow> prodcons option" where
  "pc_step (Run Main e) s = (if exited s = None then consumer_step e s else None)"
| "pc_step (Run (Worker i) e) s = (if exited s = None \<and> i < length (producers s) then producer_step i e s else None)"
| "pc_step Spurious s = (if exited s = None \<and> m_pc s = M_Wait then Some (s\<lparr>m_pc := M_Woken\<rparr>) else None)"

subsection \<open>The invariant\<close>

definition produced :: "producer \<Rightarrow> int" where
  "produced p = p_j p + (if p_pc p = P_Unlock \<or> p_pc p = P_Signal then 1 else 0)"

definition producer_ok :: "producer \<Rightarrow> bool" where
  "producer_ok p \<longleftrightarrow> 0 \<le> p_j p \<and> (p_pc p = P_Test \<longrightarrow> p_j p \<le> p_cnt p) \<and> (p_pc p = P_Done \<longrightarrow> p_j p = p_cnt p) \<and>
     (p_pc p \<noteq> P_Test \<and> p_pc p \<noteq> P_Done \<longrightarrow> p_j p < p_cnt p)"

definition m_holds :: "consumer_pc \<Rightarrow> bool" where
  "m_holds pc \<longleftrightarrow> pc = M_Test \<or> pc = M_Consume \<or> pc = M_Unlock"

definition p_holds :: "producer_pc \<Rightarrow> bool" where
  "p_holds pc \<longleftrightarrow> pc = P_Incr \<or> pc = P_Unlock"

fun to_create :: "consumer_pc \<Rightarrow> string list" where
  "to_create (M_Create as) = as"
| "to_create _ = []"

definition owner_ok :: "prodcons \<Rightarrow> bool" where
  "owner_ok s \<longleftrightarrow> owner_inv (mtx s) (m_holds (m_pc s)) (map (\<lambda>p. p_holds (p_pc p)) (producers s))"

definition counts_ok :: "string list \<Rightarrow> prodcons \<Rightarrow> bool" where
  "counts_ok argv s \<longleftrightarrow>
     map p_cnt (producers s) @ map atoi (to_create (m_pc s)) = map atoi argv \<and>
     totRequired s = sum_list (map p_cnt (producers s)) \<and>
     0 \<le> avail s \<and> 0 \<le> numConsumed s \<and>
     numConsumed s + avail s = sum_list (map produced (producers s)) \<and>
     (\<forall>p \<in> set (producers s). producer_ok p)"

definition consumer_inv :: "consumer_pc \<Rightarrow> int \<Rightarrow> int \<Rightarrow> bool \<Rightarrow> bool" where
  "consumer_inv pc n tot d \<longleftrightarrow>
     (case pc of M_Create _ \<Rightarrow> n = 0 \<and> \<not> d | _ \<Rightarrow> d \<longleftrightarrow> n > 0 \<and> n \<ge> tot) \<and>
     (pc \<in> {M_Lock, M_Test, M_Wait, M_Woken} \<longrightarrow> \<not> d)"

definition consumer_ok :: "prodcons \<Rightarrow> bool" where
  "consumer_ok s \<longleftrightarrow> consumer_inv (m_pc s) (numConsumed s) (totRequired s) (m_done s)"

definition wakeup_ok :: "prodcons \<Rightarrow> bool" where
  "wakeup_ok s \<longleftrightarrow> (m_pc s = M_Wait \<and> avail s > 0 \<longrightarrow>
     (\<exists>p \<in> set (producers s). p_pc p = P_Unlock \<or> p_pc p = P_Signal))"

lemma counts_okI_update:
  assumes ok: "counts_ok argv s" and i: "i < length (producers s)"
    and p: "p_cnt p = p_cnt (producers s ! i)" "producer_ok p"
    and d: "avail t - avail s = produced p - produced (producers s ! i)" "0 \<le> avail t"
    and t: "producers t = (producers s)[i := p]" "totRequired t = totRequired s" "numConsumed t = numConsumed s"
      "to_create (m_pc t) = to_create (m_pc s)"
  shows "counts_ok argv t"
proof -
  have "map p_cnt (producers t) = map p_cnt (producers s)"
    unfolding t(1) using i p(1) by (rule map_list_update_same)
  moreover have "sum_list (map produced (producers t)) =
      sum_list (map produced (producers s)) - produced (producers s ! i) + produced p"
    unfolding t(1) using i by (rule sum_list_update_int)
  moreover have "\<forall>q \<in> set (producers t). producer_ok q"
    unfolding t(1) by (rule all_list_update) (use ok p(2) in \<open>auto simp: counts_ok_def\<close>)
  ultimately show ?thesis
    using ok d t(2-4) by (simp add: counts_ok_def)
qed

text \<open>The steps of a producer that do not end the process.\<close>

lemma producer_step_cases:
  assumes "producer_step i e s = Some t" "exited s = None" "exited t = None"
  obtains (test) q where "p_pc (producers s ! i) = P_Test" "p_j (producers s ! i) < p_cnt (producers s ! i)"
      "q = (producers s ! i)\<lparr>p_pc := P_Lock\<rparr>" "t = s\<lparr>producers := (producers s)[i := q]\<rparr>"
  | (finish) q where "p_pc (producers s ! i) = P_Test" "\<not> p_j (producers s ! i) < p_cnt (producers s ! i)"
      "q = (producers s ! i)\<lparr>p_pc := P_Done\<rparr>" "t = s\<lparr>producers := (producers s)[i := q]\<rparr>"
  | (lock) q where "p_pc (producers s ! i) = P_Lock" "mtx s = None"
      "q = (producers s ! i)\<lparr>p_pc := P_Incr\<rparr>" "t = s\<lparr>mtx := Some (Worker i), producers := (producers s)[i := q]\<rparr>"
  | (incr) q where "p_pc (producers s ! i) = P_Incr"
      "q = (producers s ! i)\<lparr>p_pc := P_Unlock\<rparr>" "t = s\<lparr>avail := avail s + 1, producers := (producers s)[i := q]\<rparr>"
  | (unlock) q where "p_pc (producers s ! i) = P_Unlock"
      "q = (producers s ! i)\<lparr>p_pc := P_Signal\<rparr>" "t = s\<lparr>mtx := None, producers := (producers s)[i := q]\<rparr>"
  | (signal) q where "p_pc (producers s ! i) = P_Signal"
      "q = (producers s ! i)\<lparr>p_pc := P_Test, p_j := p_j (producers s ! i) + 1\<rparr>"
      "t = s\<lparr>m_pc := (if m_pc s = M_Wait then M_Woken else m_pc s), producers := (producers s)[i := q]\<rparr>"
proof (cases "p_pc (producers s ! i)")
  case P_Test
  with assms that(1,2) show thesis
    by (cases "p_j (producers s ! i) < p_cnt (producers s ! i)") (simp_all add: producer_step_def Let_def)
qed (use assms that in \<open>auto simp: producer_step_def Let_def errExitEN_pc_def split: if_splits\<close>)

lemma producer_step_counts:
  assumes ok: "counts_ok argv s" and i: "i < length (producers s)"
    and st: "producer_step i e s = Some t" "exited s = None" "exited t = None"
  shows "counts_ok argv t"
proof -
  have p: "producer_ok (producers s ! i)" and nn: "0 \<le> avail s"
    using ok i by (auto simp: counts_ok_def)
  from st show ?thesis
    by (cases rule: producer_step_cases; intro counts_okI_update [OF ok i])
      (use p nn in \<open>simp_all add: producer_ok_def produced_def\<close>)
qed

lemma m_holds_simps [simp]: "\<not> m_holds M_Wait" "\<not> m_holds M_Woken" "\<not> m_holds M_Lock" "\<not> m_holds M_Check"
  "m_holds M_Test" "m_holds M_Consume" "m_holds M_Unlock" "\<not> m_holds (M_Create as)"
  by (simp_all add: m_holds_def)

lemma p_holds_simps [simp]: "\<not> p_holds P_Test" "\<not> p_holds P_Lock" "\<not> p_holds P_Signal" "\<not> p_holds P_Done"
  "p_holds P_Incr" "p_holds P_Unlock"
  by (simp_all add: p_holds_def)

lemma owner_okI_update:
  assumes ok: "owner_ok s" and i: "i < length (producers s)"
    and t: "producers t = (producers s)[i := p]" "m_holds (m_pc t) = m_holds (m_pc s)"
    and m: "mtx t = (if p_holds (p_pc p) then Some (Worker i) else if p_holds (p_pc (producers s ! i)) then None else mtx s)"
    and free: "p_holds (p_pc p) \<Longrightarrow> \<not> p_holds (p_pc (producers s ! i)) \<Longrightarrow> mtx s = None"
  shows "owner_ok t"
proof -
  have "owner_inv (mtx t) (m_holds (m_pc s)) ((map (\<lambda>p. p_holds (p_pc p)) (producers s))[i := p_holds (p_pc p)])"
    by (rule owner_inv_update [OF ok [unfolded owner_ok_def]]) (use i m free in simp_all)
  then show ?thesis
    by (simp add: owner_ok_def t map_update)
qed

lemma producer_step_owner:
  assumes ok: "owner_ok s" and i: "i < length (producers s)"
    and st: "producer_step i e s = Some t" "exited s = None" "exited t = None"
  shows "owner_ok t"
proof -
  have held: "p_holds (p_pc (producers s ! i)) \<Longrightarrow> mtx s = Some (Worker i)"
    using owner_invD [OF ok [unfolded owner_ok_def], of i] i by simp
  from st show ?thesis
    by (cases rule: producer_step_cases; intro owner_okI_update [OF ok i])
      (use held in \<open>simp_all, simp_all\<close>)
qed

lemma producer_step_consumer:
  assumes ok: "consumer_ok s" and st: "producer_step i e s = Some t" "exited s = None" "exited t = None"
  shows "consumer_ok t"
  using st
proof (cases rule: producer_step_cases)
  case signal
  then show ?thesis
    using ok by (cases "m_pc s = M_Wait") (auto simp: consumer_ok_def consumer_inv_def)
qed (use ok in \<open>simp_all add: consumer_ok_def\<close>)

lemma wakeup_okI:
  assumes "wakeup_ok s" "i < length (producers s)" "producers t = (producers s)[i := p]" "m_pc t = m_pc s"
    and "p_pc (producers s ! i) = P_Unlock \<or> p_pc (producers s ! i) = P_Signal \<Longrightarrow> p_pc p = P_Signal"
    and "avail t = avail s \<or> p_pc p = P_Unlock"
  shows "wakeup_ok t"
  unfolding wakeup_ok_def
proof (intro impI)
  assume a: "m_pc t = M_Wait \<and> avail t > 0"
  have mem: "p \<in> set (producers t)"
    using assms by (simp add: set_update_memI)
  show "\<exists>p \<in> set (producers t). p_pc p = P_Unlock \<or> p_pc p = P_Signal"
  proof (cases "p_pc p = P_Unlock \<or> p_pc p = P_Signal")
    case False
    then obtain q where q: "q \<in> set (producers s)" "p_pc q = P_Unlock \<or> p_pc q = P_Signal"
      using assms a by (auto simp: wakeup_ok_def)
    then obtain k where k: "k < length (producers s)" "producers s ! k = q"
      by (auto simp: in_set_conv_nth)
    have "k \<noteq> i"
      using k q(2) False assms(5) by auto
    then have "q \<in> set (producers t)"
      using k assms(3) by (metis length_list_update nth_list_update_neq nth_mem)
    then show ?thesis
      using q(2) by blast
  qed (use mem in blast)
qed

lemma producer_step_wakeup:
  assumes ok: "wakeup_ok s" and i: "i < length (producers s)"
    and st: "producer_step i e s = Some t" "exited s = None" "exited t = None"
  shows "wakeup_ok t"
  using st
proof (cases rule: producer_step_cases)
  case signal
  then show ?thesis
    by (simp add: wakeup_ok_def)
qed (use wakeup_okI [OF ok i, of t] in simp_all)

text \<open>The same for the consumer, and for a wait that ends by itself.\<close>

lemma consumer_step_counts:
  assumes ok: "counts_ok argv s" "consumer_ok s" and nonneg: "\<forall>a \<in> set argv. 0 \<le> atoi a"
    and st: "consumer_step e s = Some t" "exited s = None" "exited t = None"
  shows "counts_ok argv t"
proof (cases "m_pc s")
  case (M_Create as)
  show ?thesis
  proof (cases as)
    case (Cons a as')
    have "atoi a \<in> atoi ` set argv"
      using ok(1) M_Create Cons by (metis counts_ok_def in_set_conv_decomp list.set_map map_append to_create.simps(1) list.simps(9))
    then have "0 \<le> atoi a"
      using nonneg by auto
    then show ?thesis
      using ok st M_Create Cons
      by (auto simp: consumer_step_def Let_def errExitEN_pc_def counts_ok_def produced_def producer_ok_def split: if_splits)
  qed (use ok st M_Create in \<open>auto simp: consumer_step_def counts_ok_def\<close>)
qed (use ok st in \<open>auto simp: consumer_step_def errExitEN_pc_def counts_ok_def split: if_splits\<close>)

lemma owner_okI_main:
  assumes ok: "owner_ok s" and ps: "producers t = producers s @ ps" "\<forall>p \<in> set ps. \<not> p_holds (p_pc p)"
    and main: "mtx t = Some Main \<longleftrightarrow> m_holds (m_pc t)"
    and same: "\<And>k. mtx t = Some (Worker k) \<longleftrightarrow> mtx s = Some (Worker k)"
  shows "owner_ok t"
  using owner_inv_main [OF ok [unfolded owner_ok_def] main same] ps by (force simp: owner_ok_def)

lemma consumer_step_owner:
  assumes ok: "owner_ok s" and st: "consumer_step e s = Some t" "exited s = None" "exited t = None"
  shows "owner_ok t"
proof -
  have main: "mtx s = Some Main \<longleftrightarrow> m_holds (m_pc s)"
    using ok by (simp add: owner_ok_def owner_inv_def)
  show ?thesis
  proof (cases "m_pc s")
    case (M_Create as)
    then show ?thesis
    proof (cases as)
      case Nil
      show ?thesis
        by (rule owner_okI_main [OF ok, of t "[]"]) (use main st M_Create Nil in \<open>auto simp: consumer_step_def\<close>)
    next
      case (Cons a as')
      show ?thesis
        by (rule owner_okI_main [OF ok, of t "[\<lparr>p_pc = P_Test, p_j = 0, p_cnt = atoi a\<rparr>]"])
          (use main st M_Create Cons in \<open>auto simp: consumer_step_def Let_def errExitEN_pc_def split: if_splits\<close>)
    qed
  qed (rule owner_okI_main [OF ok, of t "[]"];
      use main st in \<open>auto simp: consumer_step_def errExitEN_pc_def split: if_splits\<close>)+
qed

lemma consumer_step_consumer:
  assumes ok: "consumer_ok s" and nn: "0 \<le> numConsumed s"
    and st: "consumer_step e s = Some t" "exited s = None" "exited t = None"
  shows "consumer_ok t"
proof (cases "m_pc s")
  case (M_Create as)
  then show ?thesis
    using ok st
    by (cases as) (auto simp: consumer_step_def Let_def errExitEN_pc_def consumer_ok_def consumer_inv_def split: if_splits)
qed (use ok st nn in \<open>auto simp: consumer_step_def errExitEN_pc_def consumer_ok_def consumer_inv_def split: if_splits\<close>)

lemma consumer_step_wakeup:
  assumes st: "consumer_step e s = Some t" "exited s = None" "exited t = None"
  shows "wakeup_ok t"
proof (cases "m_pc s")
  case (M_Create as)
  then show ?thesis
    using st by (cases as) (auto simp: consumer_step_def Let_def errExitEN_pc_def wakeup_ok_def split: if_splits)
qed (use st in \<open>auto simp: consumer_step_def errExitEN_pc_def wakeup_ok_def split: if_splits\<close>)

subsection \<open>All interleavings\<close>

definition pc_inv :: "string list \<Rightarrow> prodcons \<Rightarrow> bool" where
  "pc_inv argv s \<longleftrightarrow>
     (case exited s of
        None \<Rightarrow> owner_ok s \<and> counts_ok argv s \<and> consumer_ok s \<and> wakeup_ok s
      | Some c \<Rightarrow> c = 1 \<or> c = 0 \<and> counts_ok argv s \<and> consumer_ok s \<and> m_done s \<and> m_pc s = M_Check) \<and>
     (\<forall>a \<in> set argv. 0 \<le> atoi a)"

lemma producer_exit:
  "producer_step i e s = Some t \<Longrightarrow> exited s = None \<Longrightarrow> exited t = Some c \<Longrightarrow> c = 1"
  by (cases "p_pc (producers s ! i)") (auto simp: producer_step_def Let_def errExitEN_pc_def split: if_splits)

lemma consumer_exit:
  assumes "consumer_step e s = Some t" "exited s = None" "exited t = Some c"
  shows "c = 1 \<or> c = 0 \<and> t = s\<lparr>exited := Some 0\<rparr> \<and> m_done s \<and> m_pc s = M_Check"
proof (cases "m_pc s")
  case (M_Create as)
  then show ?thesis
    using assms by (cases as) (auto simp: consumer_step_def Let_def errExitEN_pc_def split: if_splits)
qed (use assms in \<open>auto simp: consumer_step_def errExitEN_pc_def split: if_splits\<close>)

lemma pc_inv_consumer:
  assumes inv: "pc_inv argv s" and e: "exited s = None" and st: "consumer_step e s = Some t"
  shows "pc_inv argv t"
proof (cases "exited t")
  case None
  then show ?thesis
    using inv e consumer_step_counts [OF _ _ _ st e] consumer_step_owner [OF _ st e] consumer_step_consumer [OF _ _ st e]
      consumer_step_wakeup [OF st e] by (simp add: pc_inv_def counts_ok_def)
next
  case (Some c)
  then show ?thesis
    using inv e consumer_exit [OF st e Some] by (auto simp: pc_inv_def counts_ok_def consumer_ok_def)
qed

lemma pc_inv_producer:
  assumes inv: "pc_inv argv s" and e: "exited s = None" and st: "producer_step i e' s = Some t"
    and i: "i < length (producers s)"
  shows "pc_inv argv t"
proof (cases "exited t")
  case None
  then show ?thesis
    using inv e producer_step_counts [OF _ i st e] producer_step_owner [OF _ i st e] producer_step_consumer [OF _ st e]
      producer_step_wakeup [OF _ i st e] by (simp add: pc_inv_def)
next
  case (Some c)
  then show ?thesis
    using inv producer_exit [OF st e Some] by (simp add: pc_inv_def)
qed

lemma pc_inv_spurious:
  assumes "pc_inv argv s" "exited s = None" "m_pc s = M_Wait"
  shows "pc_inv argv (s\<lparr>m_pc := M_Woken\<rparr>)"
proof -
  have "consumer_ok (s\<lparr>m_pc := M_Woken\<rparr>)"
    using assms by (auto simp: pc_inv_def consumer_ok_def consumer_inv_def)
  then show ?thesis
    using assms by (simp add: pc_inv_def owner_ok_def counts_ok_def wakeup_ok_def)
qed

lemma pc_init_inv: "(\<forall>a \<in> set argv. 0 \<le> atoi a) \<Longrightarrow> pc_inv argv (pc_init argv)"
  by (simp add: pc_inv_def pc_init_def owner_ok_def counts_ok_def consumer_ok_def consumer_inv_def wakeup_ok_def
      owner_inv_def)

interpretation pc: thread_invariant pc_step "pc_inv argv" for argv
proof
  fix s t l
  assume inv: "pc_inv argv s" and st: "pc_step l s = Some t"
  then show "pc_inv argv t"
    by (cases "(l, s)" rule: pc_step.cases)
      (auto split: if_splits intro: pc_inv_consumer pc_inv_producer pc_inv_spurious)
qed

subsection \<open>The end of the program\<close>

lemma produced_le: "producer_ok p \<Longrightarrow> produced p \<le> p_cnt p"
  by (auto simp: producer_ok_def produced_def split: if_splits)

lemma sum_produced_le:
  "\<forall>p \<in> set ps. producer_ok p \<Longrightarrow> sum_list (map produced ps) \<le> sum_list (map p_cnt ps)"
  by (induction ps) (auto dest: produced_le intro: add_mono)

lemma sum_produced_eq:
  "\<forall>p \<in> set ps. producer_ok p \<Longrightarrow> sum_list (map produced ps) = sum_list (map p_cnt ps) \<Longrightarrow>
   map produced ps = map p_cnt ps"
proof (induction ps)
  case (Cons p ps)
  then have "produced p \<le> p_cnt p" "sum_list (map produced ps) \<le> sum_list (map p_cnt ps)"
    using produced_le sum_produced_le by auto
  with Cons show ?case
    by auto
qed simp

lemma counts_bounds:
  assumes ok: "counts_ok argv s" and nonneg: "\<forall>a \<in> set argv. 0 \<le> atoi a"
  shows "numConsumed s + avail s \<le> totRequired s" "totRequired s \<le> sum_list (map atoi argv)"
proof -
  show "numConsumed s + avail s \<le> totRequired s"
    using ok sum_produced_le by (simp add: counts_ok_def)
  let ?rest = "map atoi (to_create (m_pc s))"
  have eq: "map p_cnt (producers s) @ ?rest = map atoi argv"
    using ok by (simp add: counts_ok_def)
  then have "set ?rest \<subseteq> set (map atoi argv)"
    by (metis set_append sup.cobounded2)
  then have "0 \<le> sum_list ?rest"
    using nonneg by (intro sum_list_nonneg) auto
  moreover have "sum_list (map atoi argv) = totRequired s + sum_list ?rest"
    using ok arg_cong [OF eq [symmetric], of sum_list] unfolding counts_ok_def sum_list_append by linarith
  ultimately show "totRequired s \<le> sum_list (map atoi argv)"
    by simp
qed


text \<open>A run with one producer of one unit, in which the consumer waits.\<close>

definition demo_schedule :: "label list" where
  "demo_schedule =
     (let m = Run Main 0; w = Run (Worker 0) 0
      in [m, m, m, w, m, w, w, w, w, m, m, m, m, m, m])"

definition demo_end :: prodcons where
  "demo_end = \<lparr>mtx = None, avail = 0, producers = [\<lparr>p_pc = P_Test, p_j = 1, p_cnt = 1\<rparr>], m_pc = M_Check,
     totRequired = 1, numConsumed = 1, m_done = True, exited = Some 0\<rparr>"

lemma atoi_1: "atoi ''1'' = 1"
  by code_simp

lemma demo_run: "exec pc_step demo_schedule (pc_init [''1'']) = Some demo_end"
  by code_simp


subsection \<open>No deadlock, no endless run\<close>

definition producer_work :: "producer \<Rightarrow> nat" where
  "producer_work p =
     (let n = 5 * nat (p_cnt p - p_j p)
      in case p_pc p of P_Test \<Rightarrow> n + 1 | P_Lock \<Rightarrow> n | P_Incr \<Rightarrow> n - 1 | P_Unlock \<Rightarrow> n - 2 | P_Signal \<Rightarrow> n - 3 | P_Done \<Rightarrow> 0)"

definition consumer_rank :: "consumer_pc \<Rightarrow> bool \<Rightarrow> nat" where
  "consumer_rank pc available =
     (case pc of M_Create _ \<Rightarrow> 9 | M_Woken \<Rightarrow> 8 | M_Consume \<Rightarrow> if available then 2 else 7 | M_Unlock \<Rightarrow> 6
      | M_Check \<Rightarrow> 5 | M_Lock \<Rightarrow> 4 | M_Test \<Rightarrow> 3 | M_Wait \<Rightarrow> 0)"

definition pc_work :: "prodcons \<Rightarrow> nat" where
  "pc_work s =
     (if exited s \<noteq> None then 0
      else 1 + 20 * (sum_list (map producer_work (producers s)) +
             sum_list (map (\<lambda>a. 5 * nat (atoi a) + 2) (to_create (m_pc s)))) +
           10 * nat (avail s) + consumer_rank (m_pc s) (avail s > 0))"

lemma consumer_rank_le: "consumer_rank pc b \<le> 9"
  by (cases pc) (auto simp: consumer_rank_def)

lemma producer_work_Suc:
  "producer_ok p \<Longrightarrow> p_pc p \<noteq> P_Test \<Longrightarrow> p_pc p \<noteq> P_Done \<Longrightarrow> nat (p_cnt p - p_j p) = Suc (nat (p_cnt p - (p_j p + 1)))"
  unfolding producer_ok_def by linarith

lemma producer_work_less:
  assumes i: "i < length (producers s)" and ok: "producer_ok (producers s ! i)"
    and st: "producer_step i e s = Some t" "exited s = None" "exited t = None"
  shows "sum_list (map producer_work (producers t)) < sum_list (map producer_work (producers s)) \<and>
    avail t \<le> avail s + 1 \<and> to_create (m_pc t) = to_create (m_pc s)"
proof -
  obtain q where q: "producers t = (producers s)[i := q]" "producer_work q < producer_work (producers s ! i)"
      "avail t \<le> avail s + 1" "to_create (m_pc t) = to_create (m_pc s)"
    using st
  proof (cases rule: producer_step_cases)
    case (test q)
    then show thesis
      using that [of q] ok by (simp add: producer_work_def)
  next
    case (finish q)
    then show thesis
      using that [of q] ok by (simp add: producer_work_def)
  next
    case (lock q)
    then show thesis
      using that [of q] producer_work_Suc [OF ok] by (simp add: producer_work_def)
  next
    case (incr q)
    then show thesis
      using that [of q] producer_work_Suc [OF ok] by (simp add: producer_work_def)
  next
    case (unlock q)
    then show thesis
      using that [of q] producer_work_Suc [OF ok] by (simp add: producer_work_def)
  next
    case (signal q)
    then show thesis
      using that [of q] producer_work_Suc [OF ok] by (simp add: producer_work_def)
  qed
  then show ?thesis
    using sum_list_update_nat [OF i, of producer_work q] by simp
qed

lemma pc_work_producer:
  assumes inv: "pc_inv argv s" and i: "i < length (producers s)"
    and st: "producer_step i e s = Some t" and s: "exited s = None"
  shows "pc_work t < pc_work s"
proof (cases "exited t")
  case None
  have "producer_ok (producers s ! i)" "0 \<le> avail s"
    using inv s i by (auto simp: pc_inv_def counts_ok_def)
  note less = producer_work_less [OF i this(1) st s None]
  have "nat (avail t) \<le> nat (avail s) + 1"
    using less by linarith
  then show ?thesis
    using less s None consumer_rank_le [of "m_pc t" "avail t > 0"] by (simp add: pc_work_def)
next
  case (Some c)
  then show ?thesis
    using s by (simp add: pc_work_def)
qed

lemma pc_work_consumer:
  assumes st: "consumer_step e s = Some t" and s: "exited s = None" and nn: "0 \<le> avail s"
  shows "pc_work t < pc_work s"
proof (cases "m_pc s")
  case (M_Create as)
  show ?thesis
  proof (cases as)
    case (Cons a as')
    then show ?thesis
      using st s M_Create
      by (auto simp: consumer_step_def Let_def errExitEN_pc_def pc_work_def consumer_rank_def producer_work_def split: if_splits)
  qed (use st s M_Create in \<open>auto simp: consumer_step_def pc_work_def consumer_rank_def\<close>)
qed (use st s nn in \<open>auto simp: consumer_step_def errExitEN_pc_def pc_work_def consumer_rank_def split: if_splits\<close>)

text \<open>While a producer has something left to do, it or the holder of the mutex can act.\<close>

lemma holder_acts:
  assumes ok: "owner_ok s" and e: "exited s = None" and m: "mtx s = Some (Worker i)"
  shows "pc_step (Run (Worker i) 0) s \<noteq> None"
proof -
  have "i < length (producers s)" "p_holds (p_pc (producers s ! i))"
    using owner_inv_worker [of i "m_holds (m_pc s)" "map (\<lambda>p. p_holds (p_pc p)) (producers s)"] ok m
    by (auto simp: owner_ok_def)
  then show ?thesis
    using e by (auto simp: producer_step_def Let_def p_holds_def)
qed

lemma producer_acts:
  assumes ok: "owner_ok s" and e: "exited s = None" and m: "mtx s \<noteq> Some Main"
    and p: "p \<in> set (producers s)" "p_pc p \<noteq> P_Done"
  shows "\<exists>t. pc_step (Run t 0) s \<noteq> None"
proof (cases "mtx s")
  case None
  obtain i where i: "i < length (producers s)" "producers s ! i = p"
    using p(1) by (auto simp: in_set_conv_nth)
  have "pc_step (Run (Worker i) 0) s \<noteq> None"
    using e i p(2) None by (cases "p_pc p") (auto simp: producer_step_def Let_def)
  then show ?thesis
    by blast
next
  case (Some t)
  then show ?thesis
    using m holder_acts [OF ok e] by (cases t) blast+
qed

lemma sum_done:
  "\<forall>p \<in> set ps. producer_ok p \<Longrightarrow> \<forall>p \<in> set ps. p_pc p = P_Done \<Longrightarrow>
   sum_list (map produced ps) = sum_list (map p_cnt ps)"
  by (rule arg_cong [of _ _ sum_list], rule map_cong) (auto simp: producer_ok_def produced_def)

lemma wait_not_done:
  assumes inv: "pc_inv argv s" and e: "exited s = None" and w: "m_pc s = M_Wait"
    and pos: "0 < sum_list (map atoi argv)"
  shows "\<exists>p \<in> set (producers s). p_pc p \<noteq> P_Done"
proof (rule ccontr)
  assume "\<not> ?thesis"
  then have fin: "\<forall>p \<in> set (producers s). p_pc p = P_Done"
    by blast
  have ok: "counts_ok argv s" "consumer_ok s" "wakeup_ok s"
    using inv e by (simp_all add: pc_inv_def)
  have "numConsumed s + avail s = sum_list (map atoi argv)" and tot: "totRequired s = sum_list (map atoi argv)"
    using ok(1) w sum_done [OF _ fin] by (auto simp: counts_ok_def)
  moreover have "avail s \<le> 0"
    using ok(3) w fin by (auto simp: wakeup_ok_def)
  ultimately show False
    using ok(2) w pos by (auto simp: consumer_ok_def consumer_inv_def)
qed

lemma pc_not_stuck:
  assumes inv: "pc_inv argv s" and e: "exited s = None" and pos: "0 < sum_list (map atoi argv)"
  shows "\<exists>t. pc_step (Run t 0) s \<noteq> None"
proof (cases "m_pc s = M_Wait")
  case True
  then obtain p where "p \<in> set (producers s)" "p_pc p \<noteq> P_Done"
    using wait_not_done [OF inv e _ pos] by blast
  moreover have ok: "owner_ok s"
    using inv e by (simp add: pc_inv_def)
  moreover have "mtx s \<noteq> Some Main"
    using ok True by (simp add: owner_ok_def owner_inv_def)
  ultimately show ?thesis
    using producer_acts [OF _ e] by blast
next
  case False
  show ?thesis
  proof (cases "pc_step (Run Main 0) s")
    case None
    have ok: "owner_ok s"
      using inv e by (simp add: pc_inv_def)
    have "m_pc s = M_Lock \<or> m_pc s = M_Woken" "mtx s \<noteq> None"
      using None e False by (auto simp: consumer_step_def Let_def split: consumer_pc.splits list.splits if_splits)
    then obtain i where "mtx s = Some (Worker i)"
      using ok by (cases "the (mtx s)") (auto simp: owner_ok_def owner_inv_def)
    then show ?thesis
      using holder_acts [OF ok e] by blast
  qed blast
qed

definition pc_live_inv :: "string list \<Rightarrow> prodcons \<Rightarrow> bool" where
  "pc_live_inv argv s \<longleftrightarrow> pc_inv argv s \<and> 0 < sum_list (map atoi argv)"

interpretation pc_live: thread_progress pc_step "pc_live_inv argv" "{Run t 0 | t. True}" pc_work
  "\<lambda>s. exited s \<noteq> None" for argv
proof
  fix s t l
  show "pc_live_inv argv s \<Longrightarrow> pc_step l s = Some t \<Longrightarrow> pc_live_inv argv t"
    using pc.inv_step by (auto simp: pc_live_inv_def)
next
  fix s t l
  assume "pc_live_inv argv s" "l \<in> {Run t 0 | t. True}" "pc_step l s = Some t"
  moreover from this have "exited s = None \<Longrightarrow> 0 \<le> avail s"
    by (simp add: pc_live_inv_def pc_inv_def counts_ok_def)
  ultimately show "pc_work t < pc_work s"
    by (cases "(l, s)" rule: pc_step.cases)
      (auto simp: pc_live_inv_def split: if_splits intro: pc_work_consumer pc_work_producer)
next
  fix s
  assume "pc_live_inv argv s" "\<not> exited s \<noteq> None"
  then show "can_act {Run t 0 | t. True} pc_step s"
    using pc_not_stuck [of argv s] unfolding pc_live_inv_def can_act_def by blast
qed



text \<open>
  Without a unit to produce the consumer waits forever: the loop on \<open>avail\<close> is entered before the test of \<open>done\<close>.
\<close>

lemma prod_condvar_empty_hangs:
  "\<exists>s. run pc_step (pc_init []) s \<and> exited s = None \<and> (\<forall>t e. pc_step (Run t e) s = None)"
proof -
  let ?s = "(pc_init [])\<lparr>m_pc := M_Wait\<rparr>"
  have "exec pc_step [Run Main 0, Run Main 0, Run Main 0] (pc_init []) = Some ?s"
    by (simp add: pc_init_def consumer_step_def)
  moreover have "pc_step (Run t e) ?s = None" for t e
    by (cases t) (simp_all add: consumer_step_def pc_init_def)
  ultimately show ?thesis
    using exec_run by (metis (no_types, lifting) pc_init_def prodcons.select_convs(8) prodcons.update_convs(4))
qed

end
