(* ===== verification/Multijoin.thy ===== *)
theory Multijoin
  imports Threads Get_Num
begin

text \<open>
  The program \<open>threads/thread_multijoin.c\<close>: one thread for every argument, and a main thread that waits on a condition
  variable until threads terminate and then joins with each of them.  The time that the threads sleep and
  the printed lines are not modelled, apart from which threads were reported as reaped.
\<close>

subsection \<open>The program\<close>

datatype tstate = TS_ALIVE | TS_TERMINATED | TS_JOINED

datatype thread_pc = T_Sleep | T_Lock | T_Mark | T_Unlock | T_Signal | T_Exit

record jthread =
  t_pc :: thread_pc
  t_state :: tstate
  sleepTime :: int

datatype join_pc =
  J_Start "string list" | J_Create "string list" | J_While | J_Lock | J_Test | J_Wait | J_Woken
| J_Scan nat | J_Join nat | J_Unlock

record multijoin =
  threadMutex :: "tid option"
  totThreads :: nat
  numLive :: int
  numUnjoined :: int
  threads :: "jthread list"
  j_pc :: join_pc
  reaped :: "nat list"
  j_exit :: "int option"

definition mj_init :: "string list \<Rightarrow> multijoin" where
  "mj_init argv =
     \<lparr>threadMutex = None, totThreads = 0, numLive = 0, numUnjoined = 0, threads = [], j_pc = J_Start argv,
      reaped = [], j_exit = None\<rparr>"

definition fails :: "multijoin \<Rightarrow> multijoin" where
  "fails s = s\<lparr>j_exit := Some 1\<rparr>"

definition threadFunc_step :: "nat \<Rightarrow> int \<Rightarrow> multijoin \<Rightarrow> multijoin option" where
  "threadFunc_step idx e s =
     (let t = threads s ! idx;
          goto = (\<lambda>pc s. s\<lparr>threads := (threads s)[idx := t\<lparr>t_pc := pc\<rparr>]\<rparr>)
      in case t_pc t of
        T_Sleep \<Rightarrow> Some (goto T_Lock s)
      | T_Lock \<Rightarrow>
          if e \<noteq> 0 then Some (fails s)
          else if threadMutex s = None then Some (goto T_Mark (s\<lparr>threadMutex := Some (Worker idx)\<rparr>)) else None
      | T_Mark \<Rightarrow>
          Some (s\<lparr>numUnjoined := numUnjoined s + 1,
                  threads := (threads s)[idx := t\<lparr>t_pc := T_Unlock, t_state := TS_TERMINATED\<rparr>]\<rparr>)
      | T_Unlock \<Rightarrow> Some (if e \<noteq> 0 then fails s else goto T_Signal (s\<lparr>threadMutex := None\<rparr>))
      | T_Signal \<Rightarrow>
          Some (if e \<noteq> 0 then fails s
                else goto T_Exit (s\<lparr>j_pc := (if j_pc s = J_Wait then J_Woken else j_pc s)\<rparr>))
      | T_Exit \<Rightarrow> None)"

text \<open>A join blocks until the thread has returned.\<close>

definition join_step :: "int \<Rightarrow> multijoin \<Rightarrow> multijoin option" where
  "join_step e s =
     (case j_pc s of
        J_Start argv \<Rightarrow>
          Some (if argv = [] \<or> hd argv = ''--help'' \<or> e \<noteq> 0 then fails s else s\<lparr>j_pc := J_Create argv\<rparr>)
      | J_Create [] \<Rightarrow>
          Some (s\<lparr>totThreads := length (threads s), numLive := int (length (threads s)), j_pc := J_While\<rparr>)
      | J_Create (a # as) \<Rightarrow>
          Some (case getInt (Some a) GN_NONNEG None of
                  Inl _ \<Rightarrow> fails s
                | Inr v \<Rightarrow>
                    if e \<noteq> 0 then fails s
                    else s\<lparr>threads := threads s @ [\<lparr>t_pc = T_Sleep, t_state = TS_ALIVE, sleepTime = v\<rparr>],
                           j_pc := J_Create as\<rparr>)
      | J_While \<Rightarrow> Some (if numLive s > 0 then s\<lparr>j_pc := J_Lock\<rparr> else s\<lparr>j_exit := Some 0\<rparr>)
      | J_Lock \<Rightarrow>
          if e \<noteq> 0 then Some (fails s)
          else if threadMutex s = None then Some (s\<lparr>threadMutex := Some Main, j_pc := J_Test\<rparr>) else None
      | J_Test \<Rightarrow>
          Some (if numUnjoined s = 0 then if e \<noteq> 0 then fails s else s\<lparr>threadMutex := None, j_pc := J_Wait\<rparr>
                else s\<lparr>j_pc := J_Scan 0\<rparr>)
      | J_Wait \<Rightarrow> None
      | J_Woken \<Rightarrow> if threadMutex s = None then Some (s\<lparr>threadMutex := Some Main, j_pc := J_Test\<rparr>) else None
      | J_Scan idx \<Rightarrow>
          Some (s\<lparr>j_pc := (if idx < totThreads s
                           then if t_state (threads s ! idx) = TS_TERMINATED then J_Join idx else J_Scan (idx + 1)
                           else J_Unlock)\<rparr>)
      | J_Join idx \<Rightarrow>
          if e \<noteq> 0 then Some (fails s)
          else if t_pc (threads s ! idx) = T_Exit
          then Some (s\<lparr>threads := (threads s)[idx := (threads s ! idx)\<lparr>t_state := TS_JOINED\<rparr>],
                       numLive := numLive s - 1, numUnjoined := numUnjoined s - 1,
                       reaped := reaped s @ [idx], j_pc := J_Scan (idx + 1)\<rparr>)
          else None
      | J_Unlock \<Rightarrow> Some (if e \<noteq> 0 then fails s else s\<lparr>threadMutex := None, j_pc := J_While\<rparr>))"

fun mj_step :: "label \<Rightarrow> multijoin \<Rightarrow> multijoin option" where
  "mj_step (Run Main e) s = (if j_exit s = None then join_step e s else None)"
| "mj_step (Run (Worker i) e) s = (if j_exit s = None \<and> i < length (threads s) then threadFunc_step i e s else None)"
| "mj_step Spurious s = (if j_exit s = None \<and> j_pc s = J_Wait then Some (s\<lparr>j_pc := J_Woken\<rparr>) else None)"

subsection \<open>The invariant\<close>

definition t_holds :: "jthread \<Rightarrow> bool" where
  "t_holds t \<longleftrightarrow> t_pc t = T_Mark \<or> t_pc t = T_Unlock"

definition j_holds :: "join_pc \<Rightarrow> bool" where
  "j_holds pc \<longleftrightarrow> (case pc of J_Test \<Rightarrow> True | J_Scan _ \<Rightarrow> True | J_Join _ \<Rightarrow> True | J_Unlock \<Rightarrow> True | _ \<Rightarrow> False)"

definition thread_ok :: "jthread \<Rightarrow> bool" where
  "thread_ok t \<longleftrightarrow> (t_state t = TS_ALIVE \<longleftrightarrow> t_pc t = T_Sleep \<or> t_pc t = T_Lock \<or> t_pc t = T_Mark) \<and>
     (t_state t = TS_JOINED \<longrightarrow> t_pc t = T_Exit)"

definition is_in :: "tstate \<Rightarrow> jthread \<Rightarrow> int" where
  "is_in st t = (if t_state t = st then 1 else 0)"

fun args_left :: "join_pc \<Rightarrow> string list" where
  "args_left (J_Start as) = as"
| "args_left (J_Create as) = as"
| "args_left _ = []"

definition creating :: "join_pc \<Rightarrow> bool" where
  "creating pc \<longleftrightarrow> (case pc of J_Start _ \<Rightarrow> True | J_Create _ \<Rightarrow> True | _ \<Rightarrow> False)"

text \<open>What the main thread knows about the threads at each point.\<close>

fun scanned :: "join_pc \<Rightarrow> jthread list \<Rightarrow> bool" where
  "scanned (J_Scan idx) ts \<longleftrightarrow> (\<forall>k < length ts. k < idx \<longrightarrow> t_state (ts ! k) \<noteq> TS_TERMINATED)"
| "scanned (J_Join idx) ts \<longleftrightarrow> (\<forall>k < length ts. k < idx \<longrightarrow> t_state (ts ! k) \<noteq> TS_TERMINATED) \<and>
     idx < length ts \<and> t_state (ts ! idx) = TS_TERMINATED"
| "scanned J_Unlock ts \<longleftrightarrow> (\<forall>t \<in> set ts. t_state t \<noteq> TS_TERMINATED)"
| "scanned _ ts \<longleftrightarrow> True"

definition live_ok :: "multijoin \<Rightarrow> bool" where
  "live_ok s \<longleftrightarrow>
     (if creating (j_pc s) then \<forall>t \<in> set (threads s). t_state t \<noteq> TS_JOINED
      else totThreads s = length (threads s) \<and>
        numLive s = int (length (threads s)) - sum_list (map (is_in TS_JOINED) (threads s)))"

definition threads_ok :: "string list \<Rightarrow> multijoin \<Rightarrow> bool" where
  "threads_ok argv s \<longleftrightarrow>
     (\<forall>t \<in> set (threads s). thread_ok t) \<and>
     length (threads s) + length (args_left (j_pc s)) = length argv \<and>
     numUnjoined s = sum_list (map (is_in TS_TERMINATED) (threads s)) \<and>
     distinct (reaped s) \<and> set (reaped s) = {i. i < length (threads s) \<and> t_state (threads s ! i) = TS_JOINED}"

definition mutex_ok :: "multijoin \<Rightarrow> bool" where
  "mutex_ok s \<longleftrightarrow> owner_inv (threadMutex s) (j_holds (j_pc s)) (map t_holds (threads s))"

definition died_ok :: "multijoin \<Rightarrow> bool" where
  "died_ok s \<longleftrightarrow> (j_pc s = J_Wait \<and> numUnjoined s > 0 \<longrightarrow>
     (\<exists>t \<in> set (threads s). t_pc t = T_Unlock \<or> t_pc t = T_Signal)) \<and>
     (j_pc s \<in> {J_Lock, J_Test, J_Wait, J_Woken} \<longrightarrow> numLive s > 0)"

definition mj_inv :: "string list \<Rightarrow> multijoin \<Rightarrow> bool" where
  "mj_inv argv s \<longleftrightarrow>
     (case j_exit s of
        None \<Rightarrow> threads_ok argv s \<and> live_ok s \<and> mutex_ok s \<and> died_ok s \<and> scanned (j_pc s) (threads s)
      | Some c \<Rightarrow> c = 1 \<or> c = 0 \<and> threads_ok argv s \<and> live_ok s \<and> j_pc s = J_While \<and> numLive s \<le> 0)"

subsection \<open>Steps of a thread\<close>

lemma threadFunc_step_cases:
  assumes "threadFunc_step i e s = Some u" "j_exit s = None" "j_exit u = None"
  obtains (sleep) q where "t_pc (threads s ! i) = T_Sleep" "q = (threads s ! i)\<lparr>t_pc := T_Lock\<rparr>"
      "u = s\<lparr>threads := (threads s)[i := q]\<rparr>"
  | (lock) q where "t_pc (threads s ! i) = T_Lock" "threadMutex s = None" "q = (threads s ! i)\<lparr>t_pc := T_Mark\<rparr>"
      "u = s\<lparr>threadMutex := Some (Worker i), threads := (threads s)[i := q]\<rparr>"
  | (mark) q where "t_pc (threads s ! i) = T_Mark" "q = (threads s ! i)\<lparr>t_pc := T_Unlock, t_state := TS_TERMINATED\<rparr>"
      "u = s\<lparr>numUnjoined := numUnjoined s + 1, threads := (threads s)[i := q]\<rparr>"
  | (unlock) q where "t_pc (threads s ! i) = T_Unlock" "q = (threads s ! i)\<lparr>t_pc := T_Signal\<rparr>"
      "u = s\<lparr>threadMutex := None, threads := (threads s)[i := q]\<rparr>"
  | (signal) q where "t_pc (threads s ! i) = T_Signal" "q = (threads s ! i)\<lparr>t_pc := T_Exit\<rparr>"
      "u = s\<lparr>j_pc := (if j_pc s = J_Wait then J_Woken else j_pc s), threads := (threads s)[i := q]\<rparr>"
proof (cases "t_pc (threads s ! i)")
  case T_Sleep
  with assms that(1) show thesis
    by (simp add: threadFunc_step_def Let_def)
next
  case T_Lock
  with assms that(2) show thesis
    by (auto simp: threadFunc_step_def Let_def fails_def split: if_splits)
next
  case T_Mark
  with assms that(3) show thesis
    by (simp add: threadFunc_step_def Let_def)
next
  case T_Unlock
  with assms that(4) show thesis
    by (auto simp: threadFunc_step_def Let_def fails_def split: if_splits)
next
  case T_Signal
  with assms that(5) show thesis
    by (cases "e = 0") (auto simp: threadFunc_step_def Let_def fails_def)
next
  case T_Exit
  with assms show thesis
    by (simp add: threadFunc_step_def Let_def)
qed

definition thread_work :: "jthread \<Rightarrow> nat" where
  "thread_work t =
     (case t_pc t of T_Sleep \<Rightarrow> 6 | T_Lock \<Rightarrow> 5 | T_Mark \<Rightarrow> 4 | T_Unlock \<Rightarrow> 3 | T_Signal \<Rightarrow> 2
      | T_Exit \<Rightarrow> if t_state t = TS_JOINED then 0 else 1)"

text \<open>Everything the proofs need to know of a step of a thread.\<close>

definition moves :: "nat \<Rightarrow> multijoin \<Rightarrow> multijoin \<Rightarrow> jthread \<Rightarrow> bool" where
  "moves i s u q \<longleftrightarrow> (let t = threads s ! i in
     threads u = (threads s)[i := q] \<and> thread_ok q \<and> thread_work q < thread_work t \<and>
     (t_state q = TS_JOINED \<longleftrightarrow> t_state t = TS_JOINED) \<and>
     (t_state q \<noteq> t_state t \<longrightarrow> t_pc t = T_Mark) \<and>
     numUnjoined u - numUnjoined s = is_in TS_TERMINATED q - is_in TS_TERMINATED t \<and>
     numLive u = numLive s \<and> totThreads u = totThreads s \<and> reaped u = reaped s \<and>
     (j_pc u = j_pc s \<or> j_pc s = J_Wait \<and> j_pc u = J_Woken) \<and>
     threadMutex u = (if t_holds q then Some (Worker i) else if t_holds t then None else threadMutex s) \<and>
     (t_holds q \<longrightarrow> t_holds t \<or> threadMutex s = None) \<and>
     (t_pc t = T_Unlock \<or> t_pc t = T_Signal \<longrightarrow> t_pc q = T_Signal \<or> j_pc u \<noteq> J_Wait) \<and>
     (numUnjoined u = numUnjoined s \<or> t_pc q = T_Unlock))"

lemma movesD:
  assumes "moves i s u q"
  shows "threads u = (threads s)[i := q]" "thread_ok q" "thread_work q < thread_work (threads s ! i)"
    "t_state q = TS_JOINED \<longleftrightarrow> t_state (threads s ! i) = TS_JOINED"
    "t_state q \<noteq> t_state (threads s ! i) \<Longrightarrow> t_pc (threads s ! i) = T_Mark"
    "numUnjoined u - numUnjoined s = is_in TS_TERMINATED q - is_in TS_TERMINATED (threads s ! i)"
    "numLive u = numLive s" "totThreads u = totThreads s" "reaped u = reaped s"
    "j_pc u = j_pc s \<or> j_pc s = J_Wait \<and> j_pc u = J_Woken"
    "threadMutex u = (if t_holds q then Some (Worker i) else if t_holds (threads s ! i) then None else threadMutex s)"
    "t_holds q \<Longrightarrow> \<not> t_holds (threads s ! i) \<Longrightarrow> threadMutex s = None"
    "t_pc (threads s ! i) = T_Unlock \<or> t_pc (threads s ! i) = T_Signal \<Longrightarrow> t_pc q = T_Signal \<or> j_pc u \<noteq> J_Wait"
    "numUnjoined u = numUnjoined s \<or> t_pc q = T_Unlock"
  using assms unfolding moves_def Let_def by blast+

lemma threadFunc_moves:
  assumes st: "threadFunc_step i e s = Some u" "j_exit s = None" "j_exit u = None"
    and i: "i < length (threads s)" and ok: "thread_ok (threads s ! i)" "mutex_ok s"
  shows "\<exists>q. moves i s u q"
proof -
  have held: "t_holds (threads s ! i) \<Longrightarrow> threadMutex s = Some (Worker i)"
    using owner_invD [OF ok(2) [unfolded mutex_ok_def], of i] i by simp
  from st show ?thesis
  proof (cases rule: threadFunc_step_cases)
    case (sleep q)
    then show ?thesis
      using ok(1) by (intro exI [of _ q]) (auto simp: moves_def thread_ok_def thread_work_def is_in_def t_holds_def)
  next
    case (lock q)
    then show ?thesis
      using ok(1) by (intro exI [of _ q]) (auto simp: moves_def thread_ok_def thread_work_def is_in_def t_holds_def)
  next
    case (mark q)
    then show ?thesis
      using ok(1) held by (intro exI [of _ q]) (auto simp: moves_def thread_ok_def thread_work_def is_in_def t_holds_def)
  next
    case (unlock q)
    then show ?thesis
      using ok(1) by (intro exI [of _ q]) (auto simp: moves_def thread_ok_def thread_work_def is_in_def t_holds_def)
  next
    case (signal q)
    then show ?thesis
      using ok(1) by (intro exI [of _ q]) (auto simp: moves_def thread_ok_def thread_work_def is_in_def t_holds_def)
  qed
qed

lemma moves_pc:
  assumes "moves i s u q"
  shows "j_holds (j_pc u) = j_holds (j_pc s)" "args_left (j_pc u) = args_left (j_pc s)"
    "creating (j_pc u) = creating (j_pc s)"
  using movesD(10) [OF assms] by (auto simp: j_holds_def creating_def)

lemma moves_mutex:
  assumes m: "moves i s u q" and ok: "mutex_ok s" and i: "i < length (threads s)"
  shows "mutex_ok u"
proof -
  have "owner_inv (threadMutex u) (j_holds (j_pc s)) ((map t_holds (threads s))[i := t_holds q])"
    by (rule owner_inv_update [OF ok [unfolded mutex_ok_def]]) (use i movesD(11,12) [OF m] in simp_all)
  then show ?thesis
    by (simp add: mutex_ok_def movesD(1) [OF m] moves_pc [OF m] map_update)
qed

lemma joined_update:
  assumes "i < length ts" "(t_state q = st) = (t_state (ts ! i) = st)"
  shows "{k. k < length (ts[i := q]) \<and> t_state (ts[i := q] ! k) = st} = {k. k < length ts \<and> t_state (ts ! k) = st}"
  using assms by (auto simp: nth_list_update)

lemma moves_threads:
  assumes m: "moves i s u q" and ok: "threads_ok argv s" and i: "i < length (threads s)"
  shows "threads_ok argv u"
proof -
  have "{k. k < length (threads u) \<and> t_state (threads u ! k) = TS_JOINED} =
      {k. k < length (threads s) \<and> t_state (threads s ! k) = TS_JOINED}"
    unfolding movesD(1) [OF m] by (rule joined_update [OF i movesD(4) [OF m]])
  moreover have "\<forall>t \<in> set (threads u). thread_ok t"
    unfolding movesD(1) [OF m] by (rule all_list_update) (use ok movesD(2) [OF m] in \<open>simp_all add: threads_ok_def\<close>)
  moreover have "sum_list (map (is_in TS_TERMINATED) (threads u)) = numUnjoined u"
    unfolding movesD(1) [OF m] sum_list_update_int [OF i] using ok movesD(6) [OF m] by (simp add: threads_ok_def)
  ultimately show ?thesis
    using ok by (simp add: threads_ok_def movesD(9) [OF m] moves_pc [OF m]) (simp add: movesD(1) [OF m])
qed

lemma moves_live:
  assumes m: "moves i s u q" and ok: "live_ok s" and i: "i < length (threads s)"
  shows "live_ok u"
proof -
  have "is_in TS_JOINED q = is_in TS_JOINED (threads s ! i)"
    using movesD(4) [OF m] by (simp add: is_in_def)
  then have "map (is_in TS_JOINED) (threads u) = map (is_in TS_JOINED) (threads s)"
    unfolding movesD(1) [OF m] using i by (intro map_list_update_same)
  moreover have "\<forall>t \<in> set (threads u). t_state t \<noteq> TS_JOINED" if "\<forall>t \<in> set (threads s). t_state t \<noteq> TS_JOINED"
    unfolding movesD(1) [OF m] by (rule all_list_update) (use that i movesD(4) [OF m] in simp_all)
  moreover have "length (threads u) = length (threads s)"
    by (simp add: movesD(1) [OF m])
  ultimately show ?thesis
    using ok unfolding live_ok_def moves_pc [OF m] movesD(7,8) [OF m] by presburger
qed

lemma moves_died:
  assumes m: "moves i s u q" and ok: "died_ok s" and i: "i < length (threads s)"
  shows "died_ok u"
proof -
  note d = movesD [OF m]
  have "\<exists>t \<in> set (threads u). t_pc t = T_Unlock \<or> t_pc t = T_Signal" if w: "j_pc u = J_Wait" "numUnjoined u > 0"
  proof (cases "t_pc q = T_Unlock \<or> t_pc q = T_Signal")
    case True
    then show ?thesis
      using i d(1) by (metis set_update_memI)
  next
    case False
    then obtain t where t: "t \<in> set (threads s)" "t_pc t = T_Unlock \<or> t_pc t = T_Signal"
      using ok w d(14) d(10) by (auto simp: died_ok_def)
    then obtain k where k: "k < length (threads s)" "threads s ! k = t"
      by (auto simp: in_set_conv_nth)
    have "k \<noteq> i"
      using k t(2) False d(13) w by auto
    then have "t \<in> set (threads u)"
      using k d(1) by (metis length_list_update nth_list_update_neq nth_mem)
    then show ?thesis
      using t(2) by blast
  qed
  then show ?thesis
    using ok d(7,10) by (auto simp: died_ok_def)
qed

text \<open>A thread changes its state only while it holds the mutex, when the main thread is not scanning.\<close>

lemma moves_scanned:
  assumes m: "moves i s u q" and ok: "scanned (j_pc s) (threads s)" "mutex_ok s" and i: "i < length (threads s)"
  shows "scanned (j_pc u) (threads u)"
proof (cases "j_holds (j_pc s)")
  case True
  then have "\<not> t_holds (threads s ! i)"
    using owner_invD [OF ok(2) [unfolded mutex_ok_def], of i] i by auto
  then have same: "t_state q = t_state (threads s ! i)"
    using movesD(5) [OF m] by (auto simp: t_holds_def)
  then have "t_state ((threads s)[i := q] ! k) = t_state (threads s ! k)" for k
    by (metis i nth_list_update)
  moreover have "(\<forall>t \<in> set ((threads s)[i := q]). t_state t \<noteq> TS_TERMINATED)"
    if "\<forall>t \<in> set (threads s). t_state t \<noteq> TS_TERMINATED"
    by (rule all_list_update) (use that i same in simp_all)
  moreover have "j_pc u = j_pc s"
    using movesD(10) [OF m] True by (auto simp: j_holds_def)
  ultimately show ?thesis
    using ok(1) movesD(1) [OF m] by (cases "(j_pc s, threads s)" rule: scanned.cases) simp_all
next
  case False
  then have "\<not> j_holds (j_pc u)"
    by (simp add: moves_pc [OF m])
  then show ?thesis
    by (cases "j_pc u") (simp_all add: j_holds_def)
qed

subsection \<open>Steps of the main thread\<close>

lemmas mj_inv_defs = mj_inv_def threads_ok_def live_ok_def mutex_ok_def died_ok_def

lemma mutex_main:
  assumes "mutex_ok s" "threads u = threads s @ ts" "\<forall>t \<in> set ts. \<not> t_holds t"
    and "threadMutex u = Some Main \<longleftrightarrow> j_holds (j_pc u)"
    and "\<And>k. threadMutex u = Some (Worker k) \<longleftrightarrow> threadMutex s = Some (Worker k)"
  shows "mutex_ok u"
  using owner_inv_main [OF assms(1) [unfolded mutex_ok_def] assms(4,5), of "map t_holds ts"] assms(2,3)
  by (force simp: mutex_ok_def)

lemma mutex_free: "mutex_ok s \<Longrightarrow> threadMutex s = Some Main \<longleftrightarrow> j_holds (j_pc s)"
  by (simp add: mutex_ok_def owner_inv_def)

lemma j_holds_simps [simp]: "\<not> j_holds (J_Start as)" "\<not> j_holds (J_Create as)" "\<not> j_holds J_While" "\<not> j_holds J_Lock"
  "j_holds J_Test" "\<not> j_holds J_Wait" "\<not> j_holds J_Woken" "j_holds (J_Scan n)" "j_holds (J_Join n)" "j_holds J_Unlock"
  by (simp_all add: j_holds_def)

lemma creating_simps [simp]: "creating (J_Start as)" "creating (J_Create as)" "\<not> creating J_While" "\<not> creating J_Lock"
  "\<not> creating J_Test" "\<not> creating J_Wait" "\<not> creating J_Woken" "\<not> creating (J_Scan n)" "\<not> creating (J_Join n)" "\<not> creating J_Unlock"
  by (simp_all add: creating_def)

lemma is_in_zero: "\<forall>t \<in> set ts. t_state t \<noteq> st \<Longrightarrow> sum_list (map (is_in st) ts) = 0"
  by (induction ts) (auto simp: is_in_def)

lemma is_in_nonneg: "0 \<le> sum_list (map (is_in st) ts)"
  by (rule sum_list_nonneg) (auto simp: is_in_def)

text \<open>Steps that leave the threads and the counts alone.\<close>

lemma mj_inv_goto:
  assumes inv: "mj_inv argv s" "j_exit s = None" "\<not> creating (j_pc s)"
    and u: "u = s\<lparr>threadMutex := m, j_pc := pc\<rparr>" "\<not> creating pc" "args_left pc = []"
    and m: "m = Some Main \<longleftrightarrow> j_holds pc" "\<And>k. m = Some (Worker k) \<longleftrightarrow> threadMutex s = Some (Worker k)"
    and sc: "scanned pc (threads s)" and wait: "pc = J_Wait \<Longrightarrow> numUnjoined s = 0"
    and live: "pc \<in> {J_Lock, J_Test, J_Wait, J_Woken} \<Longrightarrow> numLive s > 0"
  shows "mj_inv argv u"
proof -
  have ok: "threads_ok argv s" "live_ok s" "mutex_ok s" "died_ok s"
    using inv by (simp_all add: mj_inv_def)
  have "args_left (j_pc s) = []"
    using inv(3) by (cases "j_pc s") auto
  then have "threads_ok argv u" "live_ok u"
    using ok u inv(3) by (simp_all add: threads_ok_def live_ok_def)
  moreover have "mutex_ok u"
    by (rule mutex_main [OF ok(3), of u "[]"]) (use u m in simp_all)
  moreover have "died_ok u"
    using wait live u by (auto simp: died_ok_def)
  ultimately show ?thesis
    using u sc inv by (simp add: mj_inv_def)
qed

lemma mj_inv_fails: "mj_inv argv (fails s)"
  by (simp add: mj_inv_def fails_def)

lemma mj_inv_create:
  assumes inv: "mj_inv argv s" "j_exit s = None" and pc: "j_pc s = J_Create as" and st: "join_step e s = Some u"
  shows "mj_inv argv u"
proof (cases as)
  case Nil
  then have u: "u = s\<lparr>totThreads := length (threads s), numLive := int (length (threads s)), j_pc := J_While\<rparr>"
    using st pc by (simp add: join_step_def)
  have "mutex_ok u"
    by (rule mutex_main [of s u "[]"]) (use inv pc u mutex_free [of s] in \<open>simp_all add: mj_inv_def\<close>)
  then show ?thesis
    using inv pc Nil u is_in_zero [of "threads s" TS_JOINED]
    by (simp add: mj_inv_def threads_ok_def live_ok_def died_ok_def)
next
  case (Cons a as')
  show ?thesis
  proof (cases "u = fails s")
    case False
    obtain v where v: "u = s\<lparr>threads := threads s @ [\<lparr>t_pc = T_Sleep, t_state = TS_ALIVE, sleepTime = v\<rparr>], j_pc := J_Create as'\<rparr>"
      using st pc Cons False by (auto simp: join_step_def split: sum.splits if_splits)
    have "mutex_ok u"
      by (rule mutex_main [of s u "[\<lparr>t_pc = T_Sleep, t_state = TS_ALIVE, sleepTime = v\<rparr>]"])
        (use inv pc v mutex_free [of s] in \<open>simp_all add: mj_inv_def t_holds_def\<close>)
    moreover have "{i. i < length (threads u) \<and> t_state (threads u ! i) = TS_JOINED} =
        {i. i < length (threads s) \<and> t_state (threads s ! i) = TS_JOINED}"
      unfolding v by (auto simp: nth_append less_Suc_eq)
    ultimately show ?thesis
      using inv pc Cons v
      by (simp add: mj_inv_def threads_ok_def live_ok_def died_ok_def thread_ok_def is_in_def)
  qed (simp add: mj_inv_fails)
qed

lemma mj_inv_join:
  assumes inv: "mj_inv argv s" "j_exit s = None" and pc: "j_pc s = J_Join i" and st: "join_step e s = Some u"
  shows "mj_inv argv u"
proof (cases "u = fails s")
  case False
  define q where "q = (threads s ! i)\<lparr>t_state := TS_JOINED\<rparr>"
  have u: "u = s\<lparr>threads := (threads s)[i := q], numLive := numLive s - 1, numUnjoined := numUnjoined s - 1,
      reaped := reaped s @ [i], j_pc := J_Scan (i + 1)\<rparr>" and exit: "t_pc (threads s ! i) = T_Exit"
    using st pc False by (auto simp: join_step_def q_def split: if_splits)
  have ok: "threads_ok argv s" "live_ok s" "mutex_ok s" "scanned (j_pc s) (threads s)"
    using inv by (simp_all add: mj_inv_def)
  then have i: "i < length (threads s)" and state: "t_state (threads s ! i) = TS_TERMINATED"
    and before: "\<forall>k < length (threads s). k < i \<longrightarrow> t_state (threads s ! k) \<noteq> TS_TERMINATED"
    using pc by simp_all
  have "\<forall>t \<in> set (threads u). thread_ok t"
    unfolding u multijoin.simps by (simp, rule all_list_update) (use ok(1) exit in \<open>simp_all add: threads_ok_def thread_ok_def q_def\<close>)
  moreover have "set (reaped u) = {k. k < length (threads u) \<and> t_state (threads u ! k) = TS_JOINED}"
    using ok(1) i by (auto simp: u threads_ok_def q_def nth_list_update)
  moreover have "i \<notin> set (reaped s)"
    using ok(1) state by (simp add: threads_ok_def)
  ultimately have "threads_ok argv u"
    using ok(1) pc state sum_list_update_int [OF i, of "is_in TS_TERMINATED" q]
    by (simp add: threads_ok_def u is_in_def q_def)
  moreover have "live_ok u"
    using ok(2) pc state sum_list_update_int [OF i, of "is_in TS_JOINED" q]
    by (simp add: live_ok_def u is_in_def q_def)
  moreover have "mutex_ok u"
  proof -
    have "map t_holds (threads u) = map t_holds (threads s)"
      using map_list_update_same [OF i, of t_holds q] by (simp add: u q_def t_holds_def)
    then show ?thesis
      using ok(3) pc by (simp add: mutex_ok_def u)
  qed
  moreover have "scanned (J_Scan (i + 1)) ((threads s)[i := q])"
    using before by (auto simp: nth_list_update q_def less_Suc_eq)
  ultimately show ?thesis
    using inv by (simp add: mj_inv_def u died_ok_def)
qed (simp add: mj_inv_fails)

lemma mj_inv_main:
  assumes inv: "mj_inv argv s" "j_exit s = None" and st: "join_step e s = Some u"
  shows "mj_inv argv u"
proof (cases "u = fails s")
  case False
  have ok: "live_ok s" "mutex_ok s" "died_ok s" "scanned (j_pc s) (threads s)" "threads_ok argv s"
    using inv by (simp_all add: mj_inv_def)
  note free = mutex_free [OF ok(2)] and goto = mj_inv_goto [OF inv]
  show ?thesis
  proof (cases "j_pc s")
    case (J_Start as)
    then have u: "u = s\<lparr>j_pc := J_Create as\<rparr>"
      using st False by (auto simp: join_step_def split: if_splits)
    have "mutex_ok u"
      by (rule mutex_main [OF ok(2), of u "[]"]) (use J_Start u free in simp_all)
    then show ?thesis
      using inv J_Start u by (simp add: mj_inv_def threads_ok_def live_ok_def died_ok_def)
  next
    case (J_Create as)
    then show ?thesis
      using mj_inv_create [OF inv] st by blast
  next
    case J_While
    show ?thesis
    proof (cases "numLive s > 0")
      case True
      then show ?thesis
        using goto [of u J_Lock "threadMutex s"] st J_While free by (simp add: join_step_def)
    next
      case False
      then show ?thesis
        using st J_While ok by (auto simp: join_step_def mj_inv_def threads_ok_def live_ok_def)
    qed
  next
    case J_Lock
    then show ?thesis
      using goto [of u J_Test "Some Main"] st False ok(3) by (auto simp: join_step_def died_ok_def split: if_splits)
  next
    case J_Test
    then show ?thesis
      using goto [of u J_Wait None] goto [of u "J_Scan 0" "threadMutex s"] st False ok(3) free
      by (cases "numUnjoined s = 0") (auto simp: join_step_def died_ok_def split: if_splits)
  next
    case J_Wait
    then show ?thesis
      using st by (simp add: join_step_def)
  next
    case J_Woken
    then show ?thesis
      using goto [of u J_Test "Some Main"] st ok(3) by (auto simp: join_step_def died_ok_def split: if_splits)
  next
    case (J_Scan i)
    have tot: "totThreads s = length (threads s)"
      using ok(1) J_Scan by (simp add: live_ok_def)
    have pre: "\<forall>k < length (threads s). k < i \<longrightarrow> t_state (threads s ! k) \<noteq> TS_TERMINATED"
      using ok(4) J_Scan by simp
    consider "i < length (threads s)" "t_state (threads s ! i) = TS_TERMINATED"
      | "i < length (threads s)" "t_state (threads s ! i) \<noteq> TS_TERMINATED" | "length (threads s) \<le> i"
      by linarith
    then show ?thesis
    proof cases
      case 1
      then show ?thesis
        using goto [of u "J_Join i" "threadMutex s"] st J_Scan tot pre free by (simp add: join_step_def)
    next
      case 2
      then show ?thesis
        using goto [of u "J_Scan (i + 1)" "threadMutex s"] st J_Scan tot pre free by (simp add: join_step_def less_Suc_eq)
    next
      case 3
      then have "\<forall>t \<in> set (threads s). t_state t \<noteq> TS_TERMINATED"
        using pre by (auto simp: in_set_conv_nth)
      then show ?thesis
        using goto [of u J_Unlock "threadMutex s"] st J_Scan tot 3 free by (simp add: join_step_def)
    qed
  next
    case (J_Join i)
    then show ?thesis
      using mj_inv_join [OF inv] st by blast
  next
    case J_Unlock
    then show ?thesis
      using goto [of u J_While None] st False free by (auto simp: join_step_def split: if_splits)
  qed
qed (simp add: mj_inv_fails)

lemma threadFunc_exit: "threadFunc_step i e s = Some u \<Longrightarrow> j_exit s = None \<Longrightarrow> j_exit u = Some c \<Longrightarrow> c = 1"
  by (cases "t_pc (threads s ! i)") (auto simp: threadFunc_step_def Let_def fails_def split: if_splits)

lemma mj_inv_thread:
  assumes inv: "mj_inv argv s" "j_exit s = None" and st: "threadFunc_step i e s = Some u" and i: "i < length (threads s)"
  shows "mj_inv argv u"
proof (cases "j_exit u")
  case None
  have ok: "threads_ok argv s" "live_ok s" "mutex_ok s" "died_ok s" "scanned (j_pc s) (threads s)"
    using inv by (simp_all add: mj_inv_def)
  then have "thread_ok (threads s ! i)"
    using i by (simp add: threads_ok_def)
  then obtain q where m: "moves i s u q"
    using threadFunc_moves [OF st inv(2) None i _ ok(3)] by blast
  show ?thesis
    using None moves_threads [OF m ok(1) i] moves_live [OF m ok(2) i] moves_mutex [OF m ok(3) i]
      moves_died [OF m ok(4) i] moves_scanned [OF m ok(5,3) i] by (simp add: mj_inv_def)
next
  case (Some c)
  then show ?thesis
    using threadFunc_exit [OF st inv(2)] by (simp add: mj_inv_def)
qed

lemma mj_inv_spurious:
  assumes inv: "mj_inv argv s" "j_exit s = None" "j_pc s = J_Wait"
  shows "mj_inv argv (s\<lparr>j_pc := J_Woken\<rparr>)"
  using mj_inv_goto [OF inv(1,2), of "s\<lparr>j_pc := J_Woken\<rparr>" J_Woken "threadMutex s"] inv mutex_free [of s]
  by (simp add: mj_inv_def died_ok_def)

lemma mj_init_inv: "mj_inv argv (mj_init argv)"
  by (simp add: mj_inv_def mj_init_def threads_ok_def live_ok_def mutex_ok_def died_ok_def owner_inv_def)

interpretation mj: thread_invariant mj_step "mj_inv argv" for argv
proof
  fix s u l
  assume "mj_inv argv s" "mj_step l s = Some u"
  then show "mj_inv argv u"
    by (cases "(l, s)" rule: mj_step.cases) (auto split: if_splits intro: mj_inv_main mj_inv_thread mj_inv_spurious)
qed

subsection \<open>The end of the program\<close>

lemma is_in_filter: "sum_list (map (is_in st) ts) = int (length (filter (\<lambda>t. t_state t = st) ts))"
  by (induction ts) (auto simp: is_in_def)

lemma reaped_length:
  assumes "threads_ok argv s"
  shows "length (reaped s) = length (filter (\<lambda>t. t_state t = TS_JOINED) (threads s))"
  using assms by (simp add: threads_ok_def length_filter_conv_card distinct_card [symmetric])

text \<open>
  C6: In every interleaving of \<open>thread_multijoin\<close> no thread is reaped twice, only threads that have returned are reaped,
  and the counts agree with the states of the threads once all are created; the program exits with
  success only when every thread, one for each argument, has been reaped.
\<close>

theorem multijoin_reaps:
  assumes "run mj_step (mj_init argv) s"
  shows "(j_exit s = None \<or> j_exit s = Some 0 \<longrightarrow>
       distinct (reaped s) \<and>
       (\<forall>i \<in> set (reaped s). i < length (threads s) \<and> t_pc (threads s ! i) = T_Exit \<and> t_state (threads s ! i) = TS_JOINED) \<and>
       numUnjoined s = int (length (filter (\<lambda>t. t_state t = TS_TERMINATED) (threads s))) \<and>
       (\<not> creating (j_pc s) \<longrightarrow> length (threads s) = length argv \<and> numLive s = int (length argv - length (reaped s)))) \<and>
     (j_exit s = Some 0 \<longrightarrow> set (reaped s) = {..<length argv})"
proof (intro conjI impI)
  have inv: "mj_inv argv s"
    using mj.inv_run [OF assms mj_init_inv] .
  {
    assume "j_exit s = None \<or> j_exit s = Some 0"
    then have ok: "threads_ok argv s" "live_ok s"
      using inv by (auto simp: mj_inv_def)
    show "distinct (reaped s)"
      and "numUnjoined s = int (length (filter (\<lambda>t. t_state t = TS_TERMINATED) (threads s)))"
      and "\<forall>i \<in> set (reaped s). i < length (threads s) \<and> t_pc (threads s ! i) = T_Exit \<and> t_state (threads s ! i) = TS_JOINED"
      using ok(1) by (auto simp: threads_ok_def is_in_filter thread_ok_def)
    assume late: "\<not> creating (j_pc s)"
    then have "args_left (j_pc s) = []"
      by (cases "j_pc s") auto
    then show len: "length (threads s) = length argv"
      using ok(1) by (simp add: threads_ok_def)
    show "numLive s = int (length argv - length (reaped s))"
      using ok(2) late len reaped_length [OF ok(1)] length_filter_le [of "\<lambda>t. t_state t = TS_JOINED" "threads s"]
      by (simp add: live_ok_def is_in_filter of_nat_diff)
  }
  {
    assume "j_exit s = Some 0"
    then have ok: "threads_ok argv s" "live_ok s" "j_pc s = J_While" "numLive s \<le> 0"
      using inv by (auto simp: mj_inv_def)
    have len: "length (threads s) = length argv"
      using ok(1,3) by (simp add: threads_ok_def)
    have "length (threads s) \<le> length (filter (\<lambda>t. t_state t = TS_JOINED) (threads s))"
      using ok(2-4) by (simp add: live_ok_def is_in_filter)
    then have "\<forall>t \<in> set (threads s). t_state t = TS_JOINED"
      using length_filter_less [of _ "threads s" "\<lambda>t. t_state t = TS_JOINED"] by fastforce
    then have joined: "t_state (threads s ! i) = TS_JOINED" if "i < length argv" for i
      using that len by simp
    have "set (reaped s) = {i. i < length (threads s) \<and> t_state (threads s ! i) = TS_JOINED}"
      using ok(1) unfolding threads_ok_def by blast
    then have "set (reaped s) = {i. i < length argv \<and> t_state (threads s ! i) = TS_JOINED}"
      by (simp only: len)
    then show "set (reaped s) = {..<length argv}"
      using joined by auto
  }
qed

subsection \<open>No deadlock, no endless run\<close>

definition join_rank :: "nat \<Rightarrow> join_pc \<Rightarrow> bool \<Rightarrow> nat" where
  "join_rank n pc unjoined =
     (case pc of
        J_Start _ \<Rightarrow> 2 | J_Create _ \<Rightarrow> 1
      | J_Scan i \<Rightarrow> 2 * (n - i) + 9 | J_Join i \<Rightarrow> 2 * (n - i) + 8 | J_Unlock \<Rightarrow> 8
      | J_Wait \<Rightarrow> 0
      | J_While \<Rightarrow> (if unjoined then 2 * n + 10 else 0) + 5 | J_Lock \<Rightarrow> (if unjoined then 2 * n + 10 else 0) + 4
      | J_Test \<Rightarrow> (if unjoined then 2 * n + 10 else 0) + 3 | J_Woken \<Rightarrow> (if unjoined then 2 * n + 10 else 0) + 6)"

text \<open>What the threads still have to do, those not yet created included.\<close>

definition pending :: "multijoin \<Rightarrow> nat" where
  "pending s = sum_list (map thread_work (threads s)) + 7 * length (args_left (j_pc s)) + (if creating (j_pc s) then 1 else 0)"

definition mj_work :: "nat \<Rightarrow> multijoin \<Rightarrow> nat" where
  "mj_work n s =
     (if j_exit s \<noteq> None then 0
      else 1 + (2 * n + 30) * pending s + join_rank n (j_pc s) (numUnjoined s > 0))"

lemma join_rank_le: "join_rank n pc b \<le> 2 * n + 20"
  by (cases pc) (auto simp: join_rank_def)

lemma mj_work_less:
  assumes "j_exit s = None" "pending u < pending s"
  shows "mj_work n u < mj_work n s"
proof -
  have "(2 * n + 30) * a + (2 * n + 30) \<le> (2 * n + 30) * b" if "a < b" for a b :: nat
    using mult_le_mono2 [of "Suc a" b "2 * n + 30"] that by simp
  from this [OF assms(2)] show ?thesis
    using assms(1) join_rank_le [of n "j_pc u" "numUnjoined u > 0"] by (auto simp: mj_work_def)
qed

lemma mj_work_thread:
  assumes inv: "mj_inv argv s" "j_exit s = None" and st: "threadFunc_step i e s = Some u" and i: "i < length (threads s)"
  shows "mj_work n u < mj_work n s"
proof (cases "j_exit u")
  case None
  have ok: "thread_ok (threads s ! i)" "mutex_ok s"
    using inv i by (simp_all add: mj_inv_def threads_ok_def)
  then obtain q where m: "moves i s u q"
    using threadFunc_moves [OF st inv(2) None i] by blast
  have "sum_list (map thread_work (threads u)) < sum_list (map thread_work (threads s))"
    unfolding movesD(1) [OF m] using sum_list_update_nat [OF i, of thread_work q] movesD(3) [OF m] by simp
  then show ?thesis
    using mj_work_less [OF inv(2)] moves_pc [OF m] by (simp add: pending_def)
next
  case (Some c)
  then show ?thesis
    using inv(2) by (simp add: mj_work_def)
qed

lemma mj_work_main:
  assumes inv: "mj_inv argv s" "j_exit s = None" and st: "join_step e s = Some u"
  shows "mj_work (length argv) u < mj_work (length argv) s"
proof (cases "u = fails s")
  case True
  then show ?thesis
    using inv(2) by (simp add: mj_work_def fails_def)
next
  case False
  have ok: "live_ok s" "scanned (j_pc s) (threads s)" "threads_ok argv s"
    using inv by (simp_all add: mj_inv_def)
  show ?thesis
  proof (cases "j_pc s")
    case (J_Start as)
    then show ?thesis
      using st False inv(2) by (auto simp: join_step_def mj_work_def pending_def join_rank_def split: if_splits)
  next
    case (J_Create as)
    show ?thesis
    proof (rule mj_work_less [OF inv(2)], cases as)
      case Nil
      then show "pending u < pending s"
        using st J_Create by (auto simp: join_step_def pending_def)
    next
      case (Cons a as')
      then show "pending u < pending s"
        using st J_Create False by (auto simp: join_step_def pending_def thread_work_def split: sum.splits if_splits)
    qed
  next
    case (J_Join i)
    then have i: "i < length (threads s)" "t_pc (threads s ! i) = T_Exit" "t_state (threads s ! i) = TS_TERMINATED"
      using ok(2) st False by (auto simp: join_step_def split: if_splits)
    have u: "threads u = (threads s)[i := (threads s ! i)\<lparr>t_state := TS_JOINED\<rparr>]" "j_pc u = J_Scan (i + 1)"
      using st J_Join False by (auto simp: join_step_def split: if_splits)
    have "sum_list (map thread_work (threads u)) < sum_list (map thread_work (threads s))"
      unfolding u using sum_list_update_nat [OF i(1), of thread_work "(threads s ! i)\<lparr>t_state := TS_JOINED\<rparr>"] i
      by (simp add: thread_work_def)
    then show ?thesis
      using mj_work_less [OF inv(2)] u(2) J_Join by (simp add: pending_def)
  next
    case J_Unlock
    then have "numUnjoined s = 0"
      using ok by (simp add: threads_ok_def is_in_zero)
    then show ?thesis
      using J_Unlock st False inv(2) by (auto simp: join_step_def mj_work_def pending_def join_rank_def split: if_splits)
  next
    case (J_Scan i)
    then have "totThreads s = length argv"
      using ok by (simp add: live_ok_def threads_ok_def)
    then show ?thesis
      using J_Scan st inv(2)
      by (cases "i < length argv"; cases "t_state (threads s ! i) = TS_TERMINATED")
        (auto simp: join_step_def mj_work_def pending_def join_rank_def)
  next
    case J_Test
    then have "0 \<le> numUnjoined s"
      using ok(3) is_in_nonneg [of TS_TERMINATED "threads s"] by (simp add: threads_ok_def)
    then show ?thesis
      using J_Test st False inv(2) by (auto simp: join_step_def mj_work_def pending_def join_rank_def split: if_splits)
  qed (use st False inv(2) in \<open>auto simp: join_step_def mj_work_def pending_def join_rank_def split: if_splits\<close>)
qed

lemma mutex_holder_acts:
  assumes ok: "mutex_ok s" and e: "j_exit s = None" and m: "threadMutex s \<noteq> None" "threadMutex s \<noteq> Some Main"
  shows "\<exists>t. mj_step (Run t 0) s \<noteq> None"
proof -
  obtain k where k: "threadMutex s = Some (Worker k)"
    using m by (metis not_None_eq tid.exhaust)
  then have "k < length (threads s)" "t_holds (threads s ! k)"
    using owner_inv_worker [of k "j_holds (j_pc s)" "map t_holds (threads s)"] ok by (auto simp: mutex_ok_def)
  then have "mj_step (Run (Worker k) 0) s \<noteq> None"
    using e by (auto simp: threadFunc_step_def Let_def t_holds_def)
  then show ?thesis
    by blast
qed

lemma thread_acts:
  assumes ok: "mutex_ok s" and e: "j_exit s = None" and m: "threadMutex s \<noteq> Some Main"
    and i: "i < length (threads s)" "t_pc (threads s ! i) \<noteq> T_Exit"
  shows "\<exists>t. mj_step (Run t 0) s \<noteq> None"
proof (cases "threadMutex s = None \<or> t_pc (threads s ! i) \<noteq> T_Lock")
  case True
  then have "mj_step (Run (Worker i) 0) s \<noteq> None"
    using e i by (cases "t_pc (threads s ! i)") (auto simp: threadFunc_step_def Let_def)
  then show ?thesis
    by blast
next
  case False
  then show ?thesis
    using mutex_holder_acts [OF ok e] m by blast
qed

lemma wait_some_left:
  assumes inv: "mj_inv argv s" "j_exit s = None" and w: "j_pc s = J_Wait"
  shows "\<exists>i < length (threads s). t_pc (threads s ! i) \<noteq> T_Exit"
proof (rule ccontr)
  assume "\<not> ?thesis"
  then have fin: "\<forall>t \<in> set (threads s). t_pc t = T_Exit"
    by (auto simp: in_set_conv_nth)
  have ok: "threads_ok argv s" "live_ok s" "died_ok s"
    using inv by (simp_all add: mj_inv_def)
  have un: "numUnjoined s \<le> 0" and live: "numLive s > 0"
    using ok(3) w fin by (auto simp: died_ok_def)
  have "filter (\<lambda>t. t_state t = TS_TERMINATED) (threads s) = []"
    using un ok(1) by (simp add: threads_ok_def is_in_filter)
  then have "\<forall>t \<in> set (threads s). t_state t = TS_JOINED"
    using ok(1) fin unfolding threads_ok_def thread_ok_def filter_empty_conv
    by (metis thread_pc.distinct(9,17,23) tstate.exhaust)
  then have "filter (\<lambda>t. t_state t = TS_JOINED) (threads s) = threads s"
    by simp
  then show False
    using ok(2) w live by (simp add: live_ok_def is_in_filter)
qed

lemma mj_not_stuck:
  assumes inv: "mj_inv argv s" and e: "j_exit s = None"
  shows "\<exists>t. mj_step (Run t 0) s \<noteq> None"
proof -
  have ok: "mutex_ok s" "scanned (j_pc s) (threads s)" "threads_ok argv s"
    using inv e by (simp_all add: mj_inv_def)
  note free = mutex_free [OF ok(1)]
  consider (wait) "j_pc s = J_Wait" | (blocked) "j_pc s = J_Lock \<or> j_pc s = J_Woken" "threadMutex s \<noteq> None"
    | (join) i where "j_pc s = J_Join i" "t_pc (threads s ! i) \<noteq> T_Exit" | (acts) "mj_step (Run Main 0) s \<noteq> None"
  proof -
    have "mj_step (Run Main 0) s = None \<Longrightarrow> j_pc s = J_Wait \<or> (j_pc s = J_Lock \<or> j_pc s = J_Woken) \<and> threadMutex s \<noteq> None \<or>
        (\<exists>i. j_pc s = J_Join i \<and> t_pc (threads s ! i) \<noteq> T_Exit)"
      using e by (cases "j_pc s") (auto simp: join_step_def split: list.splits if_splits)
    then show thesis
      using that by blast
  qed
  then show ?thesis
  proof cases
    case wait
    then show ?thesis
      using wait_some_left [OF inv e] thread_acts [OF ok(1) e] free by auto
  next
    case blocked
    then show ?thesis
      using mutex_holder_acts [OF ok(1) e] free by auto
  next
    case (join i)
    then have i: "i < length (threads s)" "t_state (threads s ! i) = TS_TERMINATED"
      using ok(2) by simp_all
    have "\<not> t_holds (threads s ! i)"
      using owner_invD [OF ok(1) [unfolded mutex_ok_def], of i] i join(1) by auto
    moreover have "thread_ok (threads s ! i)"
      using ok(3) i by (simp add: threads_ok_def)
    ultimately have "t_pc (threads s ! i) = T_Signal"
      using i join(2) by (cases "t_pc (threads s ! i)") (auto simp: thread_ok_def t_holds_def)
    then have "mj_step (Run (Worker i) 0) s \<noteq> None"
      using e i by (simp add: threadFunc_step_def Let_def)
    then show ?thesis
      by blast
  qed blast
qed

interpretation mj_live: thread_progress mj_step "mj_inv argv" "{Run t 0 | t. True}" "mj_work (length argv)"
  "\<lambda>s. j_exit s \<noteq> None" for argv
proof
  fix s u l
  assume "mj_inv argv s" "l \<in> {Run t 0 | t. True}" "mj_step l s = Some u"
  then show "mj_work (length argv) u < mj_work (length argv) s"
    by (cases "(l, s)" rule: mj_step.cases) (auto split: if_splits intro: mj_work_main mj_work_thread)
next
  fix s
  assume "mj_inv argv s" "\<not> j_exit s \<noteq> None"
  then show "can_act {Run t 0 | t. True} mj_step s"
    using mj_not_stuck [of argv s] unfolding can_act_def by blast
qed

text \<open>
  C40: \<open>thread_multijoin\<close> cannot deadlock, although the main thread joins while it holds the mutex that the threads need:
  when the library calls succeed, in every state it reaches before its end some thread can act.  Apart from spurious
  wakeups it cannot run forever, and it can always be run to its end.
\<close>

theorem multijoin_completes:
  assumes "run mj_step (mj_init argv) s"
  shows "(j_exit s = None \<longrightarrow> (\<exists>t. mj_step (Run t 0) s \<noteq> None)) \<and>
    wf {(u, s). run mj_step (mj_init argv) s \<and> (\<exists>w. mj_step (Run w 0) s = Some u)} \<and>
    (\<exists>u. run mj_step s u \<and> j_exit u \<noteq> None)"
proof -
  have inv: "mj_inv argv s" if "run mj_step (mj_init argv) s" for s
    using mj.inv_run [OF that mj_init_inv] .
  have "wf {(u, s). run mj_step (mj_init argv) s \<and> (\<exists>w. mj_step (Run w 0) s = Some u)}"
    by (rule wf_subset [OF mj_live.finite_runs [of argv]]) (use inv in auto)
  then show ?thesis
    using mj_not_stuck [OF inv [OF assms]] mj_live.finishes [OF inv [OF assms]] by simp
qed

theorem multijoin_completes_witness:
  "\<exists>u. run mj_step (mj_init [''1'']) u \<and> j_exit u \<noteq> None"
  using multijoin_completes [OF run_refl, of "[''1'']"] by blast

text \<open>A run with one thread.\<close>

definition demo_join :: "label list" where
  "demo_join =
     (let m = Run Main 0; w = Run (Worker 0) 0
      in [m, m, m, w, m, m, m, w, w, w, w, m, m, m, m, m, m, m])"

definition demo_joined :: multijoin where
  "demo_joined =
     \<lparr>threadMutex = None, totThreads = 1, numLive = 0, numUnjoined = 0,
      threads = [\<lparr>t_pc = T_Exit, t_state = TS_JOINED, sleepTime = 1\<rparr>], j_pc = J_While, reaped = [0], j_exit = Some 0\<rparr>"

lemma demo_join_run: "exec mj_step demo_join (mj_init [''1'']) = Some demo_joined"
  by code_simp

theorem multijoin_reaps_witness:
  "j_exit demo_joined = Some 0 \<and> distinct (reaped demo_joined) \<and> set (reaped demo_joined) = {..<1}"
  using multijoin_reaps [OF exec_run [OF demo_join_run]] by (auto simp: demo_joined_def)

end
