(* ===== verification/Thread_Incr.thy ===== *)
theory Thread_Incr
  imports Threads Get_Num
begin

text \<open>
  Two threads that increment a shared variable, with a mutex (\<open>threads/thread_incr_mutex.c\<close>) and without
  (\<open>threads/thread_incr.c\<close>), and the one-time initialisation of \<open>threads/one_time_init.c\<close>.
\<close>

subsection \<open>The increments\<close>

datatype incr_pc = I_Test | I_Lock | I_Load | I_Add | I_Store | I_Unlock | I_Done

record incr_thread =
  i_pc :: incr_pc
  i_loc :: int
  i_j :: int

datatype incr_main_pc = C_Create | C_Join nat | C_Print

record incr =
  glob :: int
  incr_mtx :: "tid option"
  incr_threads :: "incr_thread list"
  c_pc :: incr_main_pc
  loops :: int
  incr_printed :: "int option"
  incr_end :: "unit outcome option"

text \<open>The number of loops: the first argument, which must be positive, or the default.\<close>

definition num_loops :: "string list \<Rightarrow> string + int" where
  "num_loops argv = (case argv of [] \<Rightarrow> Inr 10000000 | a # _ \<Rightarrow> getInt (Some a) GN_GT_0 (Some ''num-loops''))"

definition incr_init :: "string list \<Rightarrow> incr" where
  "incr_init argv =
     (let s = \<lparr>glob = 0, incr_mtx = None, incr_threads = [], c_pc = C_Create, loops = 0, incr_printed = None, incr_end = None\<rparr>
      in case num_loops argv of Inl _ \<Rightarrow> s\<lparr>incr_end := Some (Exits 1)\<rparr> | Inr n \<Rightarrow> s\<lparr>loops := n\<rparr>)"

definition incr_goto :: "nat \<Rightarrow> incr_pc \<Rightarrow> incr \<Rightarrow> incr" where
  "incr_goto i pc s = s\<lparr>incr_threads := (incr_threads s)[i := (incr_threads s ! i)\<lparr>i_pc := pc\<rparr>]\<rparr>"

definition set_loc :: "nat \<Rightarrow> int \<Rightarrow> incr \<Rightarrow> incr" where
  "set_loc i v s = s\<lparr>incr_threads := (incr_threads s)[i := (incr_threads s ! i)\<lparr>i_loc := v\<rparr>]\<rparr>"

definition next_j :: "nat \<Rightarrow> incr \<Rightarrow> incr" where
  "next_j i s = s\<lparr>incr_threads := (incr_threads s)[i := (incr_threads s ! i)\<lparr>i_j := i_j (incr_threads s ! i) + 1\<rparr>]\<rparr>"

text \<open>Incrementing the largest \<open>int\<close> is undefined.\<close>

definition incr_loc :: "nat \<Rightarrow> incr \<Rightarrow> incr" where
  "incr_loc i s =
     (let v = i_loc (incr_threads s ! i)
      in if v \<ge> INT_MAX then s\<lparr>incr_end := Some Undefined\<rparr> else incr_goto i I_Store (set_loc i (v + 1) s))"

definition threadFunc_incr :: "nat \<Rightarrow> incr \<Rightarrow> incr option" where
  "threadFunc_incr i s =
     (let t = incr_threads s ! i
      in case i_pc t of
        I_Test \<Rightarrow> Some (if i_j t < loops s then incr_goto i I_Load s else incr_goto i I_Done s)
      | I_Load \<Rightarrow> Some (incr_goto i I_Add (set_loc i (glob s) s))
      | I_Add \<Rightarrow> Some (incr_loc i s)
      | I_Store \<Rightarrow> Some (incr_goto i I_Test (next_j i (s\<lparr>glob := i_loc t\<rparr>)))
      | _ \<Rightarrow> None)"

definition threadFunc_mutex :: "nat \<Rightarrow> int \<Rightarrow> incr \<Rightarrow> incr option" where
  "threadFunc_mutex i e s =
     (let t = incr_threads s ! i
      in case i_pc t of
        I_Test \<Rightarrow> Some (if i_j t < loops s then incr_goto i I_Lock s else incr_goto i I_Done s)
      | I_Lock \<Rightarrow>
          if e \<noteq> 0 then Some (s\<lparr>incr_end := Some (Exits 1)\<rparr>)
          else if incr_mtx s = None then Some (incr_goto i I_Load (s\<lparr>incr_mtx := Some (Worker i)\<rparr>)) else None
      | I_Load \<Rightarrow> Some (incr_goto i I_Add (set_loc i (glob s) s))
      | I_Add \<Rightarrow> Some (incr_loc i s)
      | I_Store \<Rightarrow> Some (incr_goto i I_Unlock (s\<lparr>glob := i_loc t\<rparr>))
      | I_Unlock \<Rightarrow>
          Some (if e \<noteq> 0 then s\<lparr>incr_end := Some (Exits 1)\<rparr>
                else incr_goto i I_Test (next_j i (s\<lparr>incr_mtx := None\<rparr>)))
      | I_Done \<Rightarrow> None)"

text \<open>The main function of both programs: create two threads, join them, print the variable.\<close>

definition main_incr :: "int \<Rightarrow> incr \<Rightarrow> incr option" where
  "main_incr e s =
     (case c_pc s of
        C_Create \<Rightarrow>
          if e \<noteq> 0 then Some (s\<lparr>incr_end := Some (Exits 1)\<rparr>)
          else Some (s\<lparr>incr_threads := incr_threads s @ [\<lparr>i_pc = I_Test, i_loc = 0, i_j = 0\<rparr>],
                       c_pc := (if length (incr_threads s) = 1 then C_Join 0 else C_Create)\<rparr>)
      | C_Join k \<Rightarrow>
          if e \<noteq> 0 then Some (s\<lparr>incr_end := Some (Exits 1)\<rparr>)
          else if i_pc (incr_threads s ! k) = I_Done then Some (s\<lparr>c_pc := (if k = 0 then C_Join 1 else C_Print)\<rparr>)
          else None
      | C_Print \<Rightarrow> Some (s\<lparr>incr_printed := Some (glob s), incr_end := Some (Exits 0)\<rparr>))"

fun incr_step :: "label \<Rightarrow> incr \<Rightarrow> incr option" where
  "incr_step (Run Main e) s = (if incr_end s = None then main_incr e s else None)"
| "incr_step (Run (Worker i) e) s =
     (if incr_end s = None \<and> i < length (incr_threads s) then threadFunc_incr i s else None)"
| "incr_step Spurious s = None"

fun mutex_step :: "label \<Rightarrow> incr \<Rightarrow> incr option" where
  "mutex_step (Run Main e) s = (if incr_end s = None then main_incr e s else None)"
| "mutex_step (Run (Worker i) e) s =
     (if incr_end s = None \<and> i < length (incr_threads s) then threadFunc_mutex i e s else None)"
| "mutex_step Spurious s = None"

lemmas incr_defs = incr_goto_def set_loc_def next_j_def incr_loc_def Let_def

subsection \<open>With the mutex no update is lost\<close>

text \<open>The increments a thread has stored, and whether it holds the mutex.\<close>

definition stored :: "incr_thread \<Rightarrow> int" where
  "stored t = i_j t + (if i_pc t = I_Unlock then 1 else 0)"

definition i_holds :: "incr_thread \<Rightarrow> bool" where
  "i_holds t \<longleftrightarrow> i_pc t = I_Load \<or> i_pc t = I_Add \<or> i_pc t = I_Store \<or> i_pc t = I_Unlock"

definition incr_ok :: "int \<Rightarrow> int \<Rightarrow> incr_thread \<Rightarrow> bool" where
  "incr_ok n g t \<longleftrightarrow> 0 \<le> i_j t \<and> i_j t \<le> n \<and> (i_pc t \<noteq> I_Test \<and> i_pc t \<noteq> I_Done \<longrightarrow> i_j t < n) \<and>
     (i_pc t = I_Done \<longrightarrow> i_j t = n) \<and> (i_pc t = I_Add \<longrightarrow> i_loc t = g) \<and> (i_pc t = I_Store \<longrightarrow> i_loc t = g + 1)"

definition main_ok :: "incr \<Rightarrow> bool" where
  "main_ok s \<longleftrightarrow>
     (case c_pc s of
        C_Create \<Rightarrow> length (incr_threads s) < 2
      | C_Join k \<Rightarrow> length (incr_threads s) = 2 \<and> k < 2 \<and> (k = 1 \<longrightarrow> i_pc (incr_threads s ! 0) = I_Done)
      | C_Print \<Rightarrow> length (incr_threads s) = 2 \<and> (\<forall>t \<in> set (incr_threads s). i_pc t = I_Done))"

definition incr_inv :: "int \<Rightarrow> incr \<Rightarrow> bool" where
  "incr_inv n s \<longleftrightarrow>
     (incr_end s = None \<longrightarrow>
        loops s = n \<and> main_ok s \<and> glob s = sum_list (map stored (incr_threads s)) \<and>
        (\<forall>t \<in> set (incr_threads s). incr_ok n (glob s) t) \<and>
        owner_inv (incr_mtx s) False (map i_holds (incr_threads s))) \<and>
     (incr_end s \<noteq> None \<longrightarrow> incr_end s = Some (Exits 1) \<or> incr_end s = Some (Exits 0) \<and> incr_printed s = Some (2 * n))"

lemma stored_le: "incr_ok n g t \<Longrightarrow> stored t \<le> n"
  by (auto simp: incr_ok_def stored_def)

lemma sum_stored_le:
  fixes n :: int
  shows "\<forall>t \<in> set ts. stored t \<le> n \<Longrightarrow> sum_list (map stored ts) \<le> int (length ts) * n"
  by (induction ts) (auto simp: algebra_simps intro: add_mono)

lemma glob_room:
  assumes ok: "\<forall>t \<in> set (incr_threads s). incr_ok n (glob s) t" and i: "i < length (incr_threads s)"
    and g: "glob s = sum_list (map stored (incr_threads s))" and pc: "i_pc (incr_threads s ! i) = I_Add"
    and len: "length (incr_threads s) \<le> 2" and n: "0 < n" "2 * n \<le> INT_MAX"
  shows "glob s < INT_MAX"
proof -
  let ?t = "incr_threads s ! i"
  define q where "q = ?t\<lparr>i_pc := I_Unlock\<rparr>"
  have t: "incr_ok n (glob s) ?t"
    using ok i by simp
  have "sum_list (map stored ((incr_threads s)[i := q])) \<le> int (length ((incr_threads s)[i := q])) * n"
    by (rule sum_stored_le, rule all_list_update)
      (use ok t pc stored_le in \<open>auto simp: q_def stored_def incr_ok_def\<close>)
  also have "\<dots> \<le> 2 * n"
    using len n(1) by (simp add: mult_mono)
  finally show ?thesis
    using sum_list_update_int [OF i, of stored q] pc g n(2) by (simp add: q_def stored_def)
qed

text \<open>What a step of a thread does to its own entry.\<close>

definition incr_moves :: "nat \<Rightarrow> incr \<Rightarrow> incr \<Rightarrow> incr_thread \<Rightarrow> bool" where
  "incr_moves i s u q \<longleftrightarrow> (let t = incr_threads s ! i in
     incr_threads u = (incr_threads s)[i := q] \<and> loops u = loops s \<and> c_pc u = c_pc s \<and> incr_end u = None \<and>
     glob u - glob s = stored q - stored t \<and> (glob u \<noteq> glob s \<longrightarrow> i_holds t) \<and>
     i_pc t \<noteq> I_Done \<and>
     incr_mtx u = (if i_holds q then Some (Worker i) else if i_holds t then None else incr_mtx s) \<and>
     (i_holds q \<longrightarrow> i_holds t \<or> incr_mtx s = None))"

lemma threadFunc_mutex_moves:
  assumes st: "threadFunc_mutex i e s = Some u" "incr_end s = None" and i: "i < length (incr_threads s)"
    and ok: "\<forall>t \<in> set (incr_threads s). incr_ok n (glob s) t" "glob s = sum_list (map stored (incr_threads s))"
      "owner_inv (incr_mtx s) False (map i_holds (incr_threads s))" "length (incr_threads s) \<le> 2" "loops s = n"
    and n: "0 < n" "2 * n \<le> INT_MAX"
  shows "incr_end u = Some (Exits 1) \<or> (\<exists>q. incr_moves i s u q \<and> incr_ok n (glob u) q)"
proof -
  let ?t = "incr_threads s ! i"
  have t: "incr_ok n (glob s) ?t"
    using ok(1) i by simp
  have held: "i_holds ?t \<Longrightarrow> incr_mtx s = Some (Worker i)"
    using owner_invD [OF ok(3), of i] i by simp
  have room: "i_pc ?t = I_Add \<Longrightarrow> glob s < INT_MAX"
    using glob_room [OF ok(1) i ok(2) _ ok(4) n] by simp
  note defs = threadFunc_mutex_def incr_defs incr_moves_def incr_ok_def stored_def i_holds_def
  show ?thesis
  proof (cases "i_pc ?t")
    case I_Test
    then show ?thesis
      using st t i ok(5) by (cases "i_j ?t < loops s") (auto simp: defs)
  next
    case I_Lock
    then show ?thesis
      using st t i by (auto simp: defs split: if_splits)
  next
    case I_Load
    then show ?thesis
      using st t i held by (auto simp: defs)
  next
    case I_Add
    then show ?thesis
      using st t i held room by (auto simp: defs split: if_splits)
  next
    case I_Store
    then show ?thesis
      using st t i held by (auto simp: defs)
  next
    case I_Unlock
    then show ?thesis
      using st t i by (cases "e = 0") (auto simp: defs)
  next
    case I_Done
    then show ?thesis
      using st by (simp add: defs)
  qed
qed

lemma main_ok_update:
  assumes "main_ok s" "i < length (incr_threads s)" "incr_moves i s u q"
  shows "main_ok u"
proof -
  have u: "incr_threads u = (incr_threads s)[i := q]" "c_pc u = c_pc s" and pc: "i_pc (incr_threads s ! i) \<noteq> I_Done"
    using assms(3) by (simp_all add: incr_moves_def Let_def)
  show ?thesis
  proof (cases "c_pc s")
    case (C_Join k)
    then have "k = 1 \<Longrightarrow> i \<noteq> 0"
      using assms(1) pc by (cases i) (auto simp: main_ok_def)
    then show ?thesis
      using assms(1) C_Join u by (auto simp: main_ok_def)
  next
    case C_Print
    then show ?thesis
      using assms(1,2) pc by (auto simp: main_ok_def)
  qed (use assms(1) u in \<open>simp_all add: main_ok_def\<close>)
qed

lemma incr_ok_glob: "incr_ok n g t \<Longrightarrow> \<not> i_holds t \<Longrightarrow> incr_ok n g' t"
  by (auto simp: incr_ok_def i_holds_def)

lemma incr_inv_worker:
  assumes inv: "incr_inv n s" "incr_end s = None" and i: "i < length (incr_threads s)"
    and st: "threadFunc_mutex i e s = Some u" and n: "0 < n" "2 * n \<le> INT_MAX"
  shows "incr_inv n u"
proof -
  have ok: "loops s = n" "main_ok s" "glob s = sum_list (map stored (incr_threads s))"
      "\<forall>t \<in> set (incr_threads s). incr_ok n (glob s) t" "owner_inv (incr_mtx s) False (map i_holds (incr_threads s))"
    using inv unfolding incr_inv_def by blast+
  have len: "length (incr_threads s) \<le> 2"
    using ok(2) by (auto simp: main_ok_def split: incr_main_pc.splits)
  from threadFunc_mutex_moves [OF st inv(2) i ok(4,3,5) len ok(1) n] show ?thesis
  proof
    assume "\<exists>q. incr_moves i s u q \<and> incr_ok n (glob u) q"
    then obtain q where m: "incr_moves i s u q" and q: "incr_ok n (glob u) q"
      by blast
    have u: "incr_threads u = (incr_threads s)[i := q]" "loops u = loops s" "incr_end u = None"
        "glob u - glob s = stored q - stored (incr_threads s ! i)" "glob u \<noteq> glob s \<longrightarrow> i_holds (incr_threads s ! i)"
        "incr_mtx u = (if i_holds q then Some (Worker i) else if i_holds (incr_threads s ! i) then None else incr_mtx s)"
        "i_holds q \<longrightarrow> i_holds (incr_threads s ! i) \<or> incr_mtx s = None"
      using m by (simp_all add: incr_moves_def Let_def)
    have "incr_ok n (glob u) (incr_threads s ! k)" if "k < length (incr_threads s)" "k \<noteq> i" for k
    proof (cases "glob u = glob s")
      case False
      then have "\<not> i_holds (incr_threads s ! k)"
        using u(5) owner_invD [OF ok(5), of i] owner_invD [OF ok(5), of k] that i by auto
      then show ?thesis
        using ok(4) that(1) incr_ok_glob nth_mem by blast
    qed (use ok(4) that in simp)
    then have "\<forall>t \<in> set (incr_threads u). incr_ok n (glob u) t"
      using q i by (auto simp: u(1) in_set_conv_nth nth_list_update)
    moreover have "owner_inv (incr_mtx u) False (map i_holds (incr_threads u))"
      unfolding u(1) by (rule owner_inv_map_update [OF ok(5) i u(6)]) (use u(7) in blast)
    moreover have "glob u = sum_list (map stored (incr_threads u))"
      unfolding u(1) sum_list_update_int [OF i] using u(4) ok(3) by simp
    ultimately show ?thesis
      using main_ok_update [OF ok(2) i m] ok(1) u(2,3) by (simp add: incr_inv_def)
  qed (simp add: incr_inv_def)
qed

lemma incr_inv_main:
  assumes inv: "incr_inv n s" "incr_end s = None" and st: "main_incr e s = Some u" and n: "0 < n"
  shows "incr_inv n u"
proof -
  have ok: "loops s = n" "main_ok s" "glob s = sum_list (map stored (incr_threads s))"
      "\<forall>t \<in> set (incr_threads s). incr_ok n (glob s) t" "owner_inv (incr_mtx s) False (map i_holds (incr_threads s))"
    using inv unfolding incr_inv_def by blast+
  show ?thesis
  proof (cases "c_pc s")
    case C_Create
    have "owner_inv (incr_mtx s) False (map i_holds (incr_threads s) @ [False])"
      using ok(5) by (intro owner_inv_main [OF ok(5)]) (auto simp: owner_inv_def)
    moreover have "main_ok (s\<lparr>incr_threads := incr_threads s @ [x], c_pc := (if length (incr_threads s) = 1 then C_Join 0 else C_Create)\<rparr>)" for x
      using ok(2) C_Create by (cases "incr_threads s") (auto simp: main_ok_def)
    ultimately show ?thesis
      using C_Create st ok(1,3,4) inv(2) n
      by (cases "e = 0") (auto simp: main_incr_def incr_inv_def stored_def incr_ok_def i_holds_def)
  next
    case (C_Join k)
    have two: "\<forall>t \<in> set (incr_threads s). i_pc t = I_Done" if "length (incr_threads s) = 2"
        "i_pc (incr_threads s ! 0) = I_Done" "i_pc (incr_threads s ! 1) = I_Done"
      using that by (auto simp: in_set_conv_nth less_2_cases_iff)
    have "k < 2"
      using ok(2) C_Join by (simp add: main_ok_def)
    then consider "k = 0" | "k = 1"
      by linarith
    then have "incr_end u = Some (Exits 1) \<or> u = s\<lparr>c_pc := c_pc u\<rparr> \<and> main_ok u"
      by cases (use st C_Join ok(2) two in \<open>auto simp: main_incr_def main_ok_def split: if_splits\<close>)
    then show ?thesis
    proof
      assume u: "u = s\<lparr>c_pc := c_pc u\<rparr> \<and> main_ok u"
      then have "glob u = glob s" "incr_threads u = incr_threads s" "incr_mtx u = incr_mtx s" "loops u = loops s" "incr_end u = None"
        using inv(2) by (metis incr.ext_inject incr.surjective incr.update_convs(4))+
      then show ?thesis
        using u ok by (simp add: incr_inv_def)
    qed (simp add: incr_inv_def)
  next
    case C_Print
    then have "map stored (incr_threads s) = replicate 2 n"
      using ok(2,4) by (auto simp: main_ok_def stored_def incr_ok_def intro!: nth_equalityI)
    then show ?thesis
      using C_Print st ok(3) by (auto simp: main_incr_def incr_inv_def numeral_2_eq_2)
  qed
qed

definition incr_inv_bounded :: "int \<Rightarrow> incr \<Rightarrow> bool" where
  "incr_inv_bounded n s \<longleftrightarrow> incr_inv n s \<and> 0 < n \<and> 2 * n \<le> INT_MAX"

interpretation mutexed: thread_invariant mutex_step "incr_inv_bounded n" for n
proof
  fix s u l
  assume "incr_inv_bounded n s" "mutex_step l s = Some u"
  then show "incr_inv_bounded n u"
    by (cases "(l, s)" rule: mutex_step.cases)
      (auto simp: incr_inv_bounded_def split: if_splits intro: incr_inv_main incr_inv_worker)
qed

text \<open>
  In every interleaving of \<open>thread_incr_mutex\<close> no update is lost: if the process exits with success, then it has
  printed twice the number of loops; it never overflows when that number fits, and otherwise it can only
  exit because a library call failed.
\<close>

theorem thread_incr_mutex_exact:
  assumes "num_loops argv = Inr n" "0 < n" "2 * n \<le> INT_MAX" "run mutex_step (incr_init argv) s"
  shows "incr_end s = None \<or> incr_end s = Some (Exits 1) \<or> incr_end s = Some (Exits 0) \<and> incr_printed s = Some (2 * n)"
proof -
  have "incr_inv n (incr_init argv)"
    using assms(1) by (simp add: incr_inv_def incr_init_def main_ok_def owner_inv_def Let_def)
  then have "incr_inv_bounded n s"
    using mutexed.inv_run [OF assms(4)] assms(2,3) by (simp add: incr_inv_bounded_def)
  then show ?thesis
    by (auto simp: incr_inv_bounded_def incr_inv_def)
qed

subsection \<open>Without the mutex updates are lost\<close>

text \<open>Both threads in step with each other, each at the start of its loop.\<close>

definition in_step :: "int \<Rightarrow> int \<Rightarrow> incr" where
  "in_step n k =
     \<lparr>glob = k, incr_mtx = None, incr_threads = replicate 2 \<lparr>i_pc = I_Test, i_loc = k, i_j = k\<rparr>, c_pc = C_Join 0, loops = n,
      incr_printed = None, incr_end = None\<rparr>"

lemma in_step_next:
  assumes "k < n" "k < INT_MAX"
  shows "exec incr_step (concat (replicate 4 [Run (Worker 0) 0, Run (Worker 1) 0])) (in_step n k) = Some (in_step n (k + 1))"
  using assms by (simp add: in_step_def threadFunc_incr_def incr_defs numeral_eq_Suc)

lemma run_trans: "run step s t \<Longrightarrow> run step t u \<Longrightarrow> run step s u"
  by (induction rule: run.induct) (auto intro: run_step_first)

lemma in_step_run:
  assumes "n \<le> INT_MAX"
  shows "0 \<le> k \<Longrightarrow> k \<le> n \<Longrightarrow> run incr_step (in_step n 0) (in_step n k)"
proof (induction "nat k" arbitrary: k)
  case (Suc m)
  then have "run incr_step (in_step n 0) (in_step n (k - 1))"
    by (intro Suc.hyps) auto
  moreover have "run incr_step (in_step n (k - 1)) (in_step n k)"
    using exec_run [OF in_step_next [of "k - 1" n]] Suc assms by simp
  ultimately show ?case
    by (rule run_trans)
qed (simp add: run_refl)

text \<open>
  Without the mutex updates can be lost: whatever the number of loops, there is an interleaving of \<open>thread_incr\<close> that ends
  with success and prints only that number, half of what the two threads added.
\<close>

theorem thread_incr_loses:
  assumes "num_loops argv = Inr n" "0 < n" "n \<le> INT_MAX"
  shows "\<exists>s. run incr_step (incr_init argv) s \<and> incr_end s = Some (Exits 0) \<and> incr_printed s = Some n"
proof -
  have "exec incr_step [Run Main 0, Run Main 0] (incr_init argv) = Some (in_step n 0)"
    using assms(1) by (simp add: incr_init_def main_incr_def in_step_def Let_def numeral_2_eq_2)
  then have "run incr_step (incr_init argv) (in_step n n)"
    by (rule run_trans [OF exec_run in_step_run]) (use assms in simp_all)
  moreover have "exec incr_step [Run (Worker 0) 0, Run (Worker 1) 0, Run Main 0, Run Main 0, Run Main 0] (in_step n n) =
      Some \<lparr>glob = n, incr_mtx = None, incr_threads = replicate 2 \<lparr>i_pc = I_Done, i_loc = n, i_j = n\<rparr>, c_pc = C_Print,
        loops = n, incr_printed = Some n, incr_end = Some (Exits 0)\<rparr>"
    by (simp add: in_step_def threadFunc_incr_def main_incr_def incr_defs numeral_2_eq_2)
  ultimately have "run incr_step (incr_init argv)
      \<lparr>glob = n, incr_mtx = None, incr_threads = replicate 2 \<lparr>i_pc = I_Done, i_loc = n, i_j = n\<rparr>, c_pc = C_Print,
        loops = n, incr_printed = Some n, incr_end = Some (Exits 0)\<rparr>"
    by (blast intro: run_trans exec_run)
  then show ?thesis
    by (intro exI conjI) (assumption, simp_all)
qed

lemma num_loops_default: "num_loops [] = Inr 10000000"
  by (simp add: num_loops_def)

theorem thread_incr_loses_witness:
  "\<exists>s. run incr_step (incr_init []) s \<and> incr_end s = Some (Exits 0) \<and> incr_printed s = Some 10000000"
  using thread_incr_loses [OF num_loops_default] by (simp add: INT_MAX_def)

text \<open>A run with the mutex and one loop.\<close>

definition demo_mutex :: "label list" where
  "demo_mutex =
     (let m = Run Main 0; w = (\<lambda>i. replicate 7 (Run (Worker i) 0)) in [m, m] @ w 0 @ w 1 @ [m, m, m])"

definition demo_mutex_end :: incr where
  "demo_mutex_end =
     \<lparr>glob = 2, incr_mtx = None,
      incr_threads = [\<lparr>i_pc = I_Done, i_loc = 1, i_j = 1\<rparr>, \<lparr>i_pc = I_Done, i_loc = 2, i_j = 1\<rparr>], c_pc = C_Print, loops = 1,
      incr_printed = Some 2, incr_end = Some (Exits 0)\<rparr>"

lemma num_loops_1: "num_loops [''1''] = Inr 1"
  by code_simp

lemma demo_mutex_run: "exec mutex_step demo_mutex (incr_init [''1'']) = Some demo_mutex_end"
  by code_simp

theorem thread_incr_mutex_exact_witness:
  "incr_end demo_mutex_end = Some (Exits 0) \<and> incr_printed demo_mutex_end = Some 2"
  using thread_incr_mutex_exact [OF num_loops_1 _ _ exec_run [OF demo_mutex_run]]
  by (simp add: INT_MAX_def) (simp add: demo_mutex_end_def)

subsection \<open>One-time initialisation\<close>

text \<open>
  Threads that call \<open>one_time_init()\<close> a given number of times each.  The results of the lock and the unlock are
  compared with \<open>-1\<close>, but these functions return an error number: other errors go unnoticed, and the code
  then goes on without the mutex, or leaves it locked.
\<close>

datatype once_pc = O_Call | O_Lock | O_Check | O_Init | O_Set | O_Unlock

record once_thread =
  o_pc :: once_pc
  o_left :: nat

record once_struct =
  once_mtx :: "tid option"
  called :: bool
  init_calls :: nat
  returned :: nat
  once_threads :: "once_thread list"
  once_exit :: "int option"

definition once_init :: "nat list \<Rightarrow> once_struct" where
  "once_init ns =
     \<lparr>once_mtx = None, called = False, init_calls = 0, returned = 0,
      once_threads = map (\<lambda>n. \<lparr>o_pc = O_Call, o_left = n\<rparr>) ns, once_exit = None\<rparr>"

definition once_goto :: "nat \<Rightarrow> once_pc \<Rightarrow> once_struct \<Rightarrow> once_struct" where
  "once_goto i pc s = s\<lparr>once_threads := (once_threads s)[i := (once_threads s ! i)\<lparr>o_pc := pc\<rparr>]\<rparr>"

definition one_time_init :: "nat \<Rightarrow> int \<Rightarrow> once_struct \<Rightarrow> once_struct option" where
  "one_time_init i e s =
     (let t = once_threads s ! i
      in case o_pc t of
        O_Call \<Rightarrow> if o_left t = 0 then None else Some (once_goto i O_Lock s)
      | O_Lock \<Rightarrow>
          if e = -1 then Some (s\<lparr>once_exit := Some 1\<rparr>)
          else if e \<noteq> 0 then Some (once_goto i O_Check s)
          else if once_mtx s = None then Some (once_goto i O_Check (s\<lparr>once_mtx := Some (Worker i)\<rparr>)) else None
      | O_Check \<Rightarrow> Some (once_goto i (if \<not> called s then O_Init else O_Unlock) s)
      | O_Init \<Rightarrow> Some (once_goto i O_Set (s\<lparr>init_calls := init_calls s + 1\<rparr>))
      | O_Set \<Rightarrow> Some (once_goto i O_Unlock (s\<lparr>called := True\<rparr>))
      | O_Unlock \<Rightarrow>
          if e = -1 then Some (s\<lparr>once_exit := Some 1\<rparr>)
          else Some (let s = (if e \<noteq> 0 then s else s\<lparr>once_mtx := None\<rparr>)
                     in s\<lparr>returned := returned s + 1, once_threads := (once_threads s)[i := \<lparr>o_pc = O_Call, o_left = o_left t - 1\<rparr>]\<rparr>))"

fun once_step :: "nat \<times> int \<Rightarrow> once_struct \<Rightarrow> once_struct option" where
  "once_step (i, e) s = (if once_exit s = None \<and> i < length (once_threads s) then one_time_init i e s else None)"

definition o_holds :: "once_thread \<Rightarrow> bool" where
  "o_holds t \<longleftrightarrow> o_pc t \<noteq> O_Call \<and> o_pc t \<noteq> O_Lock"

text \<open>The state of the protected data, as the holder of the mutex has left it.\<close>

definition once_ok :: "once_struct \<Rightarrow> bool" where
  "once_ok s \<longleftrightarrow>
     owner_inv (once_mtx s) False (map o_holds (once_threads s)) \<and> once_exit s = None \<and>
     (returned s > 0 \<longrightarrow> called s) \<and>
     (\<forall>t \<in> set (once_threads s). (o_pc t = O_Init \<longrightarrow> \<not> called s \<and> init_calls s = 0) \<and>
        (o_pc t = O_Set \<longrightarrow> \<not> called s \<and> init_calls s = 1) \<and> (o_pc t = O_Unlock \<longrightarrow> called s)) \<and>
     (called s \<longrightarrow> init_calls s = 1) \<and>
     (\<not> called s \<longrightarrow> init_calls s = 0 \<or> (\<exists>t \<in> set (once_threads s). o_pc t = O_Set))"

lemma once_others:
  assumes "owner_inv m False (map o_holds ts)" "i < length ts" "o_holds (ts ! i)"
  shows "\<forall>t \<in> set (ts[i := q]). t = q \<or> \<not> o_holds t"
proof
  fix t
  assume "t \<in> set (ts[i := q])"
  then obtain k where k: "k < length ts" "t = (ts[i := q]) ! k"
    by (auto simp: in_set_conv_nth)
  then show "t = q \<or> \<not> o_holds t"
    using owner_invD [OF assms(1), of i] owner_invD [OF assms(1), of k] assms(2,3) by (cases "k = i") auto
qed

text \<open>
  A holder may change the protected data, since no other thread is inside; what it leaves is described by
  its own entry.
\<close>

lemma once_ok_holder:
  assumes ok: "once_ok s" and i: "i < length (once_threads s)" and h: "o_holds (once_threads s ! i)"
    and u: "once_threads u = (once_threads s)[i := q]" "once_exit u = None"
      "once_mtx u = (if o_holds q then Some (Worker i) else None)"
    and q: "o_pc q = O_Init \<longrightarrow> \<not> called u \<and> init_calls u = 0" "o_pc q = O_Set \<longrightarrow> \<not> called u \<and> init_calls u = 1"
      "o_pc q = O_Unlock \<longrightarrow> called u"
    and d: "called u \<longrightarrow> init_calls u = 1" "\<not> called u \<longrightarrow> init_calls u = 0 \<or> o_pc q = O_Set" "returned u > 0 \<longrightarrow> called u"
  shows "once_ok u"
proof -
  have "owner_inv (once_mtx u) False (map o_holds (once_threads u))"
    unfolding u(1) by (rule owner_inv_map_update [of "once_mtx s"]) (use ok i u h in \<open>simp_all add: once_ok_def\<close>)
  moreover have "\<forall>t \<in> set (once_threads u). t = q \<or> o_pc t = O_Call \<or> o_pc t = O_Lock"
    unfolding u(1) using once_others [OF _ i h, of "once_mtx s" q] ok by (simp add: once_ok_def o_holds_def)
  then have "\<forall>t \<in> set (once_threads u). (o_pc t = O_Init \<longrightarrow> \<not> called u \<and> init_calls u = 0) \<and>
        (o_pc t = O_Set \<longrightarrow> \<not> called u \<and> init_calls u = 1) \<and> (o_pc t = O_Unlock \<longrightarrow> called u)"
    using q by auto
  moreover have "q \<in> set (once_threads u)"
    using i by (simp add: u(1) set_update_memI)
  ultimately show ?thesis
    using d u(2) unfolding once_ok_def by blast
qed

lemma once_ok_outside:
  assumes ok: "once_ok s" and i: "i < length (once_threads s)" and h: "\<not> o_holds (once_threads s ! i)"
    and u: "once_threads u = (once_threads s)[i := q]" "once_exit u = None" "called u = called s" "init_calls u = init_calls s"
      "returned u = returned s" "once_mtx u = (if o_holds q then Some (Worker i) else once_mtx s)"
    and q: "o_holds q \<Longrightarrow> once_mtx s = None" "o_pc q = O_Call \<or> o_pc q = O_Lock \<or> o_pc q = O_Check"
  shows "once_ok u"
proof -
  have "owner_inv (once_mtx u) False (map o_holds (once_threads u))"
    unfolding u(1) by (rule owner_inv_map_update [of "once_mtx s"]) (use ok i u h q in \<open>simp_all add: once_ok_def\<close>)
  moreover have "\<forall>t \<in> set (once_threads u). (o_pc t = O_Init \<longrightarrow> \<not> called s \<and> init_calls s = 0) \<and>
        (o_pc t = O_Set \<longrightarrow> \<not> called s \<and> init_calls s = 1) \<and> (o_pc t = O_Unlock \<longrightarrow> called s)"
    unfolding u(1) by (rule all_list_update) (use ok q in \<open>auto simp: once_ok_def\<close>)
  moreover have "\<exists>t \<in> set (once_threads u). o_pc t = O_Set" if ex: "\<exists>t \<in> set (once_threads s). o_pc t = O_Set"
  proof -
    obtain k where k: "k < length (once_threads s)" "o_pc (once_threads s ! k) = O_Set"
      using ex by (auto simp: in_set_conv_nth)
    then have "k \<noteq> i"
      using h by (auto simp: o_holds_def)
    then show ?thesis
      using k u(1) by (metis length_list_update nth_list_update_neq nth_mem)
  qed
  ultimately show ?thesis
    using ok unfolding once_ok_def u(2-5) by blast
qed

definition once_succeeds :: "nat \<Rightarrow> once_struct \<Rightarrow> once_struct option" where
  "once_succeeds i s = once_step (i, 0) s"

lemma once_ok_step:
  assumes ok: "once_ok s" and st: "once_succeeds i s = Some u"
  shows "once_ok u"
proof -
  let ?t = "once_threads s ! i"
  have i: "i < length (once_threads s)" and e: "once_exit s = None" and st: "one_time_init i 0 s = Some u"
    using st by (auto simp: once_succeeds_def split: if_splits)
  have t: "?t \<in> set (once_threads s)"
    using i by simp
  have own: "owner_inv (once_mtx s) False (map o_holds (once_threads s))"
    using ok by (simp add: once_ok_def)
  have held: "o_holds ?t \<Longrightarrow> once_mtx s = Some (Worker i)"
    using owner_invD [OF own, of i] i by simp
  have alone: "called s = False \<Longrightarrow> o_holds ?t \<Longrightarrow> o_pc ?t \<noteq> O_Set \<Longrightarrow> init_calls s = 0"
    using ok once_others [OF own i, of ?t] by (auto simp: once_ok_def o_holds_def)
  have facts: "called s \<longrightarrow> init_calls s = 1" "returned s > 0 \<longrightarrow> called s" "o_pc ?t = O_Set \<longrightarrow> \<not> called s \<and> init_calls s = 1"
      "o_pc ?t = O_Init \<longrightarrow> \<not> called s \<and> init_calls s = 0" "o_pc ?t = O_Unlock \<longrightarrow> called s"
    using ok t unfolding once_ok_def by blast+
  note defs = one_time_init_def once_goto_def Let_def o_holds_def
  show ?thesis
  proof (cases "o_pc ?t")
    case O_Call
    then show ?thesis
      using st e i by (intro once_ok_outside [OF ok i, of u "?t\<lparr>o_pc := O_Lock\<rparr>"]) (auto simp: defs split: if_splits)
  next
    case O_Lock
    then show ?thesis
      using st e i by (intro once_ok_outside [OF ok i, of u "?t\<lparr>o_pc := O_Check\<rparr>"]) (auto simp: defs split: if_splits)
  next
    case O_Check
    then show ?thesis
      using st e i facts held alone
      by (intro once_ok_holder [OF ok i, of u "?t\<lparr>o_pc := (if \<not> called s then O_Init else O_Unlock)\<rparr>"])
        (auto simp: defs split: if_splits)
  next
    case O_Init
    then show ?thesis
      using st e i facts held by (intro once_ok_holder [OF ok i, of u "?t\<lparr>o_pc := O_Set\<rparr>"]) (auto simp: defs)
  next
    case O_Set
    then show ?thesis
      using st e i facts held by (intro once_ok_holder [OF ok i, of u "?t\<lparr>o_pc := O_Unlock\<rparr>"]) (auto simp: defs)
  next
    case O_Unlock
    then show ?thesis
      using st e i facts
      by (intro once_ok_holder [OF ok i, of u "\<lparr>o_pc = O_Call, o_left = o_left ?t - 1\<rparr>"]) (auto simp: defs)
  qed
qed

interpretation once: thread_invariant once_succeeds once_ok
  by unfold_locales (rule once_ok_step)

text \<open>
  When its library calls succeed, \<open>one_time_init()\<close> runs the initialisation at most once, however many threads call it and
  however often, and no call returns before the initialisation has been completed.
\<close>

theorem one_time_init_once:
  assumes "run once_succeeds (once_init ns) s"
  shows "init_calls s \<le> 1 \<and> (returned s > 0 \<longrightarrow> called s \<and> init_calls s = 1)"
proof -
  have "once_ok (once_init ns)"
    by (auto simp: once_ok_def once_init_def owner_inv_def o_holds_def)
  then have "once_ok s"
    using once.inv_run [OF assms] by simp
  then show ?thesis
    by (auto simp: once_ok_def)
qed

definition demo_once :: once_struct where
  "demo_once = \<lparr>once_mtx = None, called = True, init_calls = 1, returned = 1,
     once_threads = [\<lparr>o_pc = O_Call, o_left = 1\<rparr>, \<lparr>o_pc = O_Lock, o_left = 2\<rparr>], once_exit = None\<rparr>"

lemma demo_once_run: "exec once_succeeds [0, 1, 0, 0, 0, 0, 0] (once_init [2, 2]) = Some demo_once"
  by code_simp

theorem one_time_init_once_witness:
  "returned demo_once = 1 \<and> called demo_once \<and> init_calls demo_once = 1"
  using one_time_init_once [OF exec_run [OF demo_once_run]] by (simp add: demo_once_def)

text \<open>
  When a lock fails with an error number, the failure goes unnoticed and the initialisation can run twice.
\<close>

lemma one_time_init_unnoticed:
  "\<exists>s. run once_step (once_init [1, 1]) s \<and> init_calls s = 2 \<and> once_exit s = None"
proof -
  have "exec once_step [(0, 0), (0, 0), (0, 0), (1, 0), (1, 11), (1, 0), (0, 0), (1, 0)] (once_init [1, 1]) =
      Some \<lparr>once_mtx = Some (Worker 0), called = False, init_calls = 2, returned = 0,
        once_threads = [\<lparr>o_pc = O_Set, o_left = 1\<rparr>, \<lparr>o_pc = O_Set, o_left = 1\<rparr>], once_exit = None\<rparr>"
    by code_simp
  from exec_run [OF this] show ?thesis
    by (intro exI conjI) (assumption, simp_all)
qed

end
