(* ===== verification/Ns_Capable.thy ===== *)
theory Ns_Capable
  imports Users
begin

text \<open>
  The program \<open>namespaces/ns_capable.c\<close>: it decides whether a process may have capabilities in a namespace, by walking up
  the tree of user namespaces through file descriptors.  The kernel's namespaces and the process files are
  parameters; the table of open descriptors is part of the state, because the program opens and closes
  descriptors along the way.
\<close>

subsection \<open>Descriptors and the kernel\<close>

datatype 'n fileref = Tty | Ns 'n

type_synonym 'n fdtable = "'n fileref option list"

text \<open>A new descriptor is the lowest one that is free.\<close>

fun lowest :: "'a option list \<Rightarrow> nat" where
  "lowest [] = 0"
| "lowest (None # t) = 0"
| "lowest (Some x # t) = Suc (lowest t)"

definition new_fd :: "'n \<Rightarrow> 'n fdtable \<Rightarrow> nat \<times> 'n fdtable" where
  "new_fd n t = (let i = lowest t in (i, if i < length t then t[i := Some (Ns n)] else t @ [Some (Ns n)]))"

definition fd_file :: "'n fdtable \<Rightarrow> nat \<Rightarrow> 'n fileref option" where
  "fd_file t d = (if d < length t then t ! d else None)"

definition sys_close_fd :: "nat \<Rightarrow> 'n fdtable \<Rightarrow> bool \<times> 'n fdtable" where
  "sys_close_fd d t = (if fd_file t d = None then (False, t) else (True, t[d := None]))"

text \<open>
  Namespaces with their device and inode numbers, type, owner and parent; what a pathname refers to; and of a
  process the pieces of its status file and the text of its capabilities.
\<close>

record 'n nskern =
  dev_ino :: "'n \<Rightarrow> nat \<times> nat"
  nstype :: "'n \<Rightarrow> int"
  owning_ns :: "'n \<Rightarrow> 'n sysres"
  ns_parent :: "'n \<Rightarrow> 'n option"
  owner_uid :: "'n \<Rightarrow> 32 word sysres"
  ns_path :: "string \<Rightarrow> 'n option"
  status_file :: "int \<Rightarrow> string list option"
  caps_text :: "int \<Rightarrow> string option"

definition CLONE_NEWUSER :: int where
  "CLONE_NEWUSER = 0x10000000"

definition EPERM :: errno where [errno_defs]: "EPERM = 1"

definition ns_of :: "'n fdtable \<Rightarrow> nat \<Rightarrow> 'n option" where
  "ns_of t d = (case fd_file t d of Some (Ns n) \<Rightarrow> Some n | _ \<Rightarrow> None)"

subsection \<open>The program\<close>

definition display_process_capabilities :: "'n nskern \<Rightarrow> int \<Rightarrow> string outcome" where
  "display_process_capabilities K pid =
     (case caps_text K pid of None \<Rightarrow> Exits 1 | Some s \<Rightarrow> Returns (''Capabilities: '' @ s @ ''\<newline>''))"

fun euid_lines :: "string list \<Rightarrow> 32 word outcome" where
  "euid_lines [] = Exits 1"
| "euid_lines (line # ls) =
     (if has_prefix ''Uid:'' line then
        (let (_, rest, _) = strtol 10 (drop 4 line); (euid, rest', _) = strtol 10 rest
         in if rest = drop 4 line \<or> rest' = rest then Undefined else Returns (word_of_int (to_int32 euid)))
      else euid_lines ls)"

definition euid_of_process :: "'n nskern \<Rightarrow> int \<Rightarrow> 32 word outcome" where
  "euid_of_process K pid = (case status_file K pid of None \<Rightarrow> Exits 1 | Some ls \<Rightarrow> euid_lines ls)"

definition ns_equal :: "'n nskern \<Rightarrow> nat \<Rightarrow> nat \<Rightarrow> 'n fdtable \<Rightarrow> bool outcome" where
  "ns_equal K nsfd1 nsfd2 t =
     (case (ns_of t nsfd1, ns_of t nsfd2) of
        (Some n1, Some n2) \<Rightarrow>
          Returns (fst (dev_ino K n1) = fst (dev_ino K n2) \<and> snd (dev_ino K n1) = snd (dev_ino K n2))
      | _ \<Rightarrow> Exits 1)"

definition ns_type :: "'n nskern \<Rightarrow> nat \<Rightarrow> 'n fdtable \<Rightarrow> int outcome" where
  "ns_type K ns_fd t = (case ns_of t ns_fd of None \<Rightarrow> Exits 1 | Some n \<Rightarrow> Returns (nstype K n))"

definition owning_userns_of :: "'n nskern \<Rightarrow> nat \<Rightarrow> 'n fdtable \<Rightarrow> nat outcome \<times> 'n fdtable" where
  "owning_userns_of K ns_fd t =
     (case ns_of t ns_fd of
        None \<Rightarrow> (Exits 1, t)
      | Some n \<Rightarrow> (case owning_ns K n of Inl _ \<Rightarrow> (Exits 1, t) | Inr u \<Rightarrow> (case new_fd u t of (d, t) \<Rightarrow> (Returns d, t))))"

definition uid_of_userns_owner :: "'n nskern \<Rightarrow> nat \<Rightarrow> 'n fdtable \<Rightarrow> 32 word outcome" where
  "uid_of_userns_owner K userns_fd t =
     (case ns_of t userns_fd of
        None \<Rightarrow> Exits 1
      | Some n \<Rightarrow> (case owner_uid K n of Inl _ \<Rightarrow> Exits 1 | Inr u \<Rightarrow> Returns u))"

text \<open>\<open>ioctl(child, NS_GET_PARENT)\<close>: a descriptor for the parent, or \<open>EPERM\<close> when there is none.\<close>

definition get_parent :: "'n nskern \<Rightarrow> nat \<Rightarrow> 'n fdtable \<Rightarrow> nat sysres \<times> 'n fdtable" where
  "get_parent K child t =
     (case ns_of t child of
        None \<Rightarrow> (Inl EBADF, t)
      | Some n \<Rightarrow> (case ns_parent K n of None \<Rightarrow> (Inl EPERM, t) | Some p \<Rightarrow> (case new_fd p t of (d, t) \<Rightarrow> (Inr d, t))))"

text \<open>The loop of \<open>is_ancestor_userns()\<close>; the result \<^const>\<open>None\<close> of the program is its \<open>-1\<close>.\<close>

partial_function (option) is_ancestor_userns ::
    "'n nskern \<Rightarrow> nat \<Rightarrow> nat \<Rightarrow> 'n fdtable \<Rightarrow> (nat option outcome \<times> 'n fdtable) option" where
  "is_ancestor_userns K fd_x child t =
     (case get_parent K child t of
        (Inl e, t) \<Rightarrow> Some (if e \<noteq> EPERM then Exits 1 else Returns None, t)
      | (Inr parent, t) \<Rightarrow>
          (case ns_equal K parent fd_x t of
             Returns same \<Rightarrow>
               if same then Some (Returns (Some child), snd (sys_close_fd parent t))
               else is_ancestor_userns K fd_x parent (snd (sys_close_fd child t))
           | _ \<Rightarrow> Some (Exits 1, t)))"

definition text_in :: "string \<Rightarrow> string" where
  "text_in pid_str = ''PID '' @ pid_str @ '' is in the target namespace.'' @ ''\<newline>'' @
     ''Subject to LSM checks, it has the following capabilities:'' @ ''\<newline>''"

definition text_not_ancestor :: "string \<Rightarrow> string" where
  "text_not_ancestor pid_str = ''PID '' @ pid_str @ '' is not in an ancestor user namespace.'' @ ''\<newline>'' @
     ''Therefore, it has no capabilities in the target namespace.'' @ ''\<newline>''"

definition text_ancestor :: "string \<Rightarrow> bool \<Rightarrow> string" where
  "text_ancestor pid_str owner =
     ''PID '' @ pid_str @ '' is in an ancestor user namespace'' @
     (if owner then '' and its effective UID matches'' else '', but its effective UID does not match'') @ ''\<newline>'' @
     ''the owner of the immediate child user namespace of that ancestor namespace.'' @ ''\<newline>'' @
     (if owner then ''Therefore, subject to LSM checks, it has all capabilities in the target'' @ ''\<newline>'' @ ''namespace!'' @ ''\<newline>''
      else ''Therefore, subject to LSM checks, it has only the capabilities that are in its'' @ ''\<newline>'' @
           ''sets, which are:'' @ ''\<newline>'')"

text \<open>The descriptors are closed at the end; a failure to close ends the program with an error.\<close>

definition close_all :: "nat list \<Rightarrow> 'n fdtable \<Rightarrow> unit outcome" where
  "close_all ds t =
     (case foldl (\<lambda>(ok, t) d. if ok then sys_close_fd d t else (False, t)) (True, t) ds of
        (ok, _) \<Rightarrow> Exits (if ok then 0 else 1))"

definition ns_judge ::
    "'n nskern \<Rightarrow> string \<Rightarrow> nat \<Rightarrow> nat \<Rightarrow> 'n fdtable \<Rightarrow> (unit outcome \<times> string) option" where
  "ns_judge K pid_str target_userns pid_userns t =
     (let pid = atoi pid_str in
      case ns_equal K pid_userns target_userns t of
        Returns True \<Rightarrow>
          (case display_process_capabilities K pid of
             Returns s \<Rightarrow> Some (close_all [target_userns, pid_userns] t, text_in pid_str @ s)
           | _ \<Rightarrow> Some (Exits 1, text_in pid_str))
      | Returns False \<Rightarrow>
          (case is_ancestor_userns K pid_userns target_userns t of
             None \<Rightarrow> None
           | Some (Returns None, t) \<Rightarrow>
               Some (close_all [target_userns, pid_userns] t, text_not_ancestor pid_str)
           | Some (Returns (Some desc_userns), t) \<Rightarrow>
               (case (euid_of_process K pid, uid_of_userns_owner K desc_userns t) of
                  (Returns uid, Returns owner) \<Rightarrow>
                    let closes = (if desc_userns \<noteq> target_userns then [desc_userns] else []) @ [target_userns, pid_userns] in
                    if uid = owner then Some (close_all closes t, text_ancestor pid_str True)
                    else
                      (case display_process_capabilities K pid of
                         Returns s \<Rightarrow> Some (close_all closes t, text_ancestor pid_str False @ s)
                       | _ \<Rightarrow> Some (Exits 1, text_ancestor pid_str False))
                | (Undefined, _) \<Rightarrow> Some (Undefined, [])
                | _ \<Rightarrow> Some (Exits 1, []))
           | Some _ \<Rightarrow> Some (Exits 1, []))
      | _ \<Rightarrow> Some (Exits 1, []))"

definition ns_capable_main :: "'n nskern \<Rightarrow> string list \<Rightarrow> 'n fdtable \<Rightarrow> (unit outcome \<times> string) option" where
  "ns_capable_main K argv t =
     (case argv of
        [pid_str, ns_file] \<Rightarrow>
          (case ns_path K ns_file of
             None \<Rightarrow> Some (Exits 1, [])
           | Some n \<Rightarrow>
               let (target_ns, t) = new_fd n t in
               case (case ns_type K target_ns t of
                       Returns ty \<Rightarrow>
                         if ty = CLONE_NEWUSER then (Returns target_ns, t)
                         else andthen (owning_userns_of K target_ns t) (\<lambda>d t. (Returns d, snd (sys_close_fd target_ns t)))
                     | _ \<Rightarrow> (Exits 1, t)) of
                 (Returns target_userns, t) \<Rightarrow>
                   (case ns_path K (snprintf 4096 (''/proc/'' @ pid_str @ ''/ns/user'')) of
                      None \<Rightarrow> Some (Exits 1, [])
                    | Some p \<Rightarrow> (case new_fd p t of (pid_userns, t) \<Rightarrow> ns_judge K pid_str target_userns pid_userns t))
               | _ \<Rightarrow> Some (Exits 1, []))
      | _ \<Rightarrow> Some (Exits 1, []))"

subsection \<open>Descriptors\<close>

lemma lowest_free: "lowest t < length t \<Longrightarrow> t ! lowest t = None"
  by (induction t rule: lowest.induct) auto

lemma lowest_le: "lowest t \<le> length t"
  by (induction t rule: lowest.induct) auto

lemma fd_file_new:
  assumes "new_fd n t = (d, t')"
  shows "fd_file t d = None" "fd_file t' d = Some (Ns n)" "k \<noteq> d \<Longrightarrow> fd_file t' k = fd_file t k"
  using assms lowest_free [of t] lowest_le [of t]
  by (auto simp: new_fd_def Let_def fd_file_def nth_append split: if_splits)

lemma fd_file_close:
  "fd_file (snd (sys_close_fd d t)) k = (if k = d then None else fd_file t k)"
  by (auto simp: sys_close_fd_def fd_file_def)

lemma ns_of_new:
  assumes "new_fd n t = (d, t')"
  shows "ns_of t d = None" "ns_of t' d = Some n" "k \<noteq> d \<Longrightarrow> ns_of t' k = ns_of t k"
  using fd_file_new [OF assms] by (simp_all add: ns_of_def)

lemma ns_of_close: "ns_of (snd (sys_close_fd d t)) k = (if k = d then None else ns_of t k)"
  by (simp add: ns_of_def fd_file_close)

lemma ns_of_some: "ns_of t d = Some n \<longleftrightarrow> fd_file t d = Some (Ns n)"
  by (auto simp: ns_of_def split: option.splits fileref.splits)

lemma new_fd_lowest:
  assumes "\<forall>k < d. fd_file t k \<noteq> None" "fd_file t d = None"
  shows "\<exists>t'. new_fd n t = (d, t') \<and> (\<forall>k. fd_file t' k = (if k = d then Some (Ns n) else fd_file t k))"
proof -
  have "lowest t = d"
    using assms
  proof (induction t arbitrary: d rule: lowest.induct)
    case (3 x t)
    then obtain d' where d: "d = Suc d'" by (cases d) (auto simp: fd_file_def)
    have "\<forall>k < d'. fd_file t k \<noteq> None"
    proof (intro allI impI)
      fix k assume "k < d'"
      then show "fd_file t k \<noteq> None" using 3(2) [rule_format, of "Suc k"] d by (simp add: fd_file_def split: if_splits)
    qed
    moreover have "fd_file t d' = None" using 3(3) d by (simp add: fd_file_def split: if_splits)
    ultimately show ?case using 3(1) d by simp
  qed (auto simp: fd_file_def)
  then obtain t' where "new_fd n t = (d, t')" by (simp add: new_fd_def Let_def)
  then show ?thesis using fd_file_new [of n t d t'] by auto
qed

subsection \<open>The walk up the tree\<close>

text \<open>
  The namespaces form a forest: identity is the pair of device and inode number, and parents have smaller depth.
  \<open>walk K x y r m\<close>: going up from \<open>y\<close>, \<open>m\<close> namespaces are left behind before the parent is \<open>x\<close> (\<open>r\<close> is then the child
  of \<open>x\<close>) or the root is reached (\<open>r\<close> is \<^const>\<open>None\<close>).
\<close>

definition ns_forest :: "('n \<Rightarrow> nat) \<Rightarrow> 'n nskern \<Rightarrow> bool" where
  "ns_forest depth K \<longleftrightarrow> inj (dev_ino K) \<and> (\<forall>n p. ns_parent K n = Some p \<longrightarrow> depth p < depth n)"

definition parents :: "'n nskern \<Rightarrow> ('n \<times> 'n) set" where
  "parents K = {(p, n). ns_parent K n = Some p}"

inductive walk :: "'n nskern \<Rightarrow> 'n \<Rightarrow> 'n \<Rightarrow> 'n option \<Rightarrow> nat \<Rightarrow> bool" for K x where
  walk_found: "ns_parent K y = Some x \<Longrightarrow> walk K x y (Some y) 0"
| walk_root: "ns_parent K y = None \<Longrightarrow> walk K x y None 0"
| walk_up: "ns_parent K y = Some p \<Longrightarrow> p \<noteq> x \<Longrightarrow> walk K x p r m \<Longrightarrow> walk K x y r (Suc m)"

lemma walk_exists:
  assumes "ns_forest depth K"
  shows "\<exists>r m. walk K x y r m"
proof (induction "depth y" arbitrary: y rule: less_induct)
  case less
  show ?case
  proof (cases "ns_parent K y")
    case None
    then show ?thesis by (blast intro: walk_root)
  next
    case (Some p)
    then show ?thesis
      using less [of p] assms by (cases "p = x") (auto simp: ns_forest_def intro: walk.intros)
  qed
qed

lemma walk_child:
  "walk K x y r m \<Longrightarrow> r = Some c \<Longrightarrow> (x, c) \<in> parents K \<and> (c, y) \<in> (parents K)\<^sup>*"
proof (induction rule: walk.induct)
  case (walk_up y p r m)
  then show ?case by (auto simp: parents_def intro: rtrancl.rtrancl_into_rtrancl)
qed (auto simp: parents_def)

lemma trancl_parents:
  "(x, y) \<in> (parents K)\<^sup>+ \<longleftrightarrow> (\<exists>p. ns_parent K y = Some p \<and> (p = x \<or> (x, p) \<in> (parents K)\<^sup>+))"
  by (subst trancl_unfold_right) (auto simp: parents_def rtrancl_eq_or_trancl)

lemma walk_none: "walk K x y r m \<Longrightarrow> (x, y) \<in> (parents K)\<^sup>+ \<longleftrightarrow> r \<noteq> None"
proof (induction rule: walk.induct)
  case (walk_found y)
  then show ?case using trancl_parents [of x y K] by blast
next
  case (walk_root y)
  then show ?case using trancl_parents [of x y K] by simp
next
  case (walk_up y p r m)
  then show ?case using trancl_parents [of x y K] by simp
qed

lemma parents_depth: "ns_forest depth K \<Longrightarrow> (x, y) \<in> (parents K)\<^sup>+ \<Longrightarrow> depth x < depth y"
  by (erule trancl_induct) (auto simp: ns_forest_def parents_def dest: order.strict_trans)

lemma walk_relpow:
  assumes "ns_forest depth K" "(x, y) \<in> parents K ^^ Suc m"
  shows "\<exists>c. walk K x y (Some c) m"
  using assms(2)
proof (induction m arbitrary: y)
  case 0
  then have "ns_parent K y = Some x" by (simp add: parents_def)
  then show ?case by (blast intro: walk_found)
next
  case (Suc m)
  from Suc(2) obtain p where p: "(x, p) \<in> parents K ^^ Suc m" "ns_parent K y = Some p"
    by (auto simp: parents_def elim: relpow_Suc_E)
  have "(x, p) \<in> (parents K)\<^sup>+" using p(1) trancl_power [of "(x, p)"] by blast
  then have "p \<noteq> x" using parents_depth [OF assms(1), of x p] by auto
  then show ?case using Suc(1) [OF p(1)] p(2) by (blast intro: walk_up)
qed

lemma ns_equal_iff:
  assumes "inj (dev_ino K)" "ns_of t a = Some n" "ns_of t b = Some m"
  shows "ns_equal K a b t = Returns (n = m)"
  using assms injD [of "dev_ino K" n m] by (auto simp: ns_equal_def prod_eq_iff)

text \<open>
  The table while the walk runs: the caller's descriptor \<open>a\<close> or the spare one \<open>b\<close> holds the current namespace \<open>y\<close>, and the
  descriptor for the next one is always the other of the two.
\<close>

definition walking :: "(nat \<Rightarrow> 'n fileref option) \<Rightarrow> nat \<Rightarrow> nat \<Rightarrow> nat \<Rightarrow> 'n \<Rightarrow> 'n fdtable \<Rightarrow> bool" where
  "walking f a b d y t \<longleftrightarrow> a < b \<and> (d = a \<or> d = b) \<and> (\<forall>k < b. k \<noteq> a \<longrightarrow> f k \<noteq> None) \<and>
     (\<forall>k. fd_file t k = (if k = d then Some (Ns y) else if k = a \<or> k = b then None else f k))"

definition other :: "nat \<Rightarrow> nat \<Rightarrow> nat \<Rightarrow> nat" where
  "other a b d = (if d = a then b else a)"

lemma walking_new:
  assumes "walking f a b d y t"
  shows "\<exists>t'. new_fd n t = (other a b d, t') \<and>
     (\<forall>k. fd_file t' k = (if k = other a b d then Some (Ns n) else fd_file t k))"
  by (rule new_fd_lowest) (use assms in \<open>auto simp: walking_def other_def split: if_splits\<close>)

lemma walking_step:
  assumes w: "walking f a b d y t" and p: "ns_parent K y = Some p"
  obtains t' where "get_parent K d t = (Inr (other a b d), t')"
    "ns_of t' (other a b d) = Some p" "\<And>k. k \<noteq> a \<Longrightarrow> k \<noteq> b \<Longrightarrow> fd_file t' k = f k"
    "walking f a b d y (snd (sys_close_fd (other a b d) t'))"
    "walking f a b (other a b d) p (snd (sys_close_fd d t'))"
proof -
  obtain t' where t': "new_fd p t = (other a b d, t')"
    "\<forall>k. fd_file t' k = (if k = other a b d then Some (Ns p) else fd_file t k)"
    using walking_new [OF w, of p] by blast
  have "ns_of t d = Some y" using w by (simp add: walking_def ns_of_some)
  then have "get_parent K d t = (Inr (other a b d), t')" using p t' by (simp add: get_parent_def)
  moreover have "ns_of t' (other a b d) = Some p" using t' by (simp add: ns_of_some)
  moreover have "fd_file t' k = f k" if "k \<noteq> a" "k \<noteq> b" for k
    using that w t' by (auto simp: walking_def other_def)
  moreover have "walking f a b d y (snd (sys_close_fd (other a b d) t'))"
    and "walking f a b (other a b d) p (snd (sys_close_fd d t'))"
    using w t' unfolding walking_def by (auto simp: fd_file_close other_def)
  ultimately show ?thesis using that by blast
qed

lemma is_ancestor_userns_walk:
  assumes "walk K x y r m" and inj: "inj (dev_ino K)" and x: "f fd_x = Some (Ns x)" "fd_x \<noteq> a" "fd_x \<noteq> b"
    and "walking f a b d y t"
  shows "\<exists>t' d' y'. is_ancestor_userns K fd_x d t = Some (Returns (map_option (\<lambda>_. d') r), t') \<and>
     walking f a b d' y' t' \<and> (\<forall>c. r = Some c \<longrightarrow> y' = c) \<and> (d' = d \<longleftrightarrow> even m)"
  using assms(1,6)
proof (induction arbitrary: d t rule: walk.induct)
  case (walk_found y)
  show ?case
  proof (rule walking_step [OF walk_found(2,1)])
    fix t' assume s: "get_parent K d t = (Inr (other a b d), t')" "ns_of t' (other a b d) = Some x"
      "\<And>k. k \<noteq> a \<Longrightarrow> k \<noteq> b \<Longrightarrow> fd_file t' k = f k" "walking f a b d y (snd (sys_close_fd (other a b d) t'))"
    have "ns_of t' fd_x = Some x" using s(3) x by (simp add: ns_of_some)
    then show ?thesis
      using s ns_equal_iff [OF inj s(2)] by (subst is_ancestor_userns.simps) auto
  qed
next
  case (walk_root y)
  then have "get_parent K d t = (Inl EPERM, t)"
    by (simp add: get_parent_def walking_def ns_of_def)
  then show ?case using walk_root by (subst is_ancestor_userns.simps) auto
next
  case (walk_up y p r m)
  have ab: "a \<noteq> b" "d = a \<or> d = b" using walk_up(5) by (auto simp: walking_def)
  show ?case
  proof (rule walking_step [OF walk_up(5,1)])
    fix t' assume s: "get_parent K d t = (Inr (other a b d), t')" "ns_of t' (other a b d) = Some p"
      "\<And>k. k \<noteq> a \<Longrightarrow> k \<noteq> b \<Longrightarrow> fd_file t' k = f k"
      and w: "walking f a b (other a b d) p (snd (sys_close_fd d t'))"
    have "ns_of t' fd_x = Some x" using s(3) x by (simp add: ns_of_some)
    then have eq: "is_ancestor_userns K fd_x d t = is_ancestor_userns K fd_x (other a b d) (snd (sys_close_fd d t'))"
      using s ns_equal_iff [OF inj s(2)] walk_up(2)
      by (subst is_ancestor_userns.simps) simp
    obtain t2 d' y' where r: "is_ancestor_userns K fd_x d t = Some (Returns (map_option (\<lambda>_. d') r), t2)"
      "walking f a b d' y' t2" "\<forall>c. r = Some c \<longrightarrow> y' = c" "d' = other a b d \<longleftrightarrow> even m"
      using walk_up(4) [OF w] eq by auto
    have "d' = a \<or> d' = b" using r(2) by (simp add: walking_def)
    then have "d' = d \<longleftrightarrow> even (Suc m)" using r(4) ab by (auto simp: other_def)
    then show ?thesis using r by blast
  qed
qed

subsection \<open>The verdict and the exit status\<close>

text \<open>What the program prints: the verdict for the namespace \<open>p\<close> of the process and the user namespace \<open>u\<close> of the target.\<close>

definition verdict :: "'n nskern \<Rightarrow> string \<Rightarrow> 'n option \<Rightarrow> string" where
  "verdict K pid_str r =
     (case r of
        None \<Rightarrow> text_not_ancestor pid_str
      | Some c \<Rightarrow>
          if map_option Inr (case euid_of_process K (atoi pid_str) of Returns e \<Rightarrow> Some e | _ \<Rightarrow> None) = Some (owner_uid K c)
          then text_ancestor pid_str True
          else text_ancestor pid_str False @
            (case caps_text K (atoi pid_str) of None \<Rightarrow> [] | Some s \<Rightarrow> ''Capabilities: '' @ s @ ''\<newline>''))"

text \<open>The information about the process and the owners of namespaces can be read.\<close>

definition readable :: "'n nskern \<Rightarrow> int \<Rightarrow> bool" where
  "readable K pid \<longleftrightarrow> (\<exists>e. euid_of_process K pid = Returns e) \<and> caps_text K pid \<noteq> None \<and>
     (\<forall>n. \<exists>u. owner_uid K n = Inr u)"

lemma close_all_walking:
  assumes w: "walking f a b d y t" and x: "f q = Some g" "q \<noteq> a" "q \<noteq> b"
  shows "close_all [a, q] t = Exits (if d = a then 0 else 1)"
    and "close_all ((if d \<noteq> a then [d] else []) @ [a, q]) t = Exits (if d = a then 0 else 1)"
proof -
  have ft: "fd_file t k = (if k = d then Some (Ns y) else if k = a \<or> k = b then None else f k)" for k
    using w by (simp add: walking_def)
  have "a \<noteq> b" "d = a \<or> d = b" using w by (auto simp: walking_def)
  then show "close_all [a, q] t = Exits (if d = a then 0 else 1)"
    and "close_all ((if d \<noteq> a then [d] else []) @ [a, q]) t = Exits (if d = a then 0 else 1)"
    using x fd_file_close [of a t q] fd_file_close [of d t a]
    by (auto simp: close_all_def sys_close_fd_def ft split: if_splits)
qed

lemma ns_judge_walk:
  assumes w: "walk K p u r m" and inj: "inj (dev_ino K)" and ne: "p \<noteq> u"
    and x: "f q = Some (Ns p)" "q \<noteq> a" "q \<noteq> b" and t: "walking f a b a u t" and rd: "readable K (atoi pid_str)"
  shows "ns_judge K pid_str a q t = Some (Exits (int (m mod 2)), verdict K pid_str r)"
proof -
  have q: "ns_of t q = Some p" "ns_of t a = Some u" using x t by (auto simp: walking_def ns_of_some)
  obtain t' d y where s: "is_ancestor_userns K q a t = Some (Returns (map_option (\<lambda>_. d) r), t')"
    and w': "walking f a b d y t'" and y: "\<forall>c. r = Some c \<longrightarrow> y = c" and m: "d = a \<longleftrightarrow> even m"
    using is_ancestor_userns_walk [OF w inj x t] by blast
  have st: "int (m mod 2) = (if d = a then 0 else 1)" using m by (simp add: even_iff_mod_2_eq_zero)
  obtain e s' where e: "euid_of_process K (atoi pid_str) = Returns e" "caps_text K (atoi pid_str) = Some s'"
    using rd by (auto simp: readable_def)
  have eq: "ns_equal K q a t = Returns False" using ns_equal_iff [OF inj q] ne by simp
  note cl = close_all_walking [OF w' x]
  show ?thesis
  proof (cases r)
    case None
    then show ?thesis using s cl(1) eq st by (simp add: ns_judge_def verdict_def)
  next
    case (Some c)
    obtain o' where o': "owner_uid K c = Inr o'" using rd unfolding readable_def by blast
    have "uid_of_userns_owner K d t' = Returns o'"
      using w' y Some o' by (simp add: uid_of_userns_owner_def walking_def ns_of_def)
    then show ?thesis
      using s cl(2) eq st Some e o'
      by (auto simp: ns_judge_def verdict_def display_process_capabilities_def Let_def)
  qed
qed

definition std_fds :: "'n fdtable" where
  "std_fds = [Some Tty, Some Tty, Some Tty]"

text \<open>The user namespace that governs a namespace: itself, or the one that owns it.\<close>

definition governs :: "'n nskern \<Rightarrow> 'n \<Rightarrow> 'n \<Rightarrow> bool" where
  "governs K n u \<longleftrightarrow> (if nstype K n = CLONE_NEWUSER then u = n else owning_ns K n = Inr u)"

lemma walking_std:
  "walking (fd_file [Some Tty, Some Tty, Some Tty, Some (Ns u), Some (Ns p)]) 3 5 3 u
     [Some Tty, Some Tty, Some Tty, Some (Ns u), Some (Ns p)]"
  "walking (fd_file [Some Tty, Some Tty, Some Tty, Some (Ns p), Some (Ns u)]) 4 5 4 u
     [Some Tty, Some Tty, Some Tty, Some (Ns p), Some (Ns u)]"
  by (auto simp: walking_def fd_file_def less_Suc_eq numeral_eq_Suc nth_Cons')

lemma ns_capable_main_walk:
  assumes n: "ns_path K f = Some n" "governs K n u"
    and p: "ns_path K (snprintf 4096 (''/proc/'' @ pid_str @ ''/ns/user'')) = Some p"
    and w: "walk K p u r m" and inj: "inj (dev_ino K)" and ne: "p \<noteq> u" and rd: "readable K (atoi pid_str)"
  shows "ns_capable_main K [pid_str, f] std_fds = Some (Exits (int (m mod 2)), verdict K pid_str r)"
proof (cases "nstype K n = CLONE_NEWUSER")
  case True
  have "ns_capable_main K [pid_str, f] std_fds =
    ns_judge K pid_str 3 4 [Some Tty, Some Tty, Some Tty, Some (Ns u), Some (Ns p)]"
    using n p True
    by (simp add: ns_capable_main_def std_fds_def new_fd_def ns_type_def governs_def ns_of_def fd_file_def nth_append
        eval_nat_numeral)
  moreover have "\<dots> = Some (Exits (int (m mod 2)), verdict K pid_str r)"
    by (rule ns_judge_walk [OF w inj ne _ _ _ walking_std(1) rd]) (simp_all add: fd_file_def)
  ultimately show ?thesis by simp
next
  case False
  have "ns_capable_main K [pid_str, f] std_fds =
    ns_judge K pid_str 4 3 [Some Tty, Some Tty, Some Tty, Some (Ns p), Some (Ns u)]"
    using n p False
    by (simp add: ns_capable_main_def std_fds_def new_fd_def ns_type_def governs_def ns_of_def fd_file_def nth_append
        owning_userns_of_def sys_close_fd_def list_update_append eval_nat_numeral)
  moreover have "\<dots> = Some (Exits (int (m mod 2)), verdict K pid_str r)"
    by (rule ns_judge_walk [OF w inj ne _ _ _ walking_std(2) rd]) (simp_all add: fd_file_def)
  ultimately show ?thesis by simp
qed

subsection \<open>What the program shows\<close>

text \<open>
  C14: for a process outside the target's user namespace the program always ends and prints the verdict of
  the rules for capabilities in user namespaces: none when the namespace of the process is not an ancestor of the
  target's, all of them when the process owns the child of its namespace on the path down to the target, and
  its own capability sets otherwise.
\<close>

theorem ns_capable_verdict:
  assumes "ns_forest depth K" "ns_path K f = Some n" "governs K n u"
    and "ns_path K (snprintf 4096 (''/proc/'' @ pid_str @ ''/ns/user'')) = Some p" "p \<noteq> u" "readable K (atoi pid_str)"
  shows "\<exists>st r. ns_capable_main K [pid_str, f] std_fds = Some (Exits st, verdict K pid_str r) \<and>
     (r = None \<longleftrightarrow> (p, u) \<notin> (parents K)\<^sup>+) \<and>
     (\<forall>c. r = Some c \<longrightarrow> (p, c) \<in> parents K \<and> (c, u) \<in> (parents K)\<^sup>*)"
proof -
  have inj: "inj (dev_ino K)" using assms(1) by (simp add: ns_forest_def)
  obtain r m where w: "walk K p u r m" using walk_exists [OF assms(1)] by blast
  show ?thesis
  proof (intro exI conjI allI impI)
    show "ns_capable_main K [pid_str, f] std_fds = Some (Exits (int (m mod 2)), verdict K pid_str r)"
      by (rule ns_capable_main_walk [OF assms(2,3,4) w inj assms(5,6)])
  qed (use walk_none [OF w] walk_child [OF w] in auto)
qed

text \<open>A kernel with the chain of user namespaces 0, 1, 2, where 2 is the target and process 7 lives in 0.\<close>

definition chain_kern :: "nat nskern" where
  "chain_kern = \<lparr> dev_ino = (\<lambda>n. (4, n)), nstype = (\<lambda>_. CLONE_NEWUSER), owning_ns = (\<lambda>_. Inl EINVAL),
     ns_parent = (\<lambda>n. if n = 1 then Some 0 else if n = 2 then Some 1 else None), owner_uid = (\<lambda>_. Inr 1000),
     ns_path = (\<lambda>s. if s = ''target'' then Some 2 else if s = ''/proc/7/ns/user'' then Some 0 else None),
     status_file = (\<lambda>_. Some [''Uid: 1000 1000 1000 1000'']), caps_text = (\<lambda>_. Some ''='') \<rparr>"

lemma chain_kern_ok:
  "ns_forest id chain_kern" "ns_path chain_kern ''target'' = Some 2" "governs chain_kern 2 2"
  "ns_path chain_kern (snprintf 4096 (''/proc/'' @ ''7'' @ ''/ns/user'')) = Some 0" "readable chain_kern (atoi ''7'')"
  "(0, 2) \<in> parents chain_kern ^^ Suc 1"
proof -
  show "ns_forest id chain_kern" by (auto simp: ns_forest_def chain_kern_def inj_def split: if_splits)
  show "ns_path chain_kern ''target'' = Some 2" "governs chain_kern 2 2"
    "ns_path chain_kern (snprintf 4096 (''/proc/'' @ ''7'' @ ''/ns/user'')) = Some 0"
    by (simp_all add: chain_kern_def governs_def snprintf_def)
  have "euid_of_process chain_kern (atoi ''7'') = Returns 1000"
    by code_simp
  then show "readable chain_kern (atoi ''7'')" by (simp add: readable_def chain_kern_def)
  show "(0, 2) \<in> parents chain_kern ^^ Suc 1"
    by (auto simp: parents_def chain_kern_def relcomp_unfold)
qed

theorem ns_capable_verdict_witness:
  "\<exists>st r. ns_capable_main chain_kern [''7'', ''target''] std_fds = Some (Exits st, verdict chain_kern ''7'' r) \<and>
     (r = None \<longleftrightarrow> (0, 2) \<notin> (parents chain_kern)\<^sup>+) \<and>
     (\<forall>c. r = Some c \<longrightarrow> (0, c) \<in> parents chain_kern \<and> (c, 2) \<in> (parents chain_kern)\<^sup>*)"
  by (rule ns_capable_verdict [OF chain_kern_ok(1-4) _ chain_kern_ok(5)]) simp

text \<open>
  The walk closes the descriptor of its caller, and the numbers of closed descriptors are used again: the last part of the
  program then closes a descriptor twice.  When the process lives an even number of levels above the target the
  program fails with \<open>EBADF\<close>, after it has printed the verdict.
\<close>

theorem ns_capable_exit_status:
  assumes "ns_forest depth K" "ns_path K f = Some n" "governs K n u"
    and "ns_path K (snprintf 4096 (''/proc/'' @ pid_str @ ''/ns/user'')) = Some p" "readable K (atoi pid_str)"
    and "(p, u) \<in> parents K ^^ Suc m"
  shows "\<exists>c. ns_capable_main K [pid_str, f] std_fds = Some (Exits (int (m mod 2)), verdict K pid_str (Some c))"
proof -
  have inj: "inj (dev_ino K)" using assms(1) by (simp add: ns_forest_def)
  have "(p, u) \<in> (parents K)\<^sup>+" using assms(6) trancl_power [of "(p, u)"] by blast
  then have "p \<noteq> u" using parents_depth [OF assms(1), of p u] by auto
  then show ?thesis
    using walk_relpow [OF assms(1,6)] ns_capable_main_walk [OF assms(2,3,4) _ inj _ assms(5)] by blast
qed

theorem ns_capable_exit_status_witness:
  "\<exists>c. ns_capable_main chain_kern [''7'', ''target''] std_fds = Some (Exits (int (1 mod 2)), verdict chain_kern ''7'' (Some c))"
  by (rule ns_capable_exit_status [OF chain_kern_ok])

end
