(* ===== verification/Getopt.thy ===== *)
theory Getopt
  imports C_String
begin

text \<open>
  The C library's \<open>getopt\<close> with an option string that starts with \<open>+\<close>, which stops it at the first argument that is
  not an option.  The function below gives all results of the usual loop at once: the option characters with
  their arguments (\<open>?\<close> for an unknown option or a missing argument) and the operands that are left.
\<close>

definition is_opt :: "string \<Rightarrow> char \<Rightarrow> bool" where
  "is_opt spec c \<longleftrightarrow> c \<noteq> CHR '':'' \<and> c \<noteq> CHR '';'' \<and> c \<in> set spec"

fun takes_arg :: "string \<Rightarrow> char \<Rightarrow> bool" where
  "takes_arg (a # b # spec) c = (if a = c then b = CHR '':'' else takes_arg (b # spec) c)"
| "takes_arg _ c = False"

fun getopt :: "string \<Rightarrow> string \<Rightarrow> string list \<Rightarrow> (char \<times> string option) list \<times> string list" where
  "getopt spec (c # cs) args =
     (if \<not> is_opt spec c then (let (os, r) = getopt spec cs args in ((CHR ''?'', None) # os, r))
      else if \<not> takes_arg spec c then (let (os, r) = getopt spec cs args in ((c, None) # os, r))
      else if cs \<noteq> [] then (let (os, r) = getopt spec [] args in ((c, Some cs) # os, r))
      else (case args of
              [] \<Rightarrow> ([(CHR ''?'', None)], [])
            | a # as \<Rightarrow> (let (os, r) = getopt spec [] as in ((c, Some a) # os, r))))"
| "getopt spec [] [] = ([], [])"
| "getopt spec [] (a # as) =
     (if a = ''--'' then ([], as)
      else if a = [] \<or> hd a \<noteq> CHR ''-'' \<or> a = ''-'' then ([], a # as)
      else getopt spec (tl a) as)"

text \<open>Every option that is reported is one of the option string, with an argument exactly when it takes one.\<close>

definition opt_ok :: "string \<Rightarrow> char \<times> string option \<Rightarrow> bool" where
  "opt_ok spec p \<longleftrightarrow> p = (CHR ''?'', None) \<or> is_opt spec (fst p) \<and> (snd p \<noteq> None \<longleftrightarrow> takes_arg spec (fst p))"

lemma getopt_ok: "getopt spec cs args = (os, r) \<Longrightarrow> p \<in> set os \<Longrightarrow> opt_ok spec p"
  by (induction spec cs args arbitrary: os r rule: getopt.induct)
    (auto simp: opt_ok_def split: if_splits prod.splits list.splits)

text \<open>The operands are the last arguments.\<close>

lemma getopt_operands: "\<exists>front. args = front @ snd (getopt spec cs args)"
proof (induction spec cs args rule: getopt.induct)
  case (1 spec c cs args)
  then show ?case by (auto split: prod.splits list.splits)
next
  case (3 spec a as)
  then show ?case by (auto split: prod.splits) (metis append_Cons)+
qed simp

end
