(* ===== verification/Userns.thy ===== *)
theory Userns
  imports Ns_Capable Getopt Threads
begin

text \<open>
  The program \<open>namespaces/userns_child_exec.c\<close>, which runs a command in new namespaces, with the libraries
  \<open>namespaces/userns_functions.c\<close> and \<open>cap/cap_functions.c\<close>.  System calls and the capabilities library are parameters.
  Standard output is a terminal, and \<open>diag\<close> holds the diagnostics with a fixed text; those that only print \<open>errno\<close> are
  not part of the state.
\<close>

subsection \<open>The system\<close>

datatype cap_flag = CAP_EFFECTIVE | CAP_PERMITTED | CAP_INHERITABLE

datatype prctl_op = Ambient_raise int | Ambient_lower int | Capbset_drop int | Set_securebits "32 word" | Set_dumpable

record ('w, 'c) uops =
  cap_get_proc :: "'w \<Rightarrow> 'c option"
  cap_set_flag :: "cap_flag \<Rightarrow> int \<Rightarrow> bool \<Rightarrow> 'c \<Rightarrow> 'c option"
  cap_set_proc :: "'c \<Rightarrow> 'w \<Rightarrow> bool \<times> 'w"
  cap_free :: "'c \<Rightarrow> bool"
  cap_to_text :: "'c \<Rightarrow> string option"
  cap_from_text :: "string \<Rightarrow> 'c option"
  cap_from_name :: "string \<Rightarrow> int option"
  CAP_LAST_CAP :: nat
  prctl :: "prctl_op \<Rightarrow> 'w \<Rightarrow> bool \<times> 'w"
  setresuid :: "32 word \<Rightarrow> 32 word \<Rightarrow> 32 word \<Rightarrow> 'w \<Rightarrow> bool \<times> 'w"
  sleep :: "32 word \<Rightarrow> 'w \<Rightarrow> 'w"
  geteuid :: "'w \<Rightarrow> 32 word"
  getegid :: "'w \<Rightarrow> 32 word"
  getuid :: "'w \<Rightarrow> 32 word"
  getgid :: "'w \<Rightarrow> 32 word"
  open_rdwr :: "string \<Rightarrow> 'w \<Rightarrow> nat sysres \<times> 'w"
  write_fd :: "nat \<Rightarrow> string \<Rightarrow> 'w \<Rightarrow> nat sysres \<times> 'w"
  close_fd :: "nat \<Rightarrow> 'w \<Rightarrow> 'w"
  execvp :: "string list \<Rightarrow> 'w \<Rightarrow> bool"

record 'w ust =
  world :: 'w
  out :: string
  diag :: "string list"

definition printf :: "string \<Rightarrow> 'w ust \<Rightarrow> 'w ust" where
  "printf t s = s\<lparr>out := out s @ t\<rparr>"

definition complain :: "string \<Rightarrow> 'w ust \<Rightarrow> 'w ust" where
  "complain t s = s\<lparr>diag := diag s @ [t]\<rparr>"

definition call :: "('w \<Rightarrow> 'r \<times> 'w) \<Rightarrow> 'w ust \<Rightarrow> 'r \<times> 'w ust" where
  "call f s = (case f (world s) of (r, w) \<Rightarrow> (r, s\<lparr>world := w\<rparr>))"

text \<open>A call whose failure ends the program.\<close>

definition or_exit :: "bool \<times> 's \<Rightarrow> unit outcome \<times> 's" where
  "or_exit p = (if fst p then Returns () else Exits 1, snd p)"

subsection \<open>The libraries\<close>

definition display_creds_and_caps :: "('w, 'c) uops \<Rightarrow> string \<Rightarrow> 'w ust \<Rightarrow> unit outcome \<times> 'w ust" where
  "display_creds_and_caps K str s =
     (let s = printf (str @ ''eUID = '' @ show_int (uint (geteuid K (world s))) @
                ''; eGID='' @ show_int (uint (getegid K (world s))) @ '';  '') s in
      case cap_get_proc K (world s) of
        None \<Rightarrow> (Exits 1, s)
      | Some caps \<Rightarrow>
          (case cap_to_text K caps of
             None \<Rightarrow> (Exits 1, s)
           | Some t \<Rightarrow> (Returns (), printf (''capabilities: '' @ t @ ''\<newline>'') s)))"

definition newlines :: "string \<Rightarrow> string" where
  "newlines m = map (\<lambda>c. if c = CHR '','' then CHR ''\<newline>'' else c) m"

text \<open>\<open>update_map()\<close> and \<open>proc_setgroups_write()\<close>: \<^const>\<open>True\<close> is the result 0, \<^const>\<open>False\<close> is \<open>-1\<close>.\<close>

definition update_map :: "('w, 'c) uops \<Rightarrow> string \<Rightarrow> string \<Rightarrow> 'w ust \<Rightarrow> bool \<times> 'w ust" where
  "update_map K mapping map_file s =
     (case call (open_rdwr K map_file) s of
        (Inl _, s) \<Rightarrow> (False, s)
      | (Inr d, s) \<Rightarrow>
          (case call (write_fd K d (newlines mapping)) s of
             (r, s) \<Rightarrow> (r = Inr (length mapping), snd (call (\<lambda>w. ((), close_fd K d w)) s))))"

definition proc_setgroups_write :: "('w, 'c) uops \<Rightarrow> int \<Rightarrow> string \<Rightarrow> 'w ust \<Rightarrow> bool \<times> 'w ust" where
  "proc_setgroups_write K child_pid str s =
     (case call (open_rdwr K (snprintf 4096 (''/proc/'' @ show_int child_pid @ ''/setgroups''))) s of
        (Inl e, s) \<Rightarrow> (e = ENOENT, s)
      | (Inr d, s) \<Rightarrow>
          (case call (write_fd K d str) s of
             (r, s) \<Rightarrow> (case r of Inl _ \<Rightarrow> False | Inr _ \<Rightarrow> True, snd (call (\<lambda>w. ((), close_fd K d w)) s))))"

definition modifyCapSetting :: "('w, 'c) uops \<Rightarrow> cap_flag \<Rightarrow> int \<Rightarrow> bool \<Rightarrow> 'w ust \<Rightarrow> bool \<times> 'w ust" where
  "modifyCapSetting K flag capability setting s =
     (case cap_get_proc K (world s) of
        None \<Rightarrow> (False, s)
      | Some caps \<Rightarrow>
          (case cap_set_flag K flag capability setting caps of
             None \<Rightarrow> (False, s)
           | Some caps \<Rightarrow>
               (case call (cap_set_proc K caps) s of
                  (ok, s) \<Rightarrow> (ok \<and> cap_free K caps, s))))"

definition SECBIT_NOROOT :: "32 word" where "SECBIT_NOROOT = 0x1"
definition SECBIT_NOROOT_LOCKED :: "32 word" where "SECBIT_NOROOT_LOCKED = 0x2"
definition SECBIT_NO_SETUID_FIXUP :: "32 word" where "SECBIT_NO_SETUID_FIXUP = 0x4"
definition SECBIT_NO_SETUID_FIXUP_LOCKED :: "32 word" where "SECBIT_NO_SETUID_FIXUP_LOCKED = 0x8"
definition SECBIT_KEEP_CAPS :: "32 word" where "SECBIT_KEEP_CAPS = 0x10"
definition SECBIT_KEEP_CAPS_LOCKED :: "32 word" where "SECBIT_KEEP_CAPS_LOCKED = 0x20"
definition SECBIT_NO_CAP_AMBIENT_RAISE :: "32 word" where "SECBIT_NO_CAP_AMBIENT_RAISE = 0x40"
definition SECBIT_NO_CAP_AMBIENT_RAISE_LOCKED :: "32 word" where "SECBIT_NO_CAP_AMBIENT_RAISE_LOCKED = 0x80"

lemmas secbit_defs = SECBIT_NOROOT_def SECBIT_NOROOT_LOCKED_def SECBIT_NO_SETUID_FIXUP_def
  SECBIT_NO_SETUID_FIXUP_LOCKED_def SECBIT_KEEP_CAPS_def SECBIT_KEEP_CAPS_LOCKED_def
  SECBIT_NO_CAP_AMBIENT_RAISE_def SECBIT_NO_CAP_AMBIENT_RAISE_LOCKED_def

definition secbitInfoList :: "(32 word \<times> string \<times> char) list" where
  "secbitInfoList =
     [(SECBIT_NO_CAP_AMBIENT_RAISE, ''NO_CAP_AMBIENT_RAISE'', CHR ''a''),
      (SECBIT_NO_CAP_AMBIENT_RAISE_LOCKED, ''NO_CAP_AMBIENT_RAISE_LOCKED'', CHR ''A''),
      (SECBIT_KEEP_CAPS, ''KEEP_CAPS'', CHR ''k''),
      (SECBIT_KEEP_CAPS_LOCKED, ''KEEP_CAPS_LOCKED'', CHR ''K''),
      (SECBIT_NOROOT, ''NOROOT'', CHR ''r''),
      (SECBIT_NOROOT_LOCKED, ''NOROOT_LOCKED'', CHR ''R''),
      (SECBIT_NO_SETUID_FIXUP, ''NO_SETUID_FIXUP'', CHR ''s''),
      (SECBIT_NO_SETUID_FIXUP_LOCKED, ''NO_SETUID_FIXUP_LOCKED'', CHR ''S'')]"

unbundle bit_operations_syntax

fun verbose_bits :: "32 word \<Rightarrow> nat \<Rightarrow> (32 word \<times> string \<times> char) list \<Rightarrow> string" where
  "verbose_bits secbits printed [] = []"
| "verbose_bits secbits printed ((flag, name, letter) # ps) =
     (if secbits AND flag \<noteq> 0
      then (if printed > 0 then '', '' else []) @ name @ verbose_bits secbits (Suc printed) ps
      else verbose_bits secbits printed ps)"

definition printSecbits :: "32 word \<Rightarrow> bool \<Rightarrow> string" where
  "printSecbits secbits verb =
     (if verb then ''['' @ verbose_bits secbits 0 secbitInfoList @ '']''
      else map (\<lambda>(flag, name, letter). if secbits AND flag \<noteq> 0 then letter else CHR ''-'') secbitInfoList)"

subsection \<open>The options that the child performs\<close>

text \<open>The capability sets are changed as far as possible: failures are ignored.\<close>

fun raise_caps :: "('w, 'c) uops \<Rightarrow> bool \<Rightarrow> nat list \<Rightarrow> 'w ust \<Rightarrow> 'w ust" where
  "raise_caps K doAmbient [] s = s"
| "raise_caps K doAmbient (cap # caps) s =
     (let s = snd (modifyCapSetting K CAP_INHERITABLE (int cap) True s);
          s = (if doAmbient then snd (call (prctl K (Ambient_raise (int cap))) s) else s)
      in raise_caps K doAmbient caps s)"

definition raiseInheritableAndAmbientCaps :: "('w, 'c) uops \<Rightarrow> bool \<Rightarrow> 'w ust \<Rightarrow> 'w ust" where
  "raiseInheritableAndAmbientCaps K doAmbient s = raise_caps K doAmbient [0..<Suc (CAP_LAST_CAP K)] s"

definition is_op :: "char \<Rightarrow> bool" where
  "is_op c \<longleftrightarrow> c = CHR ''+'' \<or> c = CHR ''-''"

fun modify_sets :: "('w, 'c) uops \<Rightarrow> char \<Rightarrow> string \<Rightarrow> int \<Rightarrow> string \<Rightarrow> 'w ust \<Rightarrow> unit outcome \<times> 'w ust" where
  "modify_sets K op1 name cap [] s = (Returns (), s)"
| "modify_sets K op1 name cap (p # ps) s =
     andthen
       (if p = CHR ''p'' \<or> p = CHR ''i'' \<or> p = CHR ''e'' then
          (let flag = (if p = CHR ''p'' then CAP_PERMITTED else if p = CHR ''e'' then CAP_EFFECTIVE else CAP_INHERITABLE);
               capval = (op1 = CHR ''+'') in
           case modifyCapSetting K flag cap capval s of
             (True, s) \<Rightarrow> (Returns (), s)
           | (False, s) \<Rightarrow>
               (Exits 1, complain (''-X: modifyCapSetting() failed while '' @ (if capval then ''raising'' else ''lowering'') @
                  '' '' @ [CHR 0x27] @ name @ [CHR 0x27] @ '' in '' @ [CHR 0x27] @ [p] @ [CHR 0x27]) s))
        else if p = CHR ''b'' then
          (if op1 = CHR ''+'' then (Exits 1, complain (''Can'' @ [CHR 0x27] @ ''t add capabilities to the bounding set'') s)
           else or_exit (call (prctl K (Capbset_drop cap)) s))
        else if p = CHR ''a'' then
          or_exit (call (prctl K (if op1 = CHR ''+'' then Ambient_raise cap else Ambient_lower cap)) s)
        else (Exits 1, complain (''Bad switch case ('' @ [CHR 0x27] @ ''-X'' @ [CHR 0x27] @ ''): '' @ [p]) s))
       (\<lambda>_ s. modify_sets K op1 name cap ps s)"

definition modify_individual_capability :: "('w, 'c) uops \<Rightarrow> string \<Rightarrow> 'w ust \<Rightarrow> unit outcome \<times> 'w ust" where
  "modify_individual_capability K optval s =
     (let sets = takeWhile (\<lambda>c. \<not> is_op c) optval;
          rest = dropWhile (\<lambda>c. \<not> is_op c) optval;
          bad_cap = (\<exists>c \<in> set sets. c \<notin> set ''peiba'')
      in if rest = [] \<or> tl rest = [] \<or> bad_cap then (Exits 1, complain ''Badly formed -X option'' s)
         else (case cap_from_name K (tl rest) of
                 None \<Rightarrow> (Exits 1, complain ''-X: bad capability name'' s)
               | Some cap \<Rightarrow> modify_sets K (hd rest) (tl rest) cap sets s))"

text \<open>The mask that a string of letters stands for, \<open>Inl c\<close> for the first letter that stands for nothing.\<close>

fun secbits_of :: "32 word \<Rightarrow> string \<Rightarrow> char + 32 word" where
  "secbits_of secbits [] = Inr secbits"
| "secbits_of secbits (p # ps) =
     (if p = CHR ''a'' then secbits_of (secbits OR SECBIT_NO_CAP_AMBIENT_RAISE) ps
      else if p = CHR ''A'' then secbits_of (secbits OR SECBIT_NO_CAP_AMBIENT_RAISE_LOCKED) ps
      else if p = CHR ''k'' then secbits_of (secbits OR SECBIT_KEEP_CAPS) ps
      else if p = CHR ''K'' then secbits_of (secbits OR SECBIT_KEEP_CAPS_LOCKED) ps
      else if p = CHR ''r'' then secbits_of (secbits OR SECBIT_NOROOT) ps
      else if p = CHR ''R'' then secbits_of (secbits OR SECBIT_NOROOT_LOCKED) ps
      else if p = CHR ''s'' then secbits_of (secbits OR SECBIT_NO_SETUID_FIXUP) ps
      else if p = CHR ''S'' then secbits_of (secbits OR SECBIT_NO_SETUID_FIXUP_LOCKED) ps
      else if p = CHR ''0'' then secbits_of 0 ps
      else Inl p)"

definition set_securebits :: "('w, 'c) uops \<Rightarrow> string \<Rightarrow> 'w ust \<Rightarrow> unit outcome \<times> 'w ust" where
  "set_securebits K optval s =
     (case secbits_of 0 optval of
        Inl p \<Rightarrow> (Exits 1, complain (''Unexpected value for '' @ [CHR 0x27] @ ''-b'' @ [CHR 0x27] @ '' (securebits flag): '' @ [p]) s)
      | Inr secbits \<Rightarrow> or_exit (call (prctl K (Set_securebits secbits)) s))"

definition set_process_uids :: "('w, 'c) uops \<Rightarrow> string \<Rightarrow> 'w ust \<Rightarrow> unit outcome \<times> 'w ust" where
  "set_process_uids K optval s =
     (let r = takeWhile (\<lambda>c. c \<noteq> CHR '','') optval; rest1 = dropWhile (\<lambda>c. c \<noteq> CHR '','') optval;
          e = takeWhile (\<lambda>c. c \<noteq> CHR '','') (tl rest1); rest2 = dropWhile (\<lambda>c. c \<noteq> CHR '','') (tl rest1)
      in if rest1 = [] \<or> rest2 = [] then
           (Exits 1, complain (''Expected three comma-separated UIDs: -S '' @ optval) s)
         else or_exit (call (setresuid K (word_of_int (atoi r)) (word_of_int (atoi e)) (word_of_int (atoi (tl rest2)))) s))"

text \<open>One repeatable option; \<open>display_cnt\<close> counts the displays.\<close>

definition perform_option ::
    "('w, 'c) uops \<Rightarrow> char \<Rightarrow> string option \<Rightarrow> nat \<Rightarrow> 'w ust \<Rightarrow> nat outcome \<times> 'w ust" where
  "perform_option K opt val display_cnt s =
     (if opt = CHR ''a'' then (Returns display_cnt, raiseInheritableAndAmbientCaps K True s)
      else if opt = CHR ''d'' then
        (let display_cnt = Suc display_cnt in
         andthen (display_creds_and_caps K (snprintf 10 (''[-d '' @ show_int (int display_cnt) @ ''] '')) s)
           (\<lambda>_ s. (Returns display_cnt, s)))
      else if opt = CHR ''h'' then (Returns display_cnt, raiseInheritableAndAmbientCaps K False s)
      else if opt \<in> set ''bsSwxX'' then
        (case val of
           None \<Rightarrow> (Undefined, s)
         | Some v \<Rightarrow>
             andthen
               (if opt = CHR ''b'' then set_securebits K v s
                else if opt = CHR ''s'' then
                  (let newuid = word_of_int (atoi v) in or_exit (call (setresuid K newuid newuid newuid) s))
                else if opt = CHR ''S'' then set_process_uids K v s
                else if opt = CHR ''w'' then (Returns (), snd (call (\<lambda>w. ((), sleep K (word_of_int (atoi v)) w)) s))
                else if opt = CHR ''x'' then
                  (case cap_from_text K v of
                     None \<Rightarrow> (Exits 1, s)
                   | Some caps \<Rightarrow> or_exit (call (cap_set_proc K caps) s))
                else modify_individual_capability K v s)
               (\<lambda>_ s. (Returns display_cnt, s)))
      else (Returns display_cnt,
            complain (''Unexpected option (-'' @ [opt] @ '') in perform_repeatable_options()'') s))"

fun perform_repeatable_options ::
    "('w, 'c) uops \<Rightarrow> (char \<times> string option) list \<Rightarrow> nat \<Rightarrow> 'w ust \<Rightarrow> unit outcome \<times> 'w ust" where
  "perform_repeatable_options K [] n s = (Returns (), s)"
| "perform_repeatable_options K ((opt, val) # os) n s =
     andthen (perform_option K opt val n s) (\<lambda>n s. perform_repeatable_options K os n s)"

subsection \<open>Command line\<close>

definition MAX_OPT :: nat where
  "MAX_OPT = 100"

definition CLONE_NEWNS :: "32 word" where "CLONE_NEWNS = 0x00020000"
definition CLONE_NEWCGROUP :: "32 word" where "CLONE_NEWCGROUP = 0x02000000"
definition CLONE_NEWUTS :: "32 word" where "CLONE_NEWUTS = 0x04000000"
definition CLONE_NEWIPC :: "32 word" where "CLONE_NEWIPC = 0x08000000"
definition CLONE_NEWUSERNS :: "32 word" where "CLONE_NEWUSERNS = word_of_int CLONE_NEWUSER"
definition CLONE_NEWPID :: "32 word" where "CLONE_NEWPID = 0x20000000"
definition CLONE_NEWNET :: "32 word" where "CLONE_NEWNET = 0x40000000"

lemmas clone_defs = CLONE_NEWNS_def CLONE_NEWCGROUP_def CLONE_NEWUTS_def CLONE_NEWIPC_def CLONE_NEWUSERNS_def
  CLONE_NEWPID_def CLONE_NEWNET_def CLONE_NEWUSER_def

record cmd_options =
  cmd_argv :: "string list"
  flags :: "32 word"
  create_root_mappings :: bool
  deny_setgroups :: bool
  verbose :: bool
  uid_map :: "string option"
  gid_map :: "string option"
  opt_list :: "(char \<times> string option) list"

definition no_options :: cmd_options where
  "no_options = \<lparr> cmd_argv = [], flags = 0, create_root_mappings = False, deny_setgroups = True, verbose = False,
     uid_map = None, gid_map = None, opt_list = [] \<rparr>"

text \<open>One option; \<^const>\<open>Exits\<close> covers both a full list and a call of \<open>usage()\<close>.\<close>

definition parse_option :: "char \<Rightarrow> string option \<Rightarrow> cmd_options \<Rightarrow> cmd_options outcome" where
  "parse_option opt optarg opts =
     (if opt = CHR ''C'' then Returns (opts\<lparr>flags := flags opts OR CLONE_NEWCGROUP\<rparr>)
      else if opt = CHR ''i'' then Returns (opts\<lparr>flags := flags opts OR CLONE_NEWIPC\<rparr>)
      else if opt = CHR ''m'' then Returns (opts\<lparr>flags := flags opts OR CLONE_NEWNS\<rparr>)
      else if opt = CHR ''n'' then Returns (opts\<lparr>flags := flags opts OR CLONE_NEWNET\<rparr>)
      else if opt = CHR ''p'' then Returns (opts\<lparr>flags := flags opts OR CLONE_NEWPID\<rparr>)
      else if opt = CHR ''u'' then Returns (opts\<lparr>flags := flags opts OR CLONE_NEWUTS\<rparr>)
      else if opt = CHR ''U'' then Returns (opts\<lparr>flags := flags opts OR CLONE_NEWUSERNS\<rparr>)
      else if opt = CHR ''M'' then Returns (opts\<lparr>uid_map := optarg\<rparr>)
      else if opt = CHR ''G'' then Returns (opts\<lparr>gid_map := optarg\<rparr>)
      else if opt = CHR ''r'' then Returns (opts\<lparr>create_root_mappings := True\<rparr>)
      else if opt = CHR ''D'' then Returns (opts\<lparr>deny_setgroups := False\<rparr>)
      else if opt = CHR ''v'' then Returns (opts\<lparr>verbose := True\<rparr>)
      else if opt \<in> set ''IAbsdxXw'' then
        (if length (opt_list opts) \<ge> MAX_OPT then Exits 1
         else Returns (opts\<lparr>opt_list := opt_list opts @ [(opt, if opt \<in> set ''sSxXwb'' then optarg else None)]\<rparr>))
      else Exits 1)"

fun parse_options :: "(char \<times> string option) list \<Rightarrow> cmd_options \<Rightarrow> cmd_options outcome" where
  "parse_options [] opts = Returns opts"
| "parse_options ((opt, optarg) # os) opts =
     (case parse_option opt optarg opts of Returns opts \<Rightarrow> parse_options os opts | r \<Rightarrow> r)"

definition userns_optstring :: string where
  "userns_optstring = ''CimnuUM:G:rDvpAIs:b:S:dx:X:w:''"

text \<open>The arguments \<open>args\<close> are those after the name of the program.\<close>

definition parse_command_options :: "string list \<Rightarrow> cmd_options outcome" where
  "parse_command_options args =
     (case getopt userns_optstring [] args of
        (os, operands) \<Rightarrow>
          (case parse_options os no_options of
             Returns opts \<Rightarrow>
               if ((uid_map opts \<noteq> None \<or> gid_map opts \<noteq> None \<or> create_root_mappings opts) \<and>
                     flags opts AND CLONE_NEWUSERNS = 0) \<or>
                  (create_root_mappings opts \<and> (uid_map opts \<noteq> None \<or> gid_map opts \<noteq> None))
               then Exits 1
               else if operands = [] then Exits 1
               else Returns (opts\<lparr>cmd_argv := operands\<rparr>)
           | r \<Rightarrow> r))"

subsection \<open>The mappings\<close>

definition map_path :: "int \<Rightarrow> string \<Rightarrow> string" where
  "map_path child_pid name = snprintf 4096 (''/proc/'' @ show_int child_pid @ ''/'' @ name)"

definition root_map :: "32 word \<Rightarrow> string" where
  "root_map ident = snprintf 100 (''0 '' @ show_int (uint ident) @ '' 1'')"

definition update_child_maps :: "('w, 'c) uops \<Rightarrow> cmd_options \<Rightarrow> int \<Rightarrow> 'w ust \<Rightarrow> unit outcome \<times> 'w ust" where
  "update_child_maps K opts child_pid s =
     andthen
       (if uid_map opts \<noteq> None \<or> create_root_mappings opts then
          (let m = (if create_root_mappings opts then root_map (getuid K (world s)) else the (uid_map opts))
           in or_exit (update_map K m (map_path child_pid ''uid_map'') s))
        else (Returns (), s))
       (\<lambda>_ s.
          if gid_map opts \<noteq> None \<or> create_root_mappings opts then
            andthen
              (if deny_setgroups opts then or_exit (proc_setgroups_write K child_pid ''deny'' s) else (Returns (), s))
              (\<lambda>_ s.
                 let m = (if create_root_mappings opts then root_map (getgid K (world s)) else the (gid_map opts))
                 in or_exit (update_map K m (map_path child_pid ''gid_map'') s))
          else (Returns (), s))"

subsection \<open>Parent and child\<close>

text \<open>
  The two processes share the pipe.  The child blocks in its read until no process has the write end open; the kernel
  closes the descriptors of a process that ends.  A label says which process acts: \<open>Parent b\<close>, where \<open>b\<close> is the success of
  \<open>waitpid\<close>, or \<open>Child r\<close>, where \<open>r\<close> is the result of \<open>read\<close> (0 at the end of file, \<open>-1\<close> for an error; nothing is ever written) or
  the exit status of the command, which ends some time after \<open>execvp\<close>.
\<close>

datatype famlabel = Parent bool | Child int

datatype parent_pc = P_Maps | P_Close | P_Wait | P_End int

datatype child_pc = C_Close | C_Read | C_Perform | C_Command "string list" | C_End int

record 'w fam =
  par :: parent_pc
  chi :: child_pc
  par_writes :: bool
  chi_writes :: bool
  sys :: "'w ust"

definition announced :: "string \<Rightarrow> int \<Rightarrow> cmd_options \<Rightarrow> 'w ust \<Rightarrow> 'w ust" where
  "announced prog child_pid opts s =
     (if verbose opts then printf (prog @ '': PID of child created by clone() is '' @ show_int child_pid @ ''\<newline>'') s else s)"

text \<open>\<open>P_Maps\<close> to the end of \<open>main()\<close>.\<close>

definition parent_step :: "('w, 'c) uops \<Rightarrow> string \<Rightarrow> int \<Rightarrow> cmd_options \<Rightarrow> bool \<Rightarrow> 'w fam \<Rightarrow> 'w fam option" where
  "parent_step K prog child_pid opts wait_ok f =
     (case par f of
        P_Maps \<Rightarrow>
          (case update_child_maps K opts child_pid (announced prog child_pid opts (sys f)) of
             (Returns _, s) \<Rightarrow> Some (f\<lparr>par := P_Close, sys := s\<rparr>)
           | (Exits c, s) \<Rightarrow> Some (f\<lparr>par := P_End c, par_writes := False, sys := s\<rparr>)
           | _ \<Rightarrow> None)
      | P_Close \<Rightarrow> Some (f\<lparr>par := P_Wait, par_writes := False\<rparr>)
      | P_Wait \<Rightarrow>
          if \<not> wait_ok then Some (f\<lparr>par := P_End 1\<rparr>)
          else
          (case chi f of
             C_End _ \<Rightarrow>
               Some (f\<lparr>par := P_End 0,
                       sys := (if verbose opts then printf (prog @ '': terminating'' @ ''\<newline>'') (sys f) else sys f)\<rparr>)
           | _ \<Rightarrow> None)
      | P_End _ \<Rightarrow> None)"

text \<open>\<open>childFunc()\<close>.\<close>

definition childFunc_step :: "('w, 'c) uops \<Rightarrow> cmd_options \<Rightarrow> int \<Rightarrow> 'w fam \<Rightarrow> 'w fam option" where
  "childFunc_step K opts r f =
     (case chi f of
        C_Close \<Rightarrow> Some (f\<lparr>chi := C_Read, chi_writes := False\<rparr>)
      | C_Read \<Rightarrow>
          (if r = - 1 then
             Some (f\<lparr>chi := C_End 1, sys := complain ''Failure in child: read from pipe returned != 0'' (sys f)\<rparr>)
           else if r \<noteq> 0 \<or> par_writes f \<or> chi_writes f then None
           else Some (f\<lparr>chi := C_Perform\<rparr>))
      | C_Perform \<Rightarrow>
          (case perform_repeatable_options K (opt_list opts) 0 (sys f) of
             (Returns _, s) \<Rightarrow>
               (let s = (if verbose opts then printf (''About to exec: '' @ hd (cmd_argv opts) @ ''\<newline>'') s else s)
                in if execvp K (cmd_argv opts) (world s)
                   then Some (f\<lparr>chi := C_Command (cmd_argv opts), sys := s\<rparr>)
                   else Some (f\<lparr>chi := C_End 1, sys := s\<rparr>))
           | (Exits c, s) \<Rightarrow> Some (f\<lparr>chi := C_End c, sys := s\<rparr>)
           | _ \<Rightarrow> None)
      | C_Command _ \<Rightarrow> Some (f\<lparr>chi := C_End r\<rparr>)
      | C_End _ \<Rightarrow> None)"

definition fam_step ::
    "('w, 'c) uops \<Rightarrow> string \<Rightarrow> int \<Rightarrow> cmd_options \<Rightarrow> famlabel \<Rightarrow> 'w fam \<Rightarrow> 'w fam option" where
  "fam_step K prog child_pid opts t f =
     (case t of Parent b \<Rightarrow> parent_step K prog child_pid opts b f | Child r \<Rightarrow> childFunc_step K opts r f)"

text \<open>
  \<open>main()\<close> up to the clone: \<open>Inl\<close> is the exit status.  Whether \<open>pipe\<close> and \<open>mmap\<close> succeed and what \<open>clone\<close> returns are arguments.
\<close>

definition userns_child_exec_start ::
    "('w, 'c) uops \<Rightarrow> bool \<Rightarrow> bool \<Rightarrow> (32 word \<Rightarrow> int sysres) \<Rightarrow> string list \<Rightarrow> 'w ust \<Rightarrow> int + int \<times> cmd_options \<times> 'w fam" where
  "userns_child_exec_start K pipe_ok mmap_ok clone args s =
     (case parse_command_options args of
        Returns opts \<Rightarrow>
          (case call (prctl K Set_dumpable) s of
             (False, s) \<Rightarrow> Inl 1
           | (True, s) \<Rightarrow>
               if \<not> pipe_ok \<or> \<not> mmap_ok then Inl 1
               else (case clone (flags opts OR 17) of
                       Inl _ \<Rightarrow> Inl 1
                     | Inr child_pid \<Rightarrow>
                         Inr (child_pid, opts,
                              \<lparr> par = P_Maps, chi = C_Close, par_writes = True, chi_writes = True, sys = s \<rparr>)))
      | _ \<Rightarrow> Inl 1)"

subsection \<open>Options\<close>

lemma or_exit_outcome: "fst (or_exit p) = Returns () \<or> fst (or_exit p) = Exits 1"
  by (simp add: or_exit_def)

text \<open>An outcome that is a return or an exit with status 1.\<close>

definition tame :: "'a outcome \<times> 's \<Rightarrow> bool" where
  "tame p \<longleftrightarrow> (\<exists>x. fst p = Returns x) \<or> fst p = Exits 1"

lemma tame_or_exit [simp]: "tame (or_exit p)"
  by (auto simp: tame_def or_exit_def)

lemma tame_andthen [intro]: "tame m \<Longrightarrow> (\<And>x s. tame (k x s)) \<Longrightarrow> tame (andthen m k)"
  by (cases "(m, k)" rule: andthen.cases) (auto simp: tame_def)

lemma tame_simps [simp]: "tame (Returns x, s)" "tame (Exits 1, s)" "\<not> tame (Undefined, s)" "\<not> tame (Aborts, s)"
  by (auto simp: tame_def)

lemma tame_case: "tame (case p of (True, s) \<Rightarrow> (Returns x, s) | (False, s) \<Rightarrow> (Exits 1, f s))"
  by (simp split: prod.splits bool.splits)

lemma tame_display: "tame (display_creds_and_caps K str s)"
  by (simp add: display_creds_and_caps_def Let_def split: option.splits)

lemma tame_modify_sets: "tame (modify_sets K op1 name cap ps s)"
proof (induction ps arbitrary: s)
  case (Cons p ps)
  then show ?case
    unfolding modify_sets.simps Let_def by (intro tame_andthen) (simp_all add: tame_case)
qed simp

lemma tame_modify: "tame (modify_individual_capability K v s)"
  by (simp add: modify_individual_capability_def Let_def tame_modify_sets split: option.splits)

text \<open>Options with an argument have one.\<close>

definition val_ok :: "char \<times> string option \<Rightarrow> bool" where
  "val_ok p \<longleftrightarrow> (fst p \<in> set ''bsSwxX'' \<longrightarrow> snd p \<noteq> None)"

lemma tame_options: "tame (set_securebits K v s)" "tame (set_process_uids K v s)"
  by (simp_all add: set_securebits_def set_process_uids_def Let_def split: sum.splits)

lemma tame_perform_option: "val_ok (opt, val) \<Longrightarrow> tame (perform_option K opt val n s)"
  unfolding perform_option_def Let_def val_ok_def
  by (simp add: tame_andthen tame_display tame_modify tame_options del: list.set split: option.split) auto

lemma tame_perform: "list_all val_ok os \<Longrightarrow> tame (perform_repeatable_options K os n s)"
proof (induction os arbitrary: n s)
  case (Cons p os)
  then show ?case by (cases p) (simp add: tame_andthen tame_perform_option)
qed simp

lemma tame_update_child_maps: "tame (update_child_maps K opts pid s)"
  by (simp add: update_child_maps_def Let_def tame_andthen)

text \<open>What the parser leaves in the list of repeatable options.\<close>

definition opts_ok :: "cmd_options \<Rightarrow> bool" where
  "opts_ok opts \<longleftrightarrow> list_all (\<lambda>p. val_ok p \<and> fst p \<in> set ''IAbsdxXw'') (opt_list opts) \<and> length (opt_list opts) \<le> MAX_OPT"

lemma if_cases: "(if c then x else y) = z \<Longrightarrow> (c \<Longrightarrow> x = z \<Longrightarrow> P) \<Longrightarrow> (\<not> c \<Longrightarrow> y = z \<Longrightarrow> P) \<Longrightarrow> P"
  by (cases c) auto

lemma parse_option_list:
  assumes "parse_option opt optarg opts = Returns opts'"
  shows "opt_list opts' = opt_list opts \<or>
     opt \<in> set ''IAbsdxXw'' \<and> length (opt_list opts) < MAX_OPT \<and>
       opt_list opts' = opt_list opts @ [(opt, if opt \<in> set ''sSxXwb'' then optarg else None)]"
  using assms unfolding parse_option_def
  by (elim if_cases) (simp_all only: outcome.inject outcome.distinct, auto simp del: list.set)

lemma parse_option_ok:
  assumes "parse_option opt optarg opts = Returns opts'" "opts_ok opts" "opt_ok userns_optstring (opt, optarg)"
  shows "opts_ok opts'"
proof -
  have "\<forall>c \<in> set ''bswxX''. takes_arg userns_optstring c \<and> c \<noteq> CHR ''?''"
    by code_simp
  then have "optarg \<noteq> None" if "opt \<in> set ''bswxX''"
    using assms(3) that by (auto simp: opt_ok_def)
  then have "val_ok (opt, if opt \<in> set ''sSxXwb'' then optarg else None)" if "opt \<in> set ''IAbsdxXw''"
    using that by (auto simp: val_ok_def)
  then show ?thesis
    using parse_option_list [OF assms(1)] assms(2) by (elim disjE) (simp_all add: opts_ok_def del: list.set)
qed

lemma parse_options_ok:
  "parse_options os opts = Returns opts' \<Longrightarrow> opts_ok opts \<Longrightarrow> \<forall>p \<in> set os. opt_ok userns_optstring p \<Longrightarrow> opts_ok opts'"
proof (induction os arbitrary: opts)
  case (Cons p os)
  then show ?case by (cases p) (auto split: outcome.splits dest: parse_option_ok)
qed simp

lemma parse_command_options_ok:
  assumes "parse_command_options args = Returns opts"
  shows "opts_ok opts" "cmd_argv opts \<noteq> []"
    "uid_map opts \<noteq> None \<or> gid_map opts \<noteq> None \<or> create_root_mappings opts \<Longrightarrow> flags opts AND CLONE_NEWUSERNS \<noteq> 0"
    "create_root_mappings opts \<Longrightarrow> uid_map opts = None \<and> gid_map opts = None"
proof -
  obtain os r where g: "getopt userns_optstring [] args = (os, r)" by (cases "getopt userns_optstring [] args")
  obtain opts0 where o: "parse_options os no_options = Returns opts0" "opts = opts0\<lparr>cmd_argv := r\<rparr>" "r \<noteq> []"
    "\<not> ((uid_map opts0 \<noteq> None \<or> gid_map opts0 \<noteq> None \<or> create_root_mappings opts0) \<and> flags opts0 AND CLONE_NEWUSERNS = 0)"
    "\<not> (create_root_mappings opts0 \<and> (uid_map opts0 \<noteq> None \<or> gid_map opts0 \<noteq> None))"
    using assms g unfolding parse_command_options_def
    by (auto split: outcome.splits if_splits simp del: not_None_eq)
  have "opts_ok no_options" by (simp add: opts_ok_def no_options_def)
  then have "opts_ok opts0" using parse_options_ok o(1) getopt_ok [OF g] by blast
  then show "opts_ok opts" "cmd_argv opts \<noteq> []"
    "uid_map opts \<noteq> None \<or> gid_map opts \<noteq> None \<or> create_root_mappings opts \<Longrightarrow> flags opts AND CLONE_NEWUSERNS \<noteq> 0"
    "create_root_mappings opts \<Longrightarrow> uid_map opts = None \<and> gid_map opts = None"
    using o(2-5) by (auto simp: opts_ok_def)
qed

subsection \<open>All interleavings of parent and child\<close>

definition mapped :: "('w, 'c) uops \<Rightarrow> string \<Rightarrow> int \<Rightarrow> cmd_options \<Rightarrow> 'w ust \<Rightarrow> unit outcome \<times> 'w ust" where
  "mapped K prog child_pid opts s = update_child_maps K opts child_pid (announced prog child_pid opts s)"

text \<open>
  Before the child performs anything, the parent has gone through the whole update of the maps, and the state the child
  starts from is the one that update left.
\<close>

definition fam_inv :: "('w, 'c) uops \<Rightarrow> string \<Rightarrow> int \<Rightarrow> cmd_options \<Rightarrow> 'w ust \<Rightarrow> 'w fam \<Rightarrow> bool" where
  "fam_inv K prog child_pid opts s0 f \<longleftrightarrow>
     (par_writes f \<longleftrightarrow> par f = P_Maps \<or> par f = P_Close) \<and> (chi_writes f \<longleftrightarrow> chi f = C_Close) \<and>
     (case chi f of
        C_Close \<Rightarrow> sys f = (if par f = P_Maps then s0 else snd (mapped K prog child_pid opts s0))
      | C_Read \<Rightarrow> sys f = (if par f = P_Maps then s0 else snd (mapped K prog child_pid opts s0))
      | C_Perform \<Rightarrow> \<not> par_writes f \<and> sys f = snd (mapped K prog child_pid opts s0)
      | C_Command a \<Rightarrow> \<not> par_writes f \<and> a = cmd_argv opts
      | C_End _ \<Rightarrow> True)"

definition fam_work :: "'w fam \<Rightarrow> nat" where
  "fam_work f =
     (case par f of P_Maps \<Rightarrow> 3 | P_Close \<Rightarrow> 2 | P_Wait \<Rightarrow> 1 | P_End _ \<Rightarrow> 0) +
     (case chi f of C_Close \<Rightarrow> 4 | C_Read \<Rightarrow> 3 | C_Perform \<Rightarrow> 2 | C_Command _ \<Rightarrow> 1 | C_End _ \<Rightarrow> 0)"

definition fam_finished :: "'w fam \<Rightarrow> bool" where
  "fam_finished f \<longleftrightarrow> (\<exists>c d. par f = P_End c \<and> chi f = C_End d)"

lemma parent_step_cases:
  assumes "parent_step K prog child_pid opts b f = Some g"
  obtains s where "par f = P_Maps" "mapped K prog child_pid opts (sys f) = (Returns (), s)" "g = f\<lparr>par := P_Close, sys := s\<rparr>"
  | c s where "par f = P_Maps" "mapped K prog child_pid opts (sys f) = (Exits c, s)"
      "g = f\<lparr>par := P_End c, par_writes := False, sys := s\<rparr>"
  | "par f = P_Close" "g = f\<lparr>par := P_Wait, par_writes := False\<rparr>"
  | "par f = P_Wait" "g = f\<lparr>par := P_End 1\<rparr>"
  | c where "par f = P_Wait" "chi f = C_End c" "par g = P_End 0" "chi g = chi f" "par_writes g = par_writes f"
      "chi_writes g = chi_writes f"
  using assms unfolding parent_step_def mapped_def
  by (auto split: parent_pc.splits prod.splits outcome.splits child_pc.splits if_split_asm)

lemma childFunc_step_cases:
  assumes "childFunc_step K opts r f = Some g"
  obtains "chi f = C_Close" "g = f\<lparr>chi := C_Read, chi_writes := False\<rparr>"
  | c s where "chi f = C_Read \<or> chi f = C_Perform \<or> (\<exists>a. chi f = C_Command a)" "g = f\<lparr>chi := C_End c, sys := s\<rparr>"
  | "chi f = C_Read" "\<not> par_writes f" "g = f\<lparr>chi := C_Perform\<rparr>"
  | s where "chi f = C_Perform" "g = f\<lparr>chi := C_Command (cmd_argv opts), sys := s\<rparr>"
  using assms unfolding childFunc_step_def Let_def
  by (auto split: child_pc.splits prod.splits outcome.splits if_split_asm) (metis fam.surjective fam.update_convs(2,5))+

lemma fam_inv_step:
  assumes i: "fam_inv K prog child_pid opts s0 f" and s: "fam_step K prog child_pid opts l f = Some g"
  shows "fam_inv K prog child_pid opts s0 g"
proof (cases l)
  case (Parent b)
  with s have "parent_step K prog child_pid opts b f = Some g" by (simp add: fam_step_def)
  then show ?thesis
    by (cases rule: parent_step_cases) (use i in \<open>auto simp: fam_inv_def split: child_pc.splits\<close>)
next
  case (Child r)
  with s have "childFunc_step K opts r f = Some g" by (simp add: fam_step_def)
  then show ?thesis
    by (cases rule: childFunc_step_cases) (use i in \<open>auto simp: fam_inv_def split: child_pc.splits\<close>)
qed

lemma fam_work_less:
  assumes "fam_step K prog child_pid opts l f = Some g"
  shows "fam_work g < fam_work f"
proof (cases l)
  case (Parent b)
  with assms have "parent_step K prog child_pid opts b f = Some g" by (simp add: fam_step_def)
  then show ?thesis by (cases rule: parent_step_cases) (auto simp: fam_work_def)
next
  case (Child r)
  with assms have "childFunc_step K opts r f = Some g" by (simp add: fam_step_def)
  then show ?thesis by (cases rule: childFunc_step_cases) (auto simp: fam_work_def)
qed

text \<open>The labels of the steps that do not depend on a failing call.\<close>

definition calm :: "famlabel set" where
  "calm = {Parent True, Child 0}"

lemma parent_acts: "par f = P_Maps \<or> par f = P_Close \<Longrightarrow> parent_step K prog child_pid opts b f \<noteq> None"
  using tame_update_child_maps [of K opts child_pid "announced prog child_pid opts (sys f)"]
  by (auto simp: parent_step_def Let_def tame_def split: prod.splits outcome.splits)

lemma child_acts:
  assumes "fam_inv K prog child_pid opts s0 f" "opts_ok opts" "\<not> par_writes f" "\<forall>d. chi f \<noteq> C_End d"
  shows "childFunc_step K opts 0 f \<noteq> None"
proof -
  have "list_all val_ok (opt_list opts)" using assms(2) by (auto simp: opts_ok_def list_all_iff)
  then have "tame (perform_repeatable_options K (opt_list opts) 0 (sys f))" by (rule tame_perform)
  then show ?thesis
    using assms(1,3,4) unfolding childFunc_step_def Let_def fam_inv_def
    by (auto simp: tame_def split: child_pc.splits prod.splits outcome.splits)
qed

lemma fam_not_stuck:
  assumes i: "fam_inv K prog child_pid opts s0 f \<and> opts_ok opts" and n: "\<not> fam_finished f"
  shows "can_act calm (fam_step K prog child_pid opts) f"
proof (cases "par f = P_Maps \<or> par f = P_Close")
  case True
  then show ?thesis
    using parent_acts [of f K prog child_pid opts True] unfolding can_act_def calm_def by (auto simp: fam_step_def)
next
  case False
  then have w: "\<not> par_writes f" using i by (simp add: fam_inv_def)
  show ?thesis
  proof (cases "\<exists>d. chi f = C_End d")
    case True
    then have "par f = P_Wait" using n False by (cases "par f") (auto simp: fam_finished_def)
    then have "parent_step K prog child_pid opts True f \<noteq> None" using True by (auto simp: parent_step_def)
    then show ?thesis unfolding can_act_def calm_def by (auto simp: fam_step_def)
  next
    case False
    then show ?thesis
      using child_acts [of K prog child_pid opts s0 f] i w unfolding can_act_def calm_def by (auto simp: fam_step_def)
  qed
qed

interpretation fam: thread_progress "fam_step K prog child_pid opts"
  "\<lambda>f. fam_inv K prog child_pid opts s0 f \<and> opts_ok opts" calm fam_work fam_finished
  for K prog child_pid opts s0
proof unfold_locales
  fix f assume "fam_inv K prog child_pid opts s0 f \<and> opts_ok opts" "\<not> fam_finished f"
  then show "can_act calm (fam_step K prog child_pid opts) f" by (rule fam_not_stuck)
qed (use fam_inv_step fam_work_less in blast)+

subsection \<open>The mapping files\<close>

text \<open>
  The files of the child can be written: \<open>log w\<close> is the sequence of pathnames and texts written so far, and none of the calls
  changes the identity of the caller.
\<close>

definition proc_files :: "('w, 'c) uops \<Rightarrow> ('w \<Rightarrow> (string \<times> string) list) \<Rightarrow> bool" where
  "proc_files K log \<longleftrightarrow>
     (\<forall>p w t. \<exists>d w1 w2. open_rdwr K p w = (Inr d, w1) \<and> write_fd K d t w1 = (Inr (length t), w2) \<and>
        log (close_fd K d w2) = log w @ [(p, t)] \<and> getgid K (close_fd K d w2) = getgid K w) \<and>
     (\<forall>op1 w. log (snd (prctl K op1 w)) = log w)"

text \<open>The writes that the options ask for, in their order.\<close>

definition wanted_writes :: "('w, 'c) uops \<Rightarrow> cmd_options \<Rightarrow> int \<Rightarrow> 'w \<Rightarrow> (string \<times> string) list" where
  "wanted_writes K opts child_pid w =
     (if create_root_mappings opts then [(map_path child_pid ''uid_map'', root_map (getuid K w))]
      else (case uid_map opts of None \<Rightarrow> [] | Some m \<Rightarrow> [(map_path child_pid ''uid_map'', newlines m)])) @
     (if create_root_mappings opts \<or> gid_map opts \<noteq> None
      then (if deny_setgroups opts then [(map_path child_pid ''setgroups'', ''deny'')] else []) @
        [(map_path child_pid ''gid_map'',
          if create_root_mappings opts then root_map (getgid K w) else newlines (the (gid_map opts)))]
      else [])"

lemma proc_files_write:
  assumes "proc_files K log"
  shows "\<exists>s'. update_map K m p s = (True, s') \<and> log (world s') = log (world s) @ [(p, newlines m)] \<and>
     getgid K (world s') = getgid K (world s)"
    and "\<exists>s'. proc_setgroups_write K pid t s = (True, s') \<and>
     log (world s') = log (world s) @ [(map_path pid ''setgroups'', t)] \<and> getgid K (world s') = getgid K (world s)"
proof -
  have law: "\<exists>d w1 w2. open_rdwr K p w = (Inr d, w1) \<and> write_fd K d t w1 = (Inr (length t), w2) \<and>
     log (close_fd K d w2) = log w @ [(p, t)] \<and> getgid K (close_fd K d w2) = getgid K w" for p w t
    using assms by (simp add: proc_files_def)
  show "\<exists>s'. update_map K m p s = (True, s') \<and> log (world s') = log (world s) @ [(p, newlines m)] \<and>
     getgid K (world s') = getgid K (world s)"
    using law [of p "world s" "newlines m"] by (auto simp: update_map_def call_def newlines_def)
  show "\<exists>s'. proc_setgroups_write K pid t s = (True, s') \<and>
     log (world s') = log (world s) @ [(map_path pid ''setgroups'', t)] \<and> getgid K (world s') = getgid K (world s)"
    using law [of "map_path pid ''setgroups''" "world s" t]
    by (auto simp: proc_setgroups_write_def call_def map_path_def)
qed

lemma newlines_root_map: "newlines (root_map n) = root_map n"
proof -
  have "CHR '','' \<notin> set (show_int (uint n))"
    by (rule show_int_notin) simp
  then have "CHR '','' \<notin> set (root_map n)"
    unfolding root_map_def snprintf_def by (auto dest!: in_set_takeD)
  then show ?thesis
    unfolding newlines_def by (intro map_idI) auto
qed

lemma update_child_maps_writes:
  assumes pf: "proc_files K log"
  shows "\<exists>s'. update_child_maps K opts pid s = (Returns (), s') \<and>
     log (world s') = log (world s) @ wanted_writes K opts pid (world s)"
proof -
  let ?u = "if uid_map opts \<noteq> None \<or> create_root_mappings opts then
      or_exit (update_map K (if create_root_mappings opts then root_map (getuid K (world s)) else the (uid_map opts))
        (map_path pid ''uid_map'') s) else (Returns (), s)"
  let ?uw = "if create_root_mappings opts then [(map_path pid ''uid_map'', root_map (getuid K (world s)))]
    else (case uid_map opts of None \<Rightarrow> [] | Some m \<Rightarrow> [(map_path pid ''uid_map'', newlines m)])"
  have "\<exists>s1. ?u = (Returns (), s1) \<and> getgid K (world s1) = getgid K (world s) \<and> log (world s1) = log (world s) @ ?uw"
  proof (cases "create_root_mappings opts")
    case True
    then show ?thesis
      using proc_files_write(1) [OF pf, of "root_map (getuid K (world s))" "map_path pid ''uid_map''" s] newlines_root_map
      by (auto simp: or_exit_def)
  next
    case False
    then show ?thesis
      using proc_files_write(1) [OF pf, of "the (uid_map opts)" "map_path pid ''uid_map''" s]
      by (cases "uid_map opts") (auto simp: or_exit_def)
  qed
  then obtain s1 where s1: "?u = (Returns (), s1)" "getgid K (world s1) = getgid K (world s)"
    "log (world s1) = log (world s) @ ?uw" by blast
  let ?d = "if deny_setgroups opts then or_exit (proc_setgroups_write K pid ''deny'' s1) else (Returns (), s1)"
  obtain s2 where s2: "?d = (Returns (), s2)" "getgid K (world s2) = getgid K (world s)"
    "log (world s2) = log (world s1) @ (if deny_setgroups opts then [(map_path pid ''setgroups'', ''deny'')] else [])"
    using proc_files_write(2) [OF pf, of pid "''deny''" s1] s1(2) by (cases "deny_setgroups opts") (auto simp: or_exit_def)
  let ?m = "if create_root_mappings opts then root_map (getgid K (world s2)) else the (gid_map opts)"
  obtain s3 where s3: "or_exit (update_map K ?m (map_path pid ''gid_map'') s2) = (Returns (), s3)"
    "log (world s3) = log (world s2) @ [(map_path pid ''gid_map'', newlines ?m)]"
    using proc_files_write(1) [OF pf, of ?m "map_path pid ''gid_map''" s2] by (auto simp: or_exit_def)
  show ?thesis
  proof (cases "gid_map opts \<noteq> None \<or> create_root_mappings opts")
    case True
    then have "update_child_maps K opts pid s = (Returns (), s3)"
      unfolding update_child_maps_def Let_def s1(1) using s2(1) s3(1) by simp
    then show ?thesis
      using True s1 s2(2,3) s3(2) newlines_root_map
      by (auto simp: wanted_writes_def)
  next
    case False
    then have "update_child_maps K opts pid s = (Returns (), s1)"
      unfolding update_child_maps_def Let_def s1(1) by simp
    then show ?thesis using False s1(3) by (simp add: wanted_writes_def)
  qed
qed

subsection \<open>What the program shows\<close>

lemma start_inv:
  assumes "userns_child_exec_start K pipe_ok mmap_ok clone args s = Inr (child_pid, opts, f)"
  shows "fam_inv K prog child_pid opts (sys f) f" "opts_ok opts" "sys f = snd (call (prctl K Set_dumpable) s)"
    "cmd_argv opts \<noteq> []"
proof -
  obtain o' where "parse_command_options args = Returns o'"
    using assms by (auto simp: userns_child_exec_start_def split: outcome.splits)
  then show "fam_inv K prog child_pid opts (sys f) f" "opts_ok opts" "sys f = snd (call (prctl K Set_dumpable) s)"
    "cmd_argv opts \<noteq> []"
    using assms parse_command_options_ok(1,2) [of args]
    by (auto simp: userns_child_exec_start_def fam_inv_def split: prod.splits bool.splits if_splits sum.splits)
qed


text \<open>
  C12: parent and child neither wait for each other forever nor run forever, whatever the options are and whichever
  calls fail: each step brings both closer to the end, and a state in which neither can act is one where both have ended.
\<close>

theorem userns_child_exec_ends:
  assumes "userns_child_exec_start K pipe_ok mmap_ok clone args s = Inr (child_pid, opts, f)"
  shows "(\<forall>g h l. run (fam_step K prog child_pid opts) f g \<longrightarrow> fam_step K prog child_pid opts l g = Some h \<longrightarrow> fam_work h < fam_work g) \<and>
     (\<forall>g. run (fam_step K prog child_pid opts) f g \<longrightarrow> \<not> can_act calm (fam_step K prog child_pid opts) g \<longrightarrow> fam_finished g) \<and>
     (\<exists>g. run (fam_step K prog child_pid opts) f g \<and> fam_finished g)"
  using start_inv [OF assms] fam_work_less fam.stops_only_finished [of K prog child_pid opts f _ "sys f"]
    fam.finishes [of K prog child_pid opts "sys f" f]
  by blast

lemma and_bit_cases: "f = (2 :: 32 word) ^ n \<Longrightarrow> b AND f = 0 \<or> b AND f = f"
  by (cases "bit b n") (auto intro!: bit_word_eqI simp: bit_simps bit_exp_iff)

definition letter_ok :: "32 word \<times> string \<times> char \<Rightarrow> bool" where
  "letter_ok = (\<lambda>(f, _, l). l \<noteq> CHR ''-'' \<and> (\<forall>acc ps. secbits_of acc (l # ps) = secbits_of (acc OR f) ps))"

lemma secbits_of_letters:
  assumes "list_all letter_ok L" "\<forall>f \<in> set (map fst L). \<exists>n. f = 2 ^ n"
  shows "secbits_of acc (filter (\<lambda>c. c \<noteq> CHR ''-'') (map (\<lambda>(f, _, l). if b AND f \<noteq> 0 then l else CHR ''-'') L)) =
     Inr (acc OR (b AND foldr (OR) (map fst L) 0))"
  using assms
proof (induction L arbitrary: acc)
  case (Cons p L)
  obtain f n l where [simp]: "p = (f, n, l)" by (cases p)
  have l: "l \<noteq> CHR ''-''" "secbits_of acc (l # ps) = secbits_of (acc OR f) ps" for acc ps
    using Cons.prems(1) by (auto simp: letter_ok_def)
  have "b AND f = 0 \<or> b AND f = f" using Cons.prems(2) and_bit_cases by auto
  then show ?case
    using Cons l by (auto simp: bit.conj_disj_distrib or.assoc simp del: secbits_of.simps)
qed simp

text \<open>
  The short form in which the secure bits are displayed, without the dashes for the bits that are off, is an
  argument of the option \<open>-b\<close> that sets the same bits.
\<close>

theorem securebits_roundtrip:
  "secbits_of 0 (filter (\<lambda>c. c \<noteq> CHR ''-'') (printSecbits bits False)) = Inr (bits AND 0xFF)"
proof -
  have "list_all letter_ok secbitInfoList"
    by (simp add: secbitInfoList_def letter_ok_def)
  moreover have "\<forall>f \<in> set (map fst secbitInfoList). \<exists>n. f = 2 ^ n"
    by (auto simp: secbitInfoList_def secbit_defs intro: exI [of _ 6] exI [of _ 7] exI [of _ 4] exI [of _ 5]
        exI [of _ 0] exI [of _ 1] exI [of _ 2] exI [of _ 3])
  ultimately have "secbits_of 0 (filter (\<lambda>c. c \<noteq> CHR ''-'') (printSecbits bits False)) =
    Inr (0 OR (bits AND foldr (OR) (map fst secbitInfoList) 0))"
    using secbits_of_letters [of secbitInfoList 0 bits] by (simp add: printSecbits_def)
  also have "foldr (OR) (map fst secbitInfoList) 0 = 0xFF"
    by (simp add: secbitInfoList_def secbit_defs)
  finally show ?thesis by simp
qed

subsection \<open>A concrete system\<close>

text \<open>The world is the list of texts written so far and the pathname of the open file.\<close>

definition demo_uops :: "((string \<times> string) list \<times> string, unit) uops" where
  "demo_uops = \<lparr> cap_get_proc = (\<lambda>_. Some ()), cap_set_flag = (\<lambda>_ _ _ _. Some ()), cap_set_proc = (\<lambda>_ w. (True, w)),
     cap_free = (\<lambda>_. True), cap_to_text = (\<lambda>_. Some ''=''), cap_from_text = (\<lambda>_. Some ()), cap_from_name = (\<lambda>_. Some 21),
     CAP_LAST_CAP = 40, prctl = (\<lambda>_ w. (True, w)), setresuid = (\<lambda>_ _ _ w. (True, w)), sleep = (\<lambda>_ w. w),
     geteuid = (\<lambda>_. 1000), getegid = (\<lambda>_. 1000), getuid = (\<lambda>_. 1000), getgid = (\<lambda>_. 1000),
     open_rdwr = (\<lambda>p (l, _). (Inr 3, (l, p))), write_fd = (\<lambda>_ t (l, p). (Inr (length t), (l @ [(p, t)], p))),
     close_fd = (\<lambda>_ w. w), execvp = (\<lambda>_ _. True) \<rparr>"

definition userns_demo_start :: "int + int \<times> cmd_options \<times> ((string \<times> string) list \<times> string) fam" where
  "userns_demo_start = userns_child_exec_start demo_uops True True (\<lambda>_. Inr 42) [''-U'', ''-r'', ''sh'']
     \<lparr> world = ([], []), out = [], diag = [] \<rparr>"

lemma userns_demo_files: "proc_files demo_uops fst"
  by (auto simp: proc_files_def demo_uops_def split: prod.splits)

lemma userns_demo_reaches:
  "case userns_demo_start of Inl _ \<Rightarrow> False | Inr (child_pid, opts, f) \<Rightarrow> child_pid = 42 \<and>
     (case exec (fam_step demo_uops ''x'' 42 opts) [Parent True, Child 0, Parent True, Child 0] f of
        None \<Rightarrow> False | Some g \<Rightarrow> chi g = C_Perform)"
  by code_simp

lemma userns_demo_run:
  obtains opts f g where "userns_demo_start = Inr (42, opts, f)" "run (fam_step demo_uops ''x'' 42 opts) f g" "chi g = C_Perform"
proof -
  obtain opts f g where d: "userns_demo_start = Inr (42, opts, f)" "chi g = C_Perform"
    "exec (fam_step demo_uops ''x'' 42 opts) [Parent True, Child 0, Parent True, Child 0] f = Some g"
    using userns_demo_reaches
    by (auto split: sum.splits prod.splits option.splits simp del: exec.simps)
  show ?thesis by (rule that [OF d(1) exec_run [OF d(3)] d(2)])
qed


theorem userns_child_exec_ends_witness:
  "\<exists>opts f. userns_demo_start = Inr (42, opts, f) \<and> (\<exists>g. run (fam_step demo_uops ''x'' 42 opts) f g \<and> fam_finished g)"
proof (rule userns_demo_run)
  fix opts f g assume "userns_demo_start = Inr (42, opts, f)"
  then show ?thesis
    using userns_child_exec_ends [of demo_uops True True "\<lambda>_. Inr 42" "[''-U'', ''-r'', ''sh'']"
        "\<lparr> world = ([], []), out = [], diag = [] \<rparr>" 42 opts f "''x''"]
    by (auto simp: userns_demo_start_def)
qed

subsection \<open>Defects\<close>

text \<open>
  When the maps cannot be written the parent ends, which closes its end of the pipe; the child takes this for the signal
  and executes the command all the same.
\<close>

theorem userns_child_runs_unmapped:
  assumes "userns_child_exec_start K pipe_ok mmap_ok clone args s = Inr (child_pid, opts, f)"
    and "mapped K prog child_pid opts (sys f) = (Exits 1, s')"
  shows "\<exists>g. run (fam_step K prog child_pid opts) f g \<and> par g = P_End 1 \<and> chi g = C_Perform \<and> sys g = s'"
proof -
  have f: "par f = P_Maps" "chi f = C_Close"
    using assms(1)
    by (auto simp: userns_child_exec_start_def split: prod.splits bool.splits if_splits sum.splits outcome.splits)
  let ?g = "f\<lparr>par := P_End 1, par_writes := False, sys := s', chi := C_Perform, chi_writes := False\<rparr>"
  have "exec (fam_step K prog child_pid opts) [Parent True, Child 0, Child 0] f = Some ?g"
    using f assms(2) by (simp add: fam_step_def parent_step_def childFunc_step_def mapped_def)
  then show ?thesis using exec_run by fastforce
qed

text \<open>
  The options \<open>-A\<close> and \<open>-I\<close>, which should raise capabilities, are accepted but only draw a diagnostic in the child, because
  there they are called \<open>a\<close> and \<open>h\<close>; and \<open>-S\<close>, which the child would perform, is refused by the parser.
\<close>

theorem userns_lost_options:
  assumes "getopt userns_optstring [] args = (os, operands)"
  shows "(CHR ''S'', v) \<in> set os \<Longrightarrow> (\<forall>opts. parse_command_options args \<noteq> Returns opts)"
    and "parse_command_options args = Returns opts \<Longrightarrow> (opt, v) \<in> set (opt_list opts) \<Longrightarrow>
      opt \<noteq> CHR ''a'' \<and> opt \<noteq> CHR ''h'' \<and> opt \<noteq> CHR ''S''"
proof -
  have "parse_options os o' \<noteq> Returns o2" if "(CHR ''S'', v) \<in> set os" for o' o2
    using that
  proof (induction os arbitrary: o')
    case (Cons p os)
    have "parse_option CHR ''S'' w o' = Exits 1" for w by (simp add: parse_option_def)
    then show ?case using Cons by (cases p) (auto split: outcome.splits)
  qed simp
  then show "(CHR ''S'', v) \<in> set os \<Longrightarrow> (\<forall>opts. parse_command_options args \<noteq> Returns opts)"
    using assms by (auto simp: parse_command_options_def split: outcome.splits)
  show "opt \<noteq> CHR ''a'' \<and> opt \<noteq> CHR ''h'' \<and> opt \<noteq> CHR ''S''"
    if "parse_command_options args = Returns opts" "(opt, v) \<in> set (opt_list opts)"
  proof -
    have "opt \<in> set ''IAbsdxXw''"
      using parse_command_options_ok(1) [OF that(1)] that(2)
      by (auto simp: opts_ok_def list_all_iff simp del: list.set)
    then show ?thesis by auto
  qed
qed

end
