(* ===== verification/Svmsg_File.thy ===== *)
theory Svmsg_File
  imports C_String Threads
begin

text \<open>
  The file service over System V message queues: \<open>svmsg/svmsg_file.h\<close>, \<open>svmsg_file_server.c\<close> and
  \<open>svmsg_file_client.c\<close>.  Any number of clients run beside the server and the children it forks, in all interleavings.  Since
  every client sends one request, the state of a session joins a client, its private queue and the child that serves it.
  Queues are bounded, as in the kernel: a sender blocks until there is room.
\<close>

subsection \<open>Messages\<close>

definition RESP_MSG_SIZE :: nat where "RESP_MSG_SIZE = 8192"
definition REQ_MSG_SIZE :: nat where "REQ_MSG_SIZE = 4 + 4096"
definition RESP_MT_FAILURE :: int where "RESP_MT_FAILURE = 1"
definition RESP_MT_DATA :: int where "RESP_MT_DATA = 2"
definition RESP_MT_END :: int where "RESP_MT_END = 3"

lemmas resp_types = RESP_MT_FAILURE_def RESP_MT_DATA_def RESP_MT_END_def

type_synonym responseMsg = "int \<times> string"

text \<open>
  The files and the limit on the bytes of a queue.  \<open>read_ok p n\<close> says whether reading the file \<open>p\<close> at offset \<open>n\<close> succeeds.
\<close>

record msgsys =
  file_data :: "string \<Rightarrow> string option"
  read_ok :: "string \<Rightarrow> nat \<Rightarrow> bool"
  qbytes :: nat

definition room :: "msgsys \<Rightarrow> nat \<Rightarrow> nat list \<Rightarrow> bool" where
  "room K n q \<longleftrightarrow> sum_list q + n \<le> qbytes K \<and> length q + 1 \<le> qbytes K"

subsection \<open>The programs\<close>

datatype serve_pc = V_Open string | V_Fail | V_Read string nat string | V_Send string nat string | V_End | V_Done int

datatype client_pc = C_Get | C_Send | C_First | C_Next | C_Exited int

record session =
  argpath :: string
  c_pc :: client_pc
  totBytes :: int
  numMsgs :: int
  c_out :: string
  respq :: "responseMsg list option"
  server_child :: "serve_pc option"

record svc =
  sessions :: "session list"
  requests :: "(nat \<times> string) list"
  server_up :: bool

definition couldnt_open :: string where
  "couldnt_open = ''Couldn'' @ [CHR 0x27] @ ''t open''"

text \<open>
  \<open>msgsnd\<close> to the queue of the client: \<^const>\<open>None\<close> while it blocks, otherwise the new queue and whether the call succeeded; it fails
  when the queue has been removed.  In \<open>V_Read p n rest\<close> the file \<open>p\<close> has been read up to the offset \<open>n\<close> and \<open>rest\<close> is to come; in
  \<open>V_Send p n rest\<close> the buffer holds the first bytes of \<open>rest\<close>.
\<close>

definition msgsnd :: "msgsys \<Rightarrow> responseMsg \<Rightarrow> responseMsg list option \<Rightarrow> (bool \<times> responseMsg list option) option" where
  "msgsnd K m queue =
     (case queue of
        None \<Rightarrow> Some (False, None)
      | Some q \<Rightarrow> if room K (length (snd m)) (map (length \<circ> snd) q) then Some (True, Some (q @ [m])) else None)"

text \<open>\<open>serveRequest()\<close>, which ends the child.\<close>

definition serveRequest :: "msgsys \<Rightarrow> serve_pc \<Rightarrow> responseMsg list option \<Rightarrow> (serve_pc \<times> responseMsg list option) option" where
  "serveRequest K v queue =
     (case v of
        V_Open p \<Rightarrow> (case file_data K p of None \<Rightarrow> Some (V_Fail, queue) | Some d \<Rightarrow> Some (V_Read p 0 d, queue))
      | V_Fail \<Rightarrow>
          (case msgsnd K (RESP_MT_FAILURE, couldnt_open @ [CHR 0x00]) queue of
             None \<Rightarrow> None | Some (_, queue) \<Rightarrow> Some (V_Done 1, queue))
      | V_Read p pos rest \<Rightarrow>
          if rest = [] \<or> \<not> read_ok K p pos then Some (V_End, queue)
          else Some (V_Send p pos rest, queue)
      | V_Send p pos rest \<Rightarrow>
          (case msgsnd K (RESP_MT_DATA, take RESP_MSG_SIZE rest) queue of
             None \<Rightarrow> None
           | Some (ok, queue) \<Rightarrow>
               Some (if ok then V_Read p (pos + RESP_MSG_SIZE) (drop RESP_MSG_SIZE rest) else V_End, queue))
      | V_End \<Rightarrow>
          (case msgsnd K (RESP_MT_END, []) queue of None \<Rightarrow> None | Some (_, queue) \<Rightarrow> Some (V_Done 0, queue))
      | V_Done _ \<Rightarrow> None)"

definition cstr :: "string \<Rightarrow> string" where
  "cstr d = takeWhile (\<lambda>c. c \<noteq> CHR 0x00) d"

definition received_text :: "int \<Rightarrow> int \<Rightarrow> string" where
  "received_text n m = ''Received '' @ show_int n @ '' bytes ('' @ show_int m @ '' messages)'' @ ''\<newline>''"

text \<open>The end of the client: the exit handler \<open>removeQueue\<close> removes its queue.\<close>

definition client_exit :: "int \<Rightarrow> string \<Rightarrow> session \<Rightarrow> session" where
  "client_exit c t s = s\<lparr>c_pc := C_Exited c, c_out := c_out s @ t, respq := None\<rparr>"

text \<open>The test of the loop of the client, after a message of type \<open>ty\<close>.\<close>

definition client_loop :: "int \<Rightarrow> session \<Rightarrow> session" where
  "client_loop ty s =
     (if ty = RESP_MT_DATA then s\<lparr>c_pc := C_Next\<rparr> else client_exit 0 (received_text (totBytes s) (numMsgs s)) s)"

text \<open>
  The client \<open>k\<close>; \<open>ok\<close> is false when its next call of a message queue function fails.  The result holds the requests waiting
  at the server.
\<close>

definition client_step ::
    "msgsys \<Rightarrow> bool \<Rightarrow> nat \<Rightarrow> bool \<Rightarrow> (nat \<times> string) list \<Rightarrow> session \<Rightarrow> (session \<times> (nat \<times> string) list) option" where
  "client_step K up k ok reqs s =
     (case c_pc s of
        C_Get \<Rightarrow>
          if argpath s = ''--help'' \<or> length (argpath s) > 4096 - 1 \<or> \<not> up \<or> \<not> ok then Some (client_exit 1 [] s, reqs)
          else Some (s\<lparr>c_pc := C_Send, respq := Some []\<rparr>, reqs)
      | C_Send \<Rightarrow>
          if \<not> up \<or> \<not> ok then Some (client_exit 1 [] s, reqs)
          else if room K REQ_MSG_SIZE (map (\<lambda>_. REQ_MSG_SIZE) reqs)
          then Some (s\<lparr>c_pc := C_First\<rparr>, reqs @ [(k, take (4096 - 1) (argpath s))])
          else None
      | C_First \<Rightarrow>
          if \<not> ok then Some (client_exit 1 [] s, reqs)
          else (case respq s of
                  Some ((ty, d) # q) \<Rightarrow>
                    if ty = RESP_MT_FAILURE then Some (client_exit 1 (cstr d @ ''\<newline>'') (s\<lparr>respq := Some q\<rparr>), reqs)
                    else Some (client_loop ty (s\<lparr>respq := Some q, totBytes := int (length d), numMsgs := 1\<rparr>), reqs)
                | _ \<Rightarrow> None)
      | C_Next \<Rightarrow>
          if \<not> ok then Some (client_exit 1 [] s, reqs)
          else (case respq s of
                  Some ((ty, d) # q) \<Rightarrow>
                    Some (client_loop ty (s\<lparr>respq := Some q, totBytes := totBytes s + int (length d),
                                            numMsgs := numMsgs s + 1\<rparr>), reqs)
                | _ \<Rightarrow> None)
      | C_Exited _ \<Rightarrow> None)"

text \<open>
  The server: how \<open>msgrcv\<close> and \<open>fork\<close> end.  An interrupted \<open>msgrcv\<close> is repeated; any other failure ends the server, which removes
  its queue with the requests in it.
\<close>

datatype rcv = Rcv_forked | Rcv_fork_fails | Rcv_interrupted | Rcv_fails

datatype svclabel = Client nat bool | Server rcv | Serve nat

definition server_step :: "rcv \<Rightarrow> svc \<Rightarrow> svc option" where
  "server_step r s =
     (if \<not> server_up s then None
      else case r of
        Rcv_interrupted \<Rightarrow> Some s
      | Rcv_fails \<Rightarrow> Some (s\<lparr>server_up := False, requests := []\<rparr>)
      | Rcv_fork_fails \<Rightarrow> (if requests s = [] then None else Some (s\<lparr>server_up := False, requests := []\<rparr>))
      | Rcv_forked \<Rightarrow>
          (case requests s of
             [] \<Rightarrow> None
           | (k, p) # reqs \<Rightarrow>
               Some (s\<lparr>requests := reqs,
                       sessions := (sessions s)[k := (sessions s ! k)\<lparr>server_child := Some (V_Open p)\<rparr>]\<rparr>)))"

definition svc_step :: "msgsys \<Rightarrow> svclabel \<Rightarrow> svc \<Rightarrow> svc option" where
  "svc_step K l s =
     (case l of
        Server r \<Rightarrow> server_step r s
      | Client k ok \<Rightarrow>
          if k < length (sessions s) then
            map_option (\<lambda>(c, reqs). s\<lparr>sessions := (sessions s)[k := c], requests := reqs\<rparr>)
              (client_step K (server_up s) k ok (requests s) (sessions s ! k))
          else None
      | Serve k \<Rightarrow>
          if k < length (sessions s) then
            (case server_child (sessions s ! k) of
               None \<Rightarrow> None
             | Some v \<Rightarrow>
                 map_option (\<lambda>(v, q). s\<lparr>sessions := (sessions s)[k := (sessions s ! k)\<lparr>server_child := Some v, respq := q\<rparr>]\<rparr>)
                   (serveRequest K v (respq (sessions s ! k))))
          else None)"

definition new_session :: "string \<Rightarrow> session" where
  "new_session p = \<lparr> argpath = p, c_pc = C_Get, totBytes = 0, numMsgs = 0, c_out = [], respq = None, server_child = None \<rparr>"

definition svc_init :: "string list \<Rightarrow> svc" where
  "svc_init ps = \<lparr> sessions = map new_session ps, requests = [], server_up = True \<rparr>"

subsection \<open>The messages of a session\<close>

text \<open>What a file is cut into, up to the first read that fails.\<close>

function chunks :: "(nat \<Rightarrow> bool) \<Rightarrow> nat \<Rightarrow> string \<Rightarrow> string list" where
  "chunks ok pos rest =
     (if rest = [] \<or> \<not> ok pos then []
      else take RESP_MSG_SIZE rest # chunks ok (pos + RESP_MSG_SIZE) (drop RESP_MSG_SIZE rest))"
  by pat_completeness auto
termination by (relation "measure (\<lambda>(_, _, r). length r)") (auto simp: RESP_MSG_SIZE_def)

declare chunks.simps [simp del]

definition data_stream :: "string list \<Rightarrow> responseMsg list" where
  "data_stream cs = map (Pair RESP_MT_DATA) cs @ [(RESP_MT_END, [])]"

definition failure :: responseMsg where
  "failure = (RESP_MT_FAILURE, couldnt_open @ [CHR 0x00])"

definition stream :: "msgsys \<Rightarrow> string \<Rightarrow> responseMsg list" where
  "stream K p = (case file_data K p of None \<Rightarrow> [failure] | Some d \<Rightarrow> data_stream (chunks (read_ok K p) 0 d))"

text \<open>What a child has still to send.\<close>

fun todo :: "msgsys \<Rightarrow> serve_pc \<Rightarrow> responseMsg list" where
  "todo K (V_Open p) = stream K p"
| "todo K V_Fail = [failure]"
| "todo K (V_Read p pos rest) = data_stream (chunks (read_ok K p) pos rest)"
| "todo K (V_Send p pos rest) = (RESP_MT_DATA, take RESP_MSG_SIZE rest) #
     data_stream (chunks (read_ok K p) (pos + RESP_MSG_SIZE) (drop RESP_MSG_SIZE rest))"
| "todo K V_End = [(RESP_MT_END, [])]"
| "todo K (V_Done _) = []"

definition bytes :: "responseMsg list \<Rightarrow> int" where
  "bytes ms = sum_list (map (int \<circ> length \<circ> snd) ms)"

lemma bytes_simps [simp]: "bytes [] = 0" "bytes (m # ms) = int (length (snd m)) + bytes ms" "bytes (ms @ ns) = bytes ms + bytes ns"
  by (simp_all add: bytes_def)

text \<open>One step of a child moves the first message it has to send to the queue, or none.\<close>

lemma serveRequest_todo:
  assumes "serveRequest K v (Some q) = Some (v', q')"
  shows "\<exists>q2. q' = Some q2 \<and> q2 @ todo K v' = q @ todo K v"
proof (cases v)
  case (V_Read p pos rest)
  then show ?thesis
    using assms chunks.simps [of "read_ok K p" pos rest] by (auto simp: serveRequest_def data_stream_def split: if_splits)
qed (use assms in \<open>auto simp: serveRequest_def msgsnd_def stream_def failure_def data_stream_def split: if_splits option.splits\<close>)

lemma serveRequest_removed: "serveRequest K v None = Some (v', q') \<Longrightarrow> q' = None"
  by (auto simp: serveRequest_def msgsnd_def split: serve_pc.splits if_splits option.splits)

text \<open>Only the last message of a stream is not data.\<close>

lemma data_stream_last:
  "data_stream cs = r @ (ty, d) # ms \<Longrightarrow> (ty = RESP_MT_DATA \<longleftrightarrow> ms \<noteq> []) \<and> ty \<noteq> RESP_MT_FAILURE"
proof (induction cs arbitrary: r)
  case Nil
  then show ?case by (cases r) (auto simp: data_stream_def resp_types)
next
  case (Cons c cs)
  show ?case
  proof (cases r)
    case Nil
    then show ?thesis using Cons(2) by (auto simp: data_stream_def resp_types)
  next
    case (Cons x r')
    then show ?thesis using Cons.IH [of r'] Cons.prems by (simp add: data_stream_def)
  qed
qed

lemma stream_last:
  assumes "stream K p = r @ (ty, d) # ms"
  shows "ty = RESP_MT_DATA \<longleftrightarrow> ms \<noteq> []" "ty = RESP_MT_FAILURE \<longleftrightarrow> file_data K p = None"
    "ty = RESP_MT_FAILURE \<Longrightarrow> r = [] \<and> ms = [] \<and> d = couldnt_open @ [CHR 0x00]"
proof -
  have "(ty = RESP_MT_DATA \<longleftrightarrow> ms \<noteq> []) \<and> (ty = RESP_MT_FAILURE \<longleftrightarrow> file_data K p = None) \<and>
    (ty = RESP_MT_FAILURE \<longrightarrow> r = [] \<and> ms = [] \<and> d = couldnt_open @ [CHR 0x00])"
  proof (cases "file_data K p")
    case None
    then have "[failure] = r @ (ty, d) # ms" using assms by (simp add: stream_def)
    then show ?thesis using None by (cases r) (auto simp: failure_def resp_types)
  next
    case (Some c)
    then show ?thesis using assms data_stream_last by (auto simp: stream_def)
  qed
  then show "ty = RESP_MT_DATA \<longleftrightarrow> ms \<noteq> []" "ty = RESP_MT_FAILURE \<longleftrightarrow> file_data K p = None"
    "ty = RESP_MT_FAILURE \<Longrightarrow> r = [] \<and> ms = [] \<and> d = couldnt_open @ [CHR 0x00]" by auto
qed

subsection \<open>The invariant\<close>

text \<open>What the client of a session prints and how it exits, when no call fails.\<close>

definition reply :: "msgsys \<Rightarrow> string \<Rightarrow> int \<times> string" where
  "reply K p =
     (if file_data K p = None then (1, couldnt_open @ ''\<newline>'')
      else (0, received_text (bytes (stream K p)) (int (length (stream K p)))))"

definition pending :: "msgsys \<Rightarrow> session \<Rightarrow> responseMsg list" where
  "pending K s = (case server_child s of None \<Rightarrow> stream K (argpath s) | Some v \<Rightarrow> todo K v)"

text \<open>The messages received, those in the queue and those to come make up the stream.\<close>

definition receiving :: "msgsys \<Rightarrow> responseMsg list \<Rightarrow> session \<Rightarrow> bool" where
  "receiving K r s \<longleftrightarrow> c_out s = [] \<and> (\<exists>q. respq s = Some q \<and> stream K (argpath s) = r @ q @ pending K s)"

definition sess_inv :: "msgsys \<Rightarrow> bool \<Rightarrow> session \<Rightarrow> bool" where
  "sess_inv K requested s \<longleftrightarrow> (requested \<longrightarrow> server_child s = None) \<and>
     (case c_pc s of
        C_Get \<Rightarrow> c_out s = [] \<and> server_child s = None \<and> \<not> requested
      | C_Send \<Rightarrow> c_out s = [] \<and> respq s = Some [] \<and> server_child s = None \<and> \<not> requested \<and> length (argpath s) \<le> 4096 - 1
      | C_First \<Rightarrow> receiving K [] s
      | C_Next \<Rightarrow> (\<exists>r. receiving K r s \<and> r \<noteq> [] \<and> (\<forall>m \<in> set r. fst m = RESP_MT_DATA) \<and> numMsgs s = int (length r) \<and> totBytes s = bytes r \<and> file_data K (argpath s) \<noteq> None)
      | C_Exited c \<Rightarrow> respq s = None \<and> ((c = 1 \<and> c_out s = []) \<or> (c, c_out s) = reply K (argpath s)))"

definition svc_inv :: "msgsys \<Rightarrow> svc \<Rightarrow> bool" where
  "svc_inv K s \<longleftrightarrow> distinct (map fst (requests s)) \<and>
     (\<forall>(k, p) \<in> set (requests s). k < length (sessions s) \<and> p = argpath (sessions s ! k)) \<and>
     (\<forall>k < length (sessions s). sess_inv K (k \<in> fst ` set (requests s)) (sessions s ! k))"

lemma svc_inv_request:
  "svc_inv K s \<Longrightarrow> (k, p) \<in> set (requests s) \<Longrightarrow> k < length (sessions s) \<and> p = argpath (sessions s ! k)"
  unfolding svc_inv_def by blast

lemma svc_inv_session:
  "svc_inv K s \<Longrightarrow> k < length (sessions s) \<Longrightarrow> sess_inv K (k \<in> fst ` set (requests s)) (sessions s ! k)"
  unfolding svc_inv_def by blast

lemma sess_inv_lost: "sess_inv K b s \<Longrightarrow> sess_inv K False s"
  by (simp add: sess_inv_def split: client_pc.splits)

lemma sess_inv_serve:
  assumes i: "sess_inv K b s" and v: "server_child s = Some v" and s: "serveRequest K v (respq s) = Some (v', q')"
  shows "sess_inv K b (s\<lparr>server_child := Some v', respq := q'\<rparr>)"
proof -
  have rec: "receiving K r (s\<lparr>server_child := Some v', respq := q'\<rparr>)" if r: "receiving K r s" for r
  proof -
    obtain q where q: "respq s = Some q" "stream K (argpath s) = r @ q @ todo K v"
      using r v by (auto simp: receiving_def pending_def)
    then show ?thesis
      using serveRequest_todo [of K v q v' q'] s r by (auto simp: receiving_def pending_def)
  qed
  show ?thesis
  proof (cases "c_pc s")
    case (C_Exited c)
    then show ?thesis using i v s serveRequest_removed [of K v v' q'] by (auto simp: sess_inv_def)
  qed (use i v rec in \<open>auto simp: sess_inv_def\<close>)
qed

lemma client_exit_inv:
  "(requested \<longrightarrow> server_child s = None) \<Longrightarrow> c = 1 \<and> c_out s @ t = [] \<or> (c, c_out s @ t) = reply K (argpath s) \<Longrightarrow>
   sess_inv K requested (client_exit c t s)"
  by (auto simp: sess_inv_def client_exit_def)

text \<open>A message that is received: the loop goes on, or the client reports what it counted.\<close>

lemma client_loop_inv:
  assumes rq: "requested \<longrightarrow> server_child s = None" and out: "c_out s = []" and q: "respq s = Some ((ty, d) # q)"
    and st: "stream K (argpath s) = r @ ((ty, d) # q) @ pending K s" and ty: "ty \<noteq> RESP_MT_FAILURE"
    and dt: "\<forall>m \<in> set r. fst m = RESP_MT_DATA"
  shows "sess_inv K requested
     (client_loop ty (s\<lparr>respq := Some q, totBytes := bytes (r @ [(ty, d)]), numMsgs := int (length (r @ [(ty, d)]))\<rparr>))"
proof (cases "ty = RESP_MT_DATA")
  case True
  have "file_data K (argpath s) \<noteq> None" using stream_last(2) [of K "argpath s" r ty d "q @ pending K s"] st ty by auto
  moreover have "receiving K (r @ [(ty, d)])
      (s\<lparr>respq := Some q, totBytes := bytes (r @ [(ty, d)]), numMsgs := int (length (r @ [(ty, d)])), c_pc := C_Next\<rparr>)"
    using st out by (simp add: receiving_def pending_def split: option.splits)
  ultimately show ?thesis
    using True rq dt by (fastforce simp: client_loop_def sess_inv_def)
next
  case False
  have "stream K (argpath s) = r @ [(ty, d)]" "file_data K (argpath s) \<noteq> None"
    using stream_last(1,2) [of K "argpath s" r ty d "q @ pending K s"] st ty False by auto
  then show ?thesis
    using False rq out by (auto simp: client_loop_def reply_def intro!: client_exit_inv)
qed

lemma sess_inv_client:
  assumes i: "sess_inv K requested s" and s: "client_step K up k ok reqs s = Some (s', reqs')"
    and "requested = (k \<in> fst ` set reqs)"
  shows "sess_inv K (k \<in> fst ` set reqs') s'"
proof -
  have rq: "requested \<longrightarrow> server_child s = None" using i by (simp add: sess_inv_def)
  have quit: "sess_inv K requested (client_exit 1 [] s)" if "\<And>c. c_pc s \<noteq> C_Exited c"
    using that i by (intro client_exit_inv rq) (auto simp: sess_inv_def receiving_def split: client_pc.splits)
  show ?thesis
  proof (cases "c_pc s")
    case C_Get
    then consider "s' = client_exit 1 [] s" "reqs' = reqs"
      | "s' = s\<lparr>c_pc := C_Send, respq := Some []\<rparr>" "reqs' = reqs" "length (argpath s) \<le> 4096 - 1"
      using s by (auto simp: client_step_def split: if_splits)
    then show ?thesis
    proof cases
      case 1
      then show ?thesis using quit C_Get assms(3) by simp
    next
      case 2
      then show ?thesis using i C_Get assms(3) by (auto simp: sess_inv_def)
    qed
  next
    case C_Send
    then consider "s' = client_exit 1 [] s" "reqs' = reqs"
      | "s' = s\<lparr>c_pc := C_First\<rparr>" "reqs' = reqs @ [(k, take (4096 - 1) (argpath s))]"
      using s by (auto simp: client_step_def split: if_splits)
    then show ?thesis
    proof cases
      case 1
      then show ?thesis using quit C_Send assms(3) by simp
    next
      case 2
      then show ?thesis using i C_Send by (auto simp: sess_inv_def receiving_def pending_def)
    qed
  next
    case C_First
    then obtain q where q: "respq s = Some q" "stream K (argpath s) = q @ pending K s" "c_out s = []"
      using i by (auto simp: sess_inv_def receiving_def)
    show ?thesis
    proof (cases "ok \<and> q \<noteq> []")
      case True
      then obtain ty d q' where q': "q = (ty, d) # q'" by (cases q) auto
      have "sess_inv K requested (client_exit 1 (cstr d @ ''\<newline>'') (s\<lparr>respq := Some q'\<rparr>))" if "ty = RESP_MT_FAILURE"
        using stream_last(2,3) [of K "argpath s" "[]" ty d "q' @ pending K s"] q q' that rq
        by (intro client_exit_inv) (auto simp: reply_def cstr_def couldnt_open_def)
      moreover have "sess_inv K requested (client_loop ty (s\<lparr>respq := Some q', totBytes := int (length d), numMsgs := 1\<rparr>))"
        if "ty \<noteq> RESP_MT_FAILURE"
        using client_loop_inv [OF rq q(3), of ty d q' K "[]"] q q' that by simp
      ultimately show ?thesis
        using C_First s q(1) q' True assms(3) by (auto simp: client_step_def split: if_splits)
    next
      case False
      then show ?thesis using C_First s q(1) quit assms(3) by (auto simp: client_step_def split: if_splits list.splits)
    qed
  next
    case C_Next
    then obtain r q where q: "respq s = Some q" "stream K (argpath s) = r @ q @ pending K s" "c_out s = []"
      "numMsgs s = int (length r)" "totBytes s = bytes r" "\<forall>m \<in> set r. fst m = RESP_MT_DATA" "file_data K (argpath s) \<noteq> None"
      using i by (auto simp: sess_inv_def receiving_def)
    show ?thesis
    proof (cases "ok \<and> q \<noteq> []")
      case True
      then obtain ty d q' where q': "q = (ty, d) # q'" by (cases q) auto
      have "ty \<noteq> RESP_MT_FAILURE" using stream_last(2) [of K "argpath s" r ty d "q' @ pending K s"] q q' by auto
      then show ?thesis
        using client_loop_inv [OF rq q(3), of ty d q' K r] C_Next s q q' True assms(3)
        by (auto simp: client_step_def add.commute split: if_splits)
    next
      case False
      then show ?thesis using C_Next s q(1) quit assms(3) by (auto simp: client_step_def split: if_splits list.splits)
    qed
  next
    case (C_Exited c)
    then show ?thesis using s by (simp add: client_step_def)
  qed
qed

text \<open>A client only appends its own request.\<close>

lemma client_step_reqs:
  assumes "client_step K up k ok reqs s = Some (s', reqs')"
  shows "argpath s' = argpath s \<and> (reqs' = reqs \<or> c_pc s = C_Send \<and> reqs' = reqs @ [(k, take (4096 - 1) (argpath s))])"
  using assms
  by (auto simp: client_step_def client_exit_def client_loop_def split: client_pc.splits if_splits option.splits list.splits prod.splits)

lemma svc_inv_update:
  assumes "svc_inv K s" "k < length (sessions s)" "argpath c = argpath (sessions s ! k)"
    and "reqs = requests s \<or> k \<notin> fst ` set (requests s) \<and> reqs = requests s @ [(k, argpath c)]"
    and "sess_inv K (k \<in> fst ` set reqs) c"
  shows "svc_inv K (s\<lparr>sessions := (sessions s)[k := c], requests := reqs\<rparr>)"
proof -
  have d: "distinct (map fst reqs)" using assms(1,4) by (auto simp: svc_inv_def)
  have p: "\<forall>(j, p) \<in> set reqs. j < length (sessions s) \<and> p = argpath ((sessions s)[k := c] ! j)"
    using assms(1-4) unfolding svc_inv_def by (fastforce simp: nth_list_update)
  have "sess_inv K (j \<in> fst ` set reqs) ((sessions s)[k := c] ! j)" if "j < length (sessions s)" for j
    using assms(1,2,4,5) that unfolding svc_inv_def by (auto simp: nth_list_update)
  then show ?thesis using d p by (simp add: svc_inv_def)
qed

lemma svc_inv_step:
  assumes i: "svc_inv K s" and st: "svc_step K l s = Some t"
  shows "svc_inv K t"
proof (cases l)
  case (Client k ok)
  then obtain c reqs where k: "k < length (sessions s)" and c: "client_step K (server_up s) k ok (requests s) (sessions s ! k) = Some (c, reqs)"
    and t: "t = s\<lparr>sessions := (sessions s)[k := c], requests := reqs\<rparr>"
    using st by (auto simp: svc_step_def split: if_splits)
  have ik: "sess_inv K (k \<in> fst ` set (requests s)) (sessions s ! k)" using i k by (simp add: svc_inv_def)
  have "reqs = requests s \<or> k \<notin> fst ` set (requests s) \<and> reqs = requests s @ [(k, argpath c)]"
    using client_step_reqs [OF c] ik by (auto simp: sess_inv_def simp del: image_iff split: client_pc.splits)
  then show ?thesis
    unfolding t by (intro svc_inv_update [OF i k] sess_inv_client [OF ik c refl]) (use client_step_reqs [OF c] in auto)
next
  case (Serve k)
  then obtain v v' q where k: "k < length (sessions s)" and v: "server_child (sessions s ! k) = Some v"
    and q: "serveRequest K v (respq (sessions s ! k)) = Some (v', q)"
    and t: "t = s\<lparr>sessions := (sessions s)[k := (sessions s ! k)\<lparr>server_child := Some v', respq := q\<rparr>]\<rparr>"
    using st by (auto simp: svc_step_def split: if_splits option.splits)
  have "sess_inv K (k \<in> fst ` set (requests s)) (sessions s ! k)" using i k by (simp add: svc_inv_def)
  from sess_inv_serve [OF this v q] show ?thesis
    using svc_inv_update [OF i k, of "(sessions s ! k)\<lparr>server_child := Some v', respq := q\<rparr>" "requests s"] t by simp
next
  case (Server r)
  show ?thesis
  proof (cases "r = Rcv_forked \<and> requests s \<noteq> [] \<and> server_up s")
    case True
    then obtain k p reqs where rq: "requests s = (k, p) # reqs" by (cases "requests s") auto
    have k: "k < length (sessions s)" "p = argpath (sessions s ! k)" "k \<notin> fst ` set reqs"
      using svc_inv_request [OF i, of k p] i rq by (simp_all add: svc_inv_def)
    have t: "t = s\<lparr>requests := reqs, sessions := (sessions s)[k := (sessions s ! k)\<lparr>server_child := Some (V_Open p)\<rparr>]\<rparr>"
      using st Server True rq by (simp add: svc_step_def server_step_def)
    have "sess_inv K True (sessions s ! k)" using svc_inv_session [OF i k(1)] rq by simp
    then have new: "sess_inv K False ((sessions s ! k)\<lparr>server_child := Some (V_Open p)\<rparr>)"
      using k(2) by (auto simp: sess_inv_def receiving_def pending_def split: client_pc.splits)
    have other: "sess_inv K (j \<in> fst ` set reqs) (sessions s ! j)" if "j < length (sessions s)" "j \<noteq> k" for j
      using svc_inv_session [OF i that(1)] that(2) rq by simp
    have paths: "\<forall>(j, p) \<in> set reqs. j < length (sessions s) \<and> j \<noteq> k \<and> p = argpath (sessions s ! j)"
    proof clarify
      fix j q assume jq: "(j, q) \<in> set reqs"
      then have "j \<noteq> k" using k(3) by force
      moreover have "j < length (sessions s) \<and> q = argpath (sessions s ! j)"
        using svc_inv_request [OF i, of j q] rq jq by simp
      ultimately show "j < length (sessions s) \<and> j \<noteq> k \<and> q = argpath (sessions s ! j)" by blast
    qed
    have "sess_inv K (j \<in> fst ` set reqs) ((sessions s)[k := (sessions s ! k)\<lparr>server_child := Some (V_Open p)\<rparr>] ! j)"
      if "j < length (sessions s)" for j
      using new other that k(1,3) by (cases "j = k") auto
    moreover have "distinct (map fst reqs)" using i rq by (simp add: svc_inv_def)
    moreover have "\<forall>(j, q) \<in> set reqs. j < length (sessions s) \<and>
        q = argpath ((sessions s)[k := (sessions s ! k)\<lparr>server_child := Some (V_Open p)\<rparr>] ! j)"
      using paths by auto
    ultimately show ?thesis unfolding t svc_inv_def by simp
  next
    case False
    then have "t = s \<or> t = s\<lparr>server_up := False, requests := []\<rparr>"
      using st Server by (auto simp: svc_step_def server_step_def split: rcv.splits if_splits list.splits)
    then show ?thesis
      using i svc_inv_session [OF i] sess_inv_lost by (elim disjE) (simp, simp add: svc_inv_def, blast)
  qed
qed

lemma svc_inv_init: "svc_inv K (svc_init ps)"
  by (simp add: svc_inv_def svc_init_def new_session_def sess_inv_def)

interpretation svc: thread_invariant "svc_step K" "svc_inv K" for K
  by unfold_locales (rule svc_inv_step)

subsection \<open>Progress\<close>

text \<open>The steps in which no call fails.\<close>

definition calm_label :: "svclabel \<Rightarrow> bool" where
  "calm_label l \<longleftrightarrow> (case l of Client _ ok \<Rightarrow> ok | Server r \<Rightarrow> r = Rcv_forked | Serve _ \<Rightarrow> True)"

definition svc_calm :: "msgsys \<Rightarrow> svclabel \<Rightarrow> svc \<Rightarrow> svc option" where
  "svc_calm K l s = (if calm_label l then svc_step K l s else None)"

text \<open>No request is lost: a client that waits for its first message has a request at the server or a child.\<close>

definition waits :: "(nat \<times> string) list \<Rightarrow> nat \<Rightarrow> session \<Rightarrow> bool" where
  "waits reqs k c \<longleftrightarrow> (c_pc c \<in> {C_First, C_Next} \<longrightarrow> k \<in> fst ` set reqs \<or> server_child c \<noteq> None) \<and>
     (c_pc c = C_Exited 1 \<longrightarrow> c_out c = [] \<longrightarrow> argpath c = ''--help'' \<or> length (argpath c) > 4095)"

definition calm_inv :: "msgsys \<Rightarrow> svc \<Rightarrow> bool" where
  "calm_inv K s \<longleftrightarrow> svc_inv K s \<and> server_up s \<and> (\<forall>k < length (sessions s). waits (requests s) k (sessions s ! k))"

fun serve_work :: "msgsys \<Rightarrow> serve_pc \<Rightarrow> nat" where
  "serve_work K (V_Open p) = 2 * length (stream K p) + 1"
| "serve_work K V_Fail = 1"
| "serve_work K (V_Read p pos rest) = 2 * length (todo K (V_Read p pos rest))"
| "serve_work K (V_Send p pos rest) = 2 * length (todo K (V_Send p pos rest)) - 1"
| "serve_work K V_End = 1"
| "serve_work K (V_Done _) = 0"

definition client_work :: "msgsys \<Rightarrow> session \<Rightarrow> nat" where
  "client_work K s = (let n = length (stream K (argpath s)) in
     case c_pc s of C_Get \<Rightarrow> n + 3 | C_Send \<Rightarrow> n + 2 | C_First \<Rightarrow> n + 1 | C_Next \<Rightarrow> n + 1 - nat (numMsgs s) | C_Exited _ \<Rightarrow> 0)"

definition sess_work :: "msgsys \<Rightarrow> session \<Rightarrow> nat" where
  "sess_work K s = client_work K s +
     (case server_child s of None \<Rightarrow> serve_work K (V_Open (argpath s)) + 1 | Some v \<Rightarrow> serve_work K v)"

definition svc_work :: "msgsys \<Rightarrow> svc \<Rightarrow> nat" where
  "svc_work K s = sum_list (map (sess_work K) (sessions s))"

definition svc_finished :: "svc \<Rightarrow> bool" where
  "svc_finished s \<longleftrightarrow>
     (\<forall>c \<in> set (sessions s). (\<exists>x. c_pc c = C_Exited x) \<and> (server_child c = None \<or> (\<exists>x. server_child c = Some (V_Done x)))) \<and>
     requests s = []"

lemma serve_work_less: "serveRequest K v q = Some (v', q') \<Longrightarrow> serve_work K v' < serve_work K v"
proof (cases v)
  case (V_Read p pos rest)
  moreover assume "serveRequest K v q = Some (v', q')"
  ultimately show ?thesis
    using chunks.simps [of "read_ok K p" pos rest] by (auto simp: serveRequest_def data_stream_def split: if_splits)
qed (auto simp: serveRequest_def stream_def data_stream_def msgsnd_def split: option.splits if_splits)

lemma client_work_less:
  assumes i: "sess_inv K b s" and s: "client_step K up k ok reqs s = Some (s', reqs')"
  shows "client_work K s' < client_work K s"
proof (cases "c_pc s")
  case C_Next
  then obtain r q where "respq s = Some q" "stream K (argpath s) = r @ q @ pending K s" "numMsgs s = int (length r)"
    using i by (auto simp: sess_inv_def receiving_def)
  then show ?thesis
    using C_Next s
    by (auto simp: client_step_def client_work_def client_loop_def client_exit_def Let_def nat_add_distrib
        split: if_splits list.splits)
qed (use s in \<open>auto simp: client_step_def client_work_def client_loop_def client_exit_def Let_def split: if_splits option.splits list.splits\<close>)

lemma client_keeps_child: "client_step K up k ok reqs s = Some (s', reqs') \<Longrightarrow> server_child s' = server_child s"
  by (auto simp: client_step_def client_loop_def client_exit_def split: client_pc.splits if_splits option.splits list.splits)

lemma svc_work_less:
  assumes i: "calm_inv K s" and st: "svc_calm K l s = Some t"
  shows "svc_work K t < svc_work K s"
proof -
  have less: "svc_work K (s\<lparr>sessions := (sessions s)[k := c], requests := reqs\<rparr>) < svc_work K s"
    if "k < length (sessions s)" "sess_work K c < sess_work K (sessions s ! k)" for k c reqs
    using that sum_list_update_nat [of k "sessions s" "sess_work K" c] by (simp add: svc_work_def)
  have inv: "svc_inv K s" using i by (simp add: calm_inv_def)
  show ?thesis
  proof (cases l)
    case (Client k ok)
    then obtain c reqs where k: "k < length (sessions s)" and c: "client_step K (server_up s) k ok (requests s) (sessions s ! k) = Some (c, reqs)"
      and t: "t = s\<lparr>sessions := (sessions s)[k := c], requests := reqs\<rparr>"
      using st by (auto simp: svc_calm_def svc_step_def split: if_splits)
    have "sess_inv K (k \<in> fst ` set (requests s)) (sessions s ! k)" using svc_inv_session inv k by blast
    then have "client_work K c < client_work K (sessions s ! k)" by (rule client_work_less [OF _ c])
    then show ?thesis
      unfolding t using client_keeps_child [OF c] client_step_reqs [OF c]
      by (intro less k) (auto simp: sess_work_def split: option.splits)
  next
    case (Serve k)
    then obtain v v' q where k: "k < length (sessions s)" and v: "server_child (sessions s ! k) = Some v"
      and q: "serveRequest K v (respq (sessions s ! k)) = Some (v', q)"
      and t: "t = s\<lparr>sessions := (sessions s)[k := (sessions s ! k)\<lparr>server_child := Some v', respq := q\<rparr>]\<rparr>"
      using st by (auto simp: svc_calm_def svc_step_def split: if_splits option.splits)
    have "sess_work K ((sessions s ! k)\<lparr>server_child := Some v', respq := q\<rparr>) < sess_work K (sessions s ! k)"
      using serve_work_less [OF q] v by (simp add: sess_work_def client_work_def Let_def split: client_pc.split)
    from less [OF k this, of "requests s"] show ?thesis using t by simp
  next
    case (Server r)
    then obtain k p reqs where rq: "requests s = (k, p) # reqs"
      and t: "t = s\<lparr>requests := reqs, sessions := (sessions s)[k := (sessions s ! k)\<lparr>server_child := Some (V_Open p)\<rparr>]\<rparr>"
      using st by (auto simp: svc_calm_def calm_label_def svc_step_def server_step_def split: if_splits list.splits)
    have k: "k < length (sessions s)" "p = argpath (sessions s ! k)" "server_child (sessions s ! k) = None"
      using inv rq by (auto simp: svc_inv_def sess_inv_def)
    then have "sess_work K ((sessions s ! k)\<lparr>server_child := Some (V_Open p)\<rparr>) < sess_work K (sessions s ! k)"
      by (simp add: sess_work_def client_work_def Let_def split: client_pc.split)
    from less [OF k(1) this, of reqs] show ?thesis using t by (simp add: svc_work_def)
  qed
qed

lemma waits_mono: "waits reqs k c \<Longrightarrow> fst ` set reqs \<subseteq> fst ` set reqs' \<Longrightarrow> waits reqs' k c"
  unfolding waits_def by blast

lemma waits_running: "c_pc c \<noteq> C_Exited 1 \<Longrightarrow> k \<in> fst ` set reqs \<or> server_child c \<noteq> None \<Longrightarrow> waits reqs k c"
  by (simp add: waits_def)

lemma waits_printed: "waits reqs k (client_exit c t s)" if "t \<noteq> []"
  using that by (simp add: waits_def client_exit_def)

lemma client_loop_waits: "k \<in> fst ` set reqs \<or> server_child s \<noteq> None \<Longrightarrow> waits reqs k (client_loop ty s)"
  by (auto simp: client_loop_def received_text_def client_exit_def waits_def)

lemma client_waits:
  assumes w: "waits reqs k s" and c: "client_step K True k True reqs s = Some (c, reqs')"
  shows "waits reqs' k c"
proof (cases "c_pc s = C_First \<or> c_pc s = C_Next")
  case True
  then have k: "k \<in> fst ` set reqs \<or> server_child s \<noteq> None" using w by (auto simp: waits_def)
  from True c obtain ty d q where q: "respq s = Some ((ty, d) # q)"
    by (auto simp: client_step_def split: option.splits list.splits)
  have loop: "waits reqs k (client_loop ty s2)" if "server_child s2 = server_child s" for s2
    using client_loop_waits k that by metis
  from True show ?thesis
  proof
    assume "c_pc s = C_First"
    then show ?thesis
      using c q loop by (cases "ty = RESP_MT_FAILURE") (auto simp: client_step_def intro: waits_printed)
  next
    assume "c_pc s = C_Next"
    then show ?thesis using c q loop by (auto simp: client_step_def)
  qed
next
  case False
  then show ?thesis
    using c by (cases "c_pc s") (auto simp: client_step_def waits_def client_exit_def split: if_splits)
qed

lemma calm_inv_step:
  assumes i: "calm_inv K s" and st: "svc_calm K l s = Some t"
  shows "calm_inv K t"
proof -
  have l: "calm_label l" "svc_step K l s = Some t" using st by (auto simp: svc_calm_def split: if_splits)
  have inv: "svc_inv K s" "server_up s" using i by (auto simp: calm_inv_def)
  have inv': "svc_inv K t" by (rule svc_inv_step [OF inv(1) l(2)])
  have w: "waits (requests s) k (sessions s ! k)" if "k < length (sessions s)" for k
    using i that by (simp add: calm_inv_def)
  have "server_up t \<and> length (sessions t) = length (sessions s) \<and> (\<forall>k < length (sessions t). waits (requests t) k (sessions t ! k))"
  proof (cases l)
    case (Client k ok)
    then obtain c reqs where k: "k < length (sessions s)" and c: "client_step K True k True (requests s) (sessions s ! k) = Some (c, reqs)"
      and t: "t = s\<lparr>sessions := (sessions s)[k := c], requests := reqs\<rparr>"
      using l inv(2) by (auto simp: svc_step_def calm_label_def split: if_splits)
    have sub: "fst ` set (requests s) \<subseteq> fst ` set reqs" using client_step_reqs [OF c] by auto
    have "waits reqs j ((sessions s)[k := c] ! j)" if "j < length (sessions s)" for j
      using client_waits [OF w [OF k] c] waits_mono [OF w [OF that] sub] k by (cases "j = k") auto
    then show ?thesis
      using inv(2) unfolding t by simp
  next
    case (Serve k)
    then obtain v q where k: "k < length (sessions s)"
      and t: "t = s\<lparr>sessions := (sessions s)[k := (sessions s ! k)\<lparr>server_child := Some v, respq := q\<rparr>]\<rparr>"
      using l(2) by (auto simp: svc_step_def split: if_splits option.splits)
    have "waits (requests s) j ((sessions s)[k := (sessions s ! k)\<lparr>server_child := Some v, respq := q\<rparr>] ! j)"
      if "j < length (sessions s)" for j
      using w [OF that] k by (cases "j = k") (simp_all add: waits_def)
    then show ?thesis using inv(2) unfolding t by simp
  next
    case (Server r)
    then obtain k p reqs where rq: "requests s = (k, p) # reqs"
      and t: "t = s\<lparr>requests := reqs, sessions := (sessions s)[k := (sessions s ! k)\<lparr>server_child := Some (V_Open p)\<rparr>]\<rparr>"
      using l by (auto simp: calm_label_def svc_step_def server_step_def split: if_splits list.splits)
    have "waits reqs j ((sessions s)[k := (sessions s ! k)\<lparr>server_child := Some (V_Open p)\<rparr>] ! j)"
      if "j < length (sessions s)" for j
      using w [OF that] rq that by (cases "j = k") (simp_all add: waits_def)
    then show ?thesis using inv(2) unfolding t by simp
  qed
  then show ?thesis using inv' unfolding calm_inv_def by simp
qed

lemma calm_inv_init: "calm_inv K (svc_init ps)"
  by (simp add: calm_inv_def svc_inv_init) (simp add: svc_init_def new_session_def waits_def)

text \<open>A child that cannot send finds the queue full; its client can then receive.\<close>

lemma serve_blocked:
  assumes n: "serveRequest K v q = None" and v: "\<And>c. v \<noteq> V_Done c" and b: "RESP_MSG_SIZE \<le> qbytes K"
  shows "\<exists>m ms. q = Some (m # ms)"
proof (rule ccontr)
  assume "\<not> ?thesis"
  then have "q = None \<or> q = Some []" by (metis list.exhaust option.exhaust)
  then have snd: "\<exists>x q'. msgsnd K m q = Some (x, q')" if "length (snd m) \<le> RESP_MSG_SIZE" for m
    using that b by (auto simp: msgsnd_def room_def RESP_MSG_SIZE_def)
  show False
  proof (cases v)
    case V_Fail
    then show ?thesis
      using n snd [of failure] by (auto simp: serveRequest_def failure_def couldnt_open_def RESP_MSG_SIZE_def)
  next
    case (V_Send p pos rest)
    then show ?thesis using n snd [of "(RESP_MT_DATA, take RESP_MSG_SIZE rest)"] by (auto simp: serveRequest_def)
  next
    case V_End
    then show ?thesis using n snd [of "(RESP_MT_END, [])"] by (auto simp: serveRequest_def)
  qed (use n v in \<open>auto simp: serveRequest_def split: option.splits if_splits\<close>)
qed

lemma client_can_receive:
  assumes "c_pc c = C_First \<or> c_pc c = C_Next" "respq c = Some (m # ms)"
  shows "client_step K up k True reqs c \<noteq> None"
  using assms by (cases m) (auto simp: client_step_def)

lemma client_can_act:
  assumes w: "waits [] k c" and i: "sess_inv K False c" and q: "REQ_MSG_SIZE \<le> qbytes K"
    and v: "server_child c = None \<or> (\<exists>x. server_child c = Some (V_Done x))" and e: "\<And>x. c_pc c \<noteq> C_Exited x"
  shows "client_step K True k True [] c \<noteq> None"
proof (cases "c_pc c = C_First \<or> c_pc c = C_Next")
  case True
  then obtain r q where r: "respq c = Some q" "stream K (argpath c) = r @ q @ pending K c" "\<forall>m \<in> set r. fst m = RESP_MT_DATA"
    using i by (auto simp: sess_inv_def receiving_def)
  have p: "pending K c = []" using v w True by (auto simp: waits_def pending_def)
  have ne: "stream K (argpath c) \<noteq> []" by (simp add: stream_def data_stream_def split: option.split)
  then have "fst (last (stream K (argpath c))) \<noteq> RESP_MT_DATA"
    using stream_last(1) [of K "argpath c" "butlast (stream K (argpath c))" _ _ "[]"]
    by (metis append_butlast_last_id prod.collapse)
  then have "q \<noteq> []" using r(2,3) p ne by auto
  then show ?thesis using client_can_receive [OF True] r(1) by (cases q) auto
next
  case False
  then show ?thesis using e q by (cases "c_pc c") (auto simp: client_step_def room_def REQ_MSG_SIZE_def)
qed

lemma svc_not_stuck:
  assumes i: "calm_inv K s" and b: "RESP_MSG_SIZE \<le> qbytes K" and n: "\<not> svc_finished s"
  shows "\<exists>l. svc_calm K l s \<noteq> None"
proof (cases "requests s = []")
  case False
  then have "svc_calm K (Server Rcv_forked) s \<noteq> None"
    using i by (cases "requests s") (auto simp: svc_calm_def calm_label_def svc_step_def server_step_def calm_inv_def)
  then show ?thesis by blast
next
  case rq: True
  have up: "server_up s" and inv: "svc_inv K s" using i by (simp_all add: calm_inv_def)
  obtain k where k: "k < length (sessions s)"
    and u: "(\<forall>x. c_pc (sessions s ! k) \<noteq> C_Exited x) \<or> (\<exists>v. server_child (sessions s ! k) = Some v \<and> (\<forall>x. v \<noteq> V_Done x))"
    using n rq by (auto simp: svc_finished_def in_set_conv_nth)
  let ?c = "sessions s ! k"
  have ik: "sess_inv K False ?c" using svc_inv_session [OF inv k] rq by simp
  have client: "\<exists>l. svc_calm K l s \<noteq> None" if "client_step K True k True [] ?c \<noteq> None"
    using that k up rq by (intro exI [of _ "Client k True"]) (auto simp: svc_calm_def calm_label_def svc_step_def)
  show ?thesis
  proof (cases "\<exists>v. server_child ?c = Some v \<and> (\<forall>x. v \<noteq> V_Done x)")
    case True
    then obtain v where v: "server_child ?c = Some v" "\<And>x. v \<noteq> V_Done x" by blast
    show ?thesis
    proof (cases "serveRequest K v (respq ?c)")
      case None
      then obtain m ms where "respq ?c = Some (m # ms)" using serve_blocked v(2) b by blast
      moreover from this have "c_pc ?c = C_First \<or> c_pc ?c = C_Next"
        using ik v(1) by (auto simp: sess_inv_def split: client_pc.splits)
      ultimately show ?thesis using client client_can_receive by blast
    next
      case (Some r)
      then show ?thesis
        using k v(1) by (intro exI [of _ "Serve k"]) (auto simp: svc_calm_def calm_label_def svc_step_def)
    qed
  next
    case False
    have w: "waits [] k ?c" using i k rq by (simp add: calm_inv_def)
    have "REQ_MSG_SIZE \<le> qbytes K" using b by (simp add: REQ_MSG_SIZE_def RESP_MSG_SIZE_def)
    then have "client_step K True k True [] ?c \<noteq> None"
      by (rule client_can_act [OF w ik]) (use False u in \<open>cases "server_child ?c", auto\<close>)
    then show ?thesis by (rule client)
  qed
qed

interpretation svc_run: thread_progress "svc_calm K" "\<lambda>s. calm_inv K s \<and> RESP_MSG_SIZE \<le> qbytes K" UNIV "svc_work K" svc_finished
  for K
proof unfold_locales
  fix s assume "calm_inv K s \<and> RESP_MSG_SIZE \<le> qbytes K" "\<not> svc_finished s"
  then show "can_act UNIV (svc_calm K) s" using svc_not_stuck by (auto simp: can_act_def)
qed (use calm_inv_step svc_work_less in blast)+

subsection \<open>What the service delivers\<close>

lemma bytes_data_stream: "bytes (data_stream cs) = int (length (concat cs))"
  by (induction cs) (simp_all add: data_stream_def)

lemma concat_chunks: "concat (chunks (\<lambda>_. True) pos d) = d"
  by (induction "\<lambda>_ :: nat. True" pos d rule: chunks.induct) (subst chunks.simps, auto)

lemma length_chunks: "length (chunks (\<lambda>_. True) pos d) = (length d + (RESP_MSG_SIZE - 1)) div RESP_MSG_SIZE"
proof (induction "\<lambda>_ :: nat. True" pos d rule: chunks.induct)
  case (1 pos rest)
  show ?case
  proof (cases "rest = []")
    case True
    then show ?thesis by (subst chunks.simps) (simp add: RESP_MSG_SIZE_def)
  next
    case False
    then have "length (chunks (\<lambda>_. True) pos rest) = Suc ((length rest - RESP_MSG_SIZE + (RESP_MSG_SIZE - 1)) div RESP_MSG_SIZE)"
      using 1 by (subst chunks.simps) simp
    moreover have "Suc ((n - 8192 + 8191) div 8192) = (n + 8191) div 8192" if "0 < n" for n :: nat
    proof (cases "n < 8192")
      case True
      have "n + 8191 = (n - 1) + 8192" using that by simp
      then show ?thesis using True by simp
    next
      case False
      then have "n - 8192 + 8191 = n - 1" "n + 8191 = (n - 1) + 8192" by simp_all
      then show ?thesis by simp
    qed
    ultimately show ?thesis using False by (simp add: RESP_MSG_SIZE_def)
  qed
qed

text \<open>The expected answer: the size of the file and the number of messages it takes, the last one empty.\<close>

definition expected :: "msgsys \<Rightarrow> string \<Rightarrow> int \<times> string" where
  "expected K p =
     (case file_data K p of
        None \<Rightarrow> (1, ''Couldn'' @ [CHR 0x27] @ ''t open'' @ ''\<newline>'')
      | Some d \<Rightarrow> (0, received_text (int (length d)) (int ((length d + 8191) div 8192 + 1))))"

lemma reply_expected:
  assumes "\<And>n. read_ok K p n"
  shows "reply K p = expected K p"
proof -
  have "read_ok K p = (\<lambda>_. True)" using assms by blast
  then show ?thesis
    using length_chunks [of 0] bytes_data_stream [of "chunks (\<lambda>_. True) 0 _"]
    by (auto simp: reply_def expected_def stream_def concat_chunks couldnt_open_def RESP_MSG_SIZE_def data_stream_def
        add.commute simp del: bytes_simps split: option.splits)
qed

lemma map_update_same: "(map f xs)[k := f (xs ! k)] = map f xs"
  by (cases "k < length xs") (simp_all add: list_update_same_conv list_update_beyond)

lemma svc_step_paths: "svc_step K l s = Some t \<Longrightarrow> map argpath (sessions t) = map argpath (sessions s)"
proof (cases l)
  case (Client k ok)
  moreover assume "svc_step K l s = Some t"
  ultimately obtain c reqs where "k < length (sessions s)" "client_step K (server_up s) k ok (requests s) (sessions s ! k) = Some (c, reqs)"
    "t = s\<lparr>sessions := (sessions s)[k := c], requests := reqs\<rparr>"
    by (auto simp: svc_step_def split: if_splits)
  then show ?thesis using client_step_reqs by (simp add: map_update list_update_same_conv)
qed (auto simp: svc_step_def server_step_def map_update list_update_same_conv map_update_same
    split: if_splits option.splits rcv.splits list.splits)

lemma run_paths: "run (svc_step K) (svc_init ps) s \<Longrightarrow> map argpath (sessions s) = ps"
  by (induction "svc_init ps" s rule: run.induct) (simp_all add: svc_step_paths, simp add: svc_init_def new_session_def comp_def)

lemma run_argpath:
  assumes "run (svc_step K) (svc_init ps) s" "k < length ps"
  shows "k < length (sessions s)" "argpath (sessions s ! k) = ps ! k"
  using run_paths [OF assms(1)] assms(2) by auto

lemma calm_run: "run (svc_calm K) s t \<Longrightarrow> run (svc_step K) s t"
  by (induction rule: run.induct) (auto simp: svc_calm_def intro: run.intros split: if_splits)


lemma svc_completes:
  assumes q: "RESP_MSG_SIZE \<le> qbytes K"
  shows "\<exists>s. run (svc_calm K) (svc_init ps) s \<and> svc_finished s"
    "run (svc_calm K) (svc_init ps) s \<Longrightarrow> svc_calm K l s = Some t \<Longrightarrow> svc_work K t < svc_work K s"
    "run (svc_calm K) (svc_init ps) s \<Longrightarrow> (\<And>l. svc_calm K l s = None) \<Longrightarrow> svc_finished s"
    "run (svc_calm K) (svc_init ps) s \<Longrightarrow> svc_finished s \<Longrightarrow> k < length ps \<Longrightarrow> ps ! k \<noteq> ''--help'' \<Longrightarrow> length (ps ! k) < 4096 \<Longrightarrow>
      \<exists>c. c_pc (sessions s ! k) = C_Exited c \<and> (c, c_out (sessions s ! k)) = reply K (ps ! k)"
proof -
  have init: "calm_inv K (svc_init ps) \<and> RESP_MSG_SIZE \<le> qbytes K" using calm_inv_init q by blast
  then show "\<exists>s. run (svc_calm K) (svc_init ps) s \<and> svc_finished s" by (rule svc_run.finishes)
  have inv: "calm_inv K s" if "run (svc_calm K) (svc_init ps) s" for s using svc_run.inv_run [OF that init] by blast
  show "svc_work K t < svc_work K s" if "run (svc_calm K) (svc_init ps) s" "svc_calm K l s = Some t"
    using svc_work_less inv that by blast
  show "svc_finished s" if "run (svc_calm K) (svc_init ps) s" "\<And>l. svc_calm K l s = None"
    using svc_run.stops_only_finished [OF that(1) init] that(2) by (auto simp: can_act_def)
  show "\<exists>c. c_pc (sessions s ! k) = C_Exited c \<and> (c, c_out (sessions s ! k)) = reply K (ps ! k)"
    if r: "run (svc_calm K) (svc_init ps) s" and f: "svc_finished s" "k < length ps" "ps ! k \<noteq> ''--help''" "length (ps ! k) < 4096"
  proof -
    note a = run_argpath [OF calm_run [OF r] f(2)]
    obtain c where c: "c_pc (sessions s ! k) = C_Exited c" using f(1) nth_mem [OF a(1)] unfolding svc_finished_def by blast
    have "svc_inv K s" and w: "waits (requests s) k (sessions s ! k)" using inv [OF r] a(1) by (auto simp: calm_inv_def)
    from svc_inv_session [OF this(1) a(1)] show ?thesis
      using a(2) c w f(3,4) by (auto simp: sess_inv_def waits_def)
  qed
qed

text \<open>
  C3: as long as no call fails, the service runs to its end however its processes interleave and however small the queues
  are, if one message fits: every step brings it closer to the end, it stops only when all clients and children have
  ended, and then every client with an acceptable pathname has printed its answer.
\<close>

theorem svmsg_file_completes:
  assumes "RESP_MSG_SIZE \<le> qbytes K"
  shows "(\<exists>s. run (svc_calm K) (svc_init ps) s \<and> svc_finished s) \<and>
     (\<forall>s l t. run (svc_calm K) (svc_init ps) s \<longrightarrow> svc_calm K l s = Some t \<longrightarrow> svc_work K t < svc_work K s) \<and>
     (\<forall>s. run (svc_calm K) (svc_init ps) s \<longrightarrow> (\<forall>l. svc_calm K l s = None) \<longrightarrow> svc_finished s) \<and>
     (\<forall>s k. run (svc_calm K) (svc_init ps) s \<longrightarrow> svc_finished s \<longrightarrow> k < length ps \<longrightarrow> ps ! k \<noteq> ''--help'' \<longrightarrow> length (ps ! k) < 4096 \<longrightarrow>
       (\<exists>c. c_pc (sessions s ! k) = C_Exited c \<and> (c, c_out (sessions s ! k)) = reply K (ps ! k)))"
  using svc_completes [OF assms] by blast

subsection \<open>A concrete system, and two defects\<close>

definition demo_msgsys :: msgsys where
  "demo_msgsys = \<lparr> file_data = (\<lambda>p. if p = ''f'' then Some ''abc'' else None), read_ok = (\<lambda>_ _. True), qbytes = 16384 \<rparr>"

definition svc_demo_labels :: "svclabel list" where
  "svc_demo_labels = [Client 0 True, Client 0 True, Server Rcv_forked, Serve 0, Serve 0, Serve 0, Client 0 True, Serve 0, Serve 0, Client 0 True]"

lemma svc_demo_run:
  obtains s where "run (svc_step demo_msgsys) (svc_init [''f'']) s" "c_pc (sessions s ! 0) = C_Exited 0"
proof -
  have "case exec (svc_step demo_msgsys) svc_demo_labels (svc_init [''f'']) of None \<Rightarrow> False | Some s \<Rightarrow> c_pc (sessions s ! 0) = C_Exited 0"
    by (simp add: svc_demo_labels_def svc_init_def new_session_def svc_step_def client_step_def server_step_def room_def
        demo_msgsys_def REQ_MSG_SIZE_def serveRequest_def msgsnd_def RESP_MSG_SIZE_def resp_types client_loop_def client_exit_def)
  then show ?thesis by (rule exec_reaches) (rule that)
qed


theorem svmsg_file_completes_witness:
  "\<exists>s. run (svc_calm demo_msgsys) (svc_init [''f'', ''g'']) s \<and> svc_finished s"
  using svmsg_file_completes [of demo_msgsys "[''f'', ''g'']"] by (simp add: demo_msgsys_def RESP_MSG_SIZE_def)

text \<open>
  When \<open>fork\<close> fails the server removes only its own queue: the client whose request it has taken, and those whose requests
  were still in the queue, wait for ever.
\<close>

theorem svmsg_fork_failure_hangs:
  "\<exists>s. run (svc_step demo_msgsys) (svc_init [''f'']) s \<and> c_pc (sessions s ! 0) = C_First \<and> (\<forall>l. svc_calm demo_msgsys l s = None)"
proof -
  let ?s = "\<lparr> sessions = [(new_session ''f'')\<lparr>c_pc := C_First, respq := Some []\<rparr>], requests = [], server_up = False \<rparr>"
  have "exec (svc_step demo_msgsys) [Client 0 True, Client 0 True, Server Rcv_fork_fails] (svc_init [''f'']) = Some ?s"
    by (simp add: svc_step_def svc_init_def new_session_def client_step_def server_step_def room_def demo_msgsys_def REQ_MSG_SIZE_def)
  then have "run (svc_step demo_msgsys) (svc_init [''f'']) ?s" by (rule exec_run)
  moreover have "svc_calm demo_msgsys l ?s = None" for l
    by (cases l) (auto simp: svc_calm_def calm_label_def svc_step_def server_step_def client_step_def new_session_def)
  ultimately show ?thesis by (intro exI [of _ ?s]) simp
qed

text \<open>A read that fails in the middle of the file is reported as the end of the file, and the client ends with success.\<close>

theorem svmsg_read_error_unnoticed:
  assumes "file_data K p = Some d" "\<not> read_ok K p 0"
  shows "reply K p = (0, received_text 0 1)"
  using assms by (simp add: reply_def stream_def chunks.simps [of _ 0] data_stream_def)

end
