(* ===== verification/Svsem_Op.thy ===== *)
theory Svsem_Op
  imports Get_Num
begin

text \<open>
  The program \<open>svsem/svsem_op.c\<close>: it parses groups of semaphore operations from its arguments and performs each group with
  one \<open>semop\<close>.  The fields of \<open>struct sembuf\<close> have 16 bits.
\<close>

subsection \<open>The program\<close>

record sembuf =
  sem_num :: "16 word"
  sem_op :: "16 word"
  sem_flg :: "16 word"

definition IPC_NOWAIT :: "16 word" where "IPC_NOWAIT = 0x800"
definition SEM_UNDO :: "16 word" where "SEM_UNDO = 0x1000"

definition MAX_SEMOPS :: nat where
  "MAX_SEMOPS = 1000"

unbundle bit_operations_syntax

text \<open>The loop over the flags, which stops at the first other character.\<close>

fun parse_flags :: "16 word \<Rightarrow> string \<Rightarrow> 16 word \<times> string" where
  "parse_flags flg (c # cs) =
     (if c = CHR ''n'' then parse_flags (flg OR IPC_NOWAIT) cs
      else if c = CHR ''u'' then parse_flags (flg OR SEM_UNDO) cs
      else (flg, c # cs))"
| "parse_flags flg [] = (flg, [])"

text \<open>One operation at the start of \<open>remaining\<close>; every error ends the program.\<close>

definition parse_semop :: "string \<Rightarrow> sembuf outcome" where
  "parse_semop remaining =
     (if remaining = [] \<or> \<not> isdigit (hd remaining) then Exits 1
      else case strtol 10 remaining of
        (num, sign, _) \<Rightarrow>
          if sign = [] \<or> hd sign \<notin> set ''+-='' then Exits 1
          else if tl sign = [] \<or> \<not> isdigit (hd (tl sign)) then Exits 1
          else (case strtol 10 (tl sign) of
            (v, flags, _) \<Rightarrow>
              let val = word_of_int v :: 16 word in
              if hd sign = CHR ''='' \<and> val \<noteq> 0 then Exits 1
              else (case parse_flags 0 flags of
                (flg, rest) \<Rightarrow>
                  if rest \<noteq> [] \<and> hd rest \<noteq> CHR '','' then Exits 1
                  else Returns \<lparr> sem_num = word_of_int num, sem_op = (if hd sign = CHR ''-'' then - val else val),
                                 sem_flg = flg \<rparr>)))"

function parseOps :: "nat \<Rightarrow> string \<Rightarrow> sembuf list outcome" where
  "parseOps numOps remaining =
     (if numOps \<ge> MAX_SEMOPS then Exits 1
      else case parse_semop remaining of
        Returns sop \<Rightarrow>
          (let comma = dropWhile (\<lambda>c. c \<noteq> CHR '','') remaining in
           if comma = [] then Returns [sop]
           else (case parseOps (Suc numOps) (tl comma) of
                   Returns sops \<Rightarrow> Returns (sop # sops)
                 | r \<Rightarrow> r))
      | Exits c \<Rightarrow> Exits c
      | Aborts \<Rightarrow> Aborts
      | Undefined \<Rightarrow> Undefined)"
  by pat_completeness auto
termination
proof (relation "measure (\<lambda>(_, r). length r)")
  fix numOps remaining x comma
  assume "comma = dropWhile (\<lambda>c. c \<noteq> CHR '','') remaining" "comma \<noteq> []"
  then have "length comma \<le> length remaining" "length (tl comma) < length comma"
    by (simp add: length_dropWhile_le, cases comma) auto
  then show "((Suc numOps, tl comma), numOps, remaining) \<in> measure (\<lambda>(_, r). length r)"
    by simp
qed simp

declare parseOps.simps [simp del]

text \<open>
  \<open>main()\<close> after its check of the number of arguments: \<open>semop\<close>, the process number and the clock are parameters.
\<close>

record 'w opsys =
  semop_call :: "int \<Rightarrow> sembuf list \<Rightarrow> 'w \<Rightarrow> unit sysres \<times> 'w"
  op_pid :: int
  clock :: "'w \<Rightarrow> string"

definition op_line :: "'w opsys \<Rightarrow> string \<Rightarrow> string \<Rightarrow> 'w \<Rightarrow> string" where
  "op_line K what arg w =
     replicate (5 - length (show_int (op_pid K))) CHR '' '' @ show_int (op_pid K) @ '', '' @ clock K w @ '': '' @ what @
     '' ['' @ arg @ '']'' @ ''\<newline>''"

fun op_args :: "'w opsys \<Rightarrow> string \<Rightarrow> string list \<Rightarrow> string \<Rightarrow> 'w \<Rightarrow> unit outcome \<times> string \<times> 'w" where
  "op_args K semid [] out w = (Exits 0, out, w)"
| "op_args K semid (arg # args) out w =
     (case parseOps 0 arg of
        Returns sops \<Rightarrow>
          (let out = out @ op_line K ''about to semop() '' arg w in
           case getInt (Some semid) 0 (Some ''semid'') of
             Inl _ \<Rightarrow> (Exits 1, out, w)
           | Inr ident \<Rightarrow>
               (case semop_call K ident sops w of
                  (Inl _, w) \<Rightarrow> (Exits 1, out, w)
                | (Inr _, w) \<Rightarrow> op_args K semid args (out @ op_line K ''semop() completed'' arg w) w))
      | _ \<Rightarrow> (Exits 1, out, w))"

definition svsem_op_main :: "'w opsys \<Rightarrow> string list \<Rightarrow> 'w \<Rightarrow> unit outcome \<times> string \<times> 'w" where
  "svsem_op_main K argv w =
     (case argv of
        [] \<Rightarrow> (Exits 1, [], w)
      | semid # args \<Rightarrow> if semid = ''--help'' then (Exits 1, [], w) else op_args K semid args [] w)"

subsection \<open>Printing and parsing\<close>

definition show_flags :: "16 word \<Rightarrow> string" where
  "show_flags flg = (if flg AND IPC_NOWAIT \<noteq> 0 then ''n'' else []) @ (if flg AND SEM_UNDO \<noteq> 0 then ''u'' else [])"

text \<open>The notation for an operation: \<open>+\<close>, \<open>-\<close> or \<open>=\<close> by the sign of its value.\<close>

definition show_semop :: "sembuf \<Rightarrow> string" where
  "show_semop s =
     show_base 10 (unat (sem_num s)) @
     (let v = sint (sem_op s) in
      if v = 0 then ''=0'' else if v < 0 then ''-'' @ show_base 10 (nat (- v)) else ''+'' @ show_base 10 (nat v)) @
     show_flags (sem_flg s)"

fun show_ops :: "sembuf list \<Rightarrow> string" where
  "show_ops [] = []"
| "show_ops [s] = show_semop s"
| "show_ops (s # ss) = show_semop s @ '','' @ show_ops ss"

definition flags_ok :: "sembuf \<Rightarrow> bool" where
  "flags_ok s \<longleftrightarrow> sem_flg s AND NOT (IPC_NOWAIT OR SEM_UNDO) = 0"

lemma strtol_digits:
  assumes "t = [] \<or> \<not> isdigit (hd t)" "int n \<le> LONG_MAX"
  shows "strtol 10 (show_base 10 n @ t) = (int n, t, False)"
proof -
  have all: "valid_digit 10 c" if "c \<in> set (show_base 10 n)" for c
    using show_base_digits [of 10 c n] that by auto
  have stop: "\<not> valid_digit 10 c" if "\<not> isdigit c" for c
    using that by (auto simp: valid_digit_def digit_num_def isdigit_def Let_def)
  have "takeWhile (valid_digit 10) (show_base 10 n @ t) = show_base 10 n" "dropWhile (valid_digit 10) (show_base 10 n @ t) = t"
    using all assms(1) stop by (cases t; simp add: takeWhile_all_append dropWhile_all_append)+
  then show ?thesis
    using assms(2) by (simp add: strtol_def strtol_base_def Let_def digits_value_show_base c_limits)
qed

lemma show_base_hd: "isdigit (hd (show_base 10 n @ t))"
proof -
  obtain c cs where c: "show_base 10 n = c # cs" by (meson neq_Nil_conv show_base_nonempty)
  then obtain d where "d < 10" "c = digit_char d" using show_base_digits [of 10 c n] by auto
  then show ?thesis using c by (auto simp: isdigit_def digit_char_def Let_def)
qed

lemma flag_bits: "f AND NOT (IPC_NOWAIT OR SEM_UNDO) = 0 \<Longrightarrow>
    f = (if f AND IPC_NOWAIT \<noteq> 0 then IPC_NOWAIT else 0) OR (if f AND SEM_UNDO \<noteq> 0 then SEM_UNDO else 0)"
proof -
  assume a: "f AND NOT (IPC_NOWAIT OR SEM_UNDO) = 0"
  have p: "IPC_NOWAIT = 2 ^ 11" "SEM_UNDO = 2 ^ 12" by (simp_all add: IPC_NOWAIT_def SEM_UNDO_def)
  have one: "f AND 2 ^ n = (if f AND 2 ^ n \<noteq> 0 then 2 ^ n else 0)" for n
    by (cases "bit f n") (auto intro!: bit_word_eqI simp: bit_simps)
  have "f = (f AND (IPC_NOWAIT OR SEM_UNDO)) OR (f AND NOT (IPC_NOWAIT OR SEM_UNDO))"
    by (simp add: bit_eq_iff bit_simps) blast
  also have "\<dots> = (f AND IPC_NOWAIT) OR (f AND SEM_UNDO)"
    using a by (simp add: bit.conj_disj_distrib)
  finally have "f = (f AND IPC_NOWAIT) OR (f AND SEM_UNDO)" .
  moreover have "f AND IPC_NOWAIT = (if f AND IPC_NOWAIT \<noteq> 0 then IPC_NOWAIT else 0)" by (fact one [of 11, folded p(1)])
  moreover have "f AND SEM_UNDO = (if f AND SEM_UNDO \<noteq> 0 then SEM_UNDO else 0)" by (fact one [of 12, folded p(2)])
  ultimately show ?thesis by argo
qed

lemma parse_show_flags:
  assumes "flags_ok s" "t = [] \<or> hd t = CHR '',''"
  shows "parse_flags 0 (show_flags (sem_flg s) @ t) = (sem_flg s, t)"
proof -
  have stop: "parse_flags f t = (f, t)" for f using assms(2) by (cases t) auto
  show ?thesis
    using flag_bits [of "sem_flg s"] assms(1) stop by (auto simp: flags_ok_def show_flags_def split: if_splits)
qed

lemma show_flags_hd: "show_flags f @ t = [] \<or> \<not> isdigit (hd (show_flags f @ t))" if "t = [] \<or> hd t = CHR '',''"
  using that by (cases t) (auto simp: show_flags_def isdigit_def)

lemma digit_zero: "digit_char 0 = CHR ''0''"
  by code_simp

lemma parse_show_semop:
  assumes "flags_ok s" "t = [] \<or> hd t = CHR '',''"
  shows "parse_semop (show_semop s @ t) = Returns s"
proof -
  define v where "v = sint (sem_op s)"
  define sg where "sg = (if v = 0 then CHR ''='' else if v < 0 then CHR ''-'' else CHR ''+'')"
  have sh: "show_semop s @ t = show_base 10 (unat (sem_num s)) @ sg # show_base 10 (nat \<bar>v\<bar>) @ show_flags (sem_flg s) @ t"
    using digit_zero by (simp add: show_semop_def Let_def v_def [symmetric] sg_def show_base.simps [of 10 0])
  have bound: "- (2 ^ 15) \<le> v" "v < 2 ^ 15" unfolding v_def using sint_ge [of "sem_op s"] sint_lt [of "sem_op s"] by simp_all
  have n: "uint (sem_num s) < 2 ^ 16" using unsigned_less [where ?'a = int, of "sem_num s"] by simp
  have num: "strtol 10 (show_semop s @ t) = (int (unat (sem_num s)), sg # show_base 10 (nat \<bar>v\<bar>) @ show_flags (sem_flg s) @ t, False)"
    unfolding sh by (rule strtol_digits) (use n in \<open>auto simp: sg_def isdigit_def c_limits\<close>)
  have val: "strtol 10 (show_base 10 (nat \<bar>v\<bar>) @ show_flags (sem_flg s) @ t) = (\<bar>v\<bar>, show_flags (sem_flg s) @ t, False)"
    using strtol_digits [of "show_flags (sem_flg s) @ t" "nat \<bar>v\<bar>"] show_flags_hd [OF assms(2)] bound by (simp add: c_limits)
  have op: "(if sg = CHR ''-'' then - word_of_int \<bar>v\<bar> else word_of_int \<bar>v\<bar>) = sem_op s"
  proof -
    have "word_of_int v = sem_op s" by (simp add: v_def)
    then show ?thesis by (auto simp: sg_def)
  qed
  have "sg \<in> set ''+-=''" "sg = CHR ''='' \<longrightarrow> v = 0" by (simp_all add: sg_def)
  then show ?thesis
    using num val op parse_show_flags [OF assms] assms(2) show_base_hd [of "unat (sem_num s)"] show_base_hd [of "nat \<bar>v\<bar>"]
    by (auto simp: parse_semop_def sh Let_def)
qed

lemma digit_no_comma: "CHR '','' \<notin> set (show_base 10 n)"
  using show_int_notin [of "CHR '',''" "int n"] by (simp add: show_int_def)

lemma show_semop_no_comma: "CHR '','' \<notin> set (show_semop s)"
  using digit_no_comma by (auto simp: show_semop_def show_flags_def Let_def split: if_splits)

lemma show_ops_nonempty: "ss \<noteq> [] \<Longrightarrow> show_ops ss \<noteq> []"
  by (induction ss rule: show_ops.induct) (auto simp: show_semop_def)

lemma parse_show_ops:
  assumes "ss \<noteq> []" "numOps + length ss \<le> MAX_SEMOPS" "list_all flags_ok ss"
  shows "parseOps numOps (show_ops ss) = Returns ss"
  using assms
proof (induction ss arbitrary: numOps rule: show_ops.induct)
  case (2 s)
  have "dropWhile (\<lambda>c. c \<noteq> CHR '','') (show_semop s) = []" using show_semop_no_comma [of s] by auto
  then show ?case using 2 parse_show_semop [of s "[]"] by (subst parseOps.simps) simp
next
  case (3 s s2 ss)
  have "dropWhile (\<lambda>c. c \<noteq> CHR '','') (show_semop s @ CHR '','' # show_ops (s2 # ss)) = CHR '','' # show_ops (s2 # ss)"
    by (rule dropWhile_append_stop) (use show_semop_no_comma [of s] in auto)
  then show ?case using 3 parse_show_semop [of s "'','' @ show_ops (s2 # ss)"] by (subst parseOps.simps) simp
qed simp

text \<open>
  C24: a list of at most 1000 semaphore operations, written in the notation of the program, is parsed to exactly these
  operations, for all values of the 16-bit fields and both flags.
\<close>

theorem parseOps_roundtrip:
  assumes "ss \<noteq> []" "length ss \<le> MAX_SEMOPS" "list_all flags_ok ss"
  shows "parseOps 0 (show_ops ss) = Returns ss"
  using parse_show_ops [of ss 0] assms by simp

theorem parseOps_roundtrip_witness:
  "parseOps 0 (show_ops [\<lparr> sem_num = 0, sem_op = 1, sem_flg = 0 \<rparr>, \<lparr> sem_num = 1, sem_op = - 2, sem_flg = 0x1800 \<rparr>]) =
     Returns [\<lparr> sem_num = 0, sem_op = 1, sem_flg = 0 \<rparr>, \<lparr> sem_num = 1, sem_op = - 2, sem_flg = 0x1800 \<rparr>]"
  by (rule parseOps_roundtrip) (simp_all add: MAX_SEMOPS_def flags_ok_def IPC_NOWAIT_def SEM_UNDO_def)

text \<open>
  Numbers that do not fit 16 bits are truncated: adding 65536 becomes waiting for zero, and semaphore 65536 is
  semaphore 0.
\<close>

theorem parseOps_truncates:
  assumes "int a \<le> LONG_MAX" "int b \<le> LONG_MAX"
  shows "parseOps 0 (show_base 10 a @ ''+'' @ show_base 10 b) =
     Returns [\<lparr> sem_num = word_of_nat (a mod 65536), sem_op = word_of_nat (b mod 65536), sem_flg = 0 \<rparr>]"
proof -
  have w: "(word_of_nat n :: 16 word) = word_of_nat (n mod 65536)" for n
    by (simp add: word_of_nat_eq_iff take_bit_eq_mod)
  have "strtol 10 (show_base 10 a @ CHR ''+'' # show_base 10 b) = (int a, CHR ''+'' # show_base 10 b, False)"
    by (rule strtol_digits) (use assms in \<open>auto simp: isdigit_def\<close>)
  moreover have "strtol 10 (show_base 10 b) = (int b, [], False)" using strtol_digits [of "[]" b] assms by simp
  ultimately have "parse_semop (show_base 10 a @ CHR ''+'' # show_base 10 b) =
      Returns \<lparr> sem_num = word_of_nat (a mod 65536), sem_op = word_of_nat (b mod 65536), sem_flg = 0 \<rparr>"
    using show_base_hd [of a] show_base_hd [of b "[]"] w [of a] w [of b] by (simp add: parse_semop_def)
  moreover have "dropWhile (\<lambda>c. c \<noteq> CHR '','') (show_base 10 a @ CHR ''+'' # show_base 10 b) = []"
    using digit_no_comma by auto
  ultimately show ?thesis by (subst parseOps.simps) (simp add: MAX_SEMOPS_def)
qed

end
