(* ===== verification/Execlp.thy ===== *)
theory Execlp
  imports C_String
begin

text \<open>
  The implementation of \<open>execlp\<close> in \<open>procexec/execlp.c\<close>: it collects its arguments in a growing array, searches \<open>PATH\<close> and
  runs scripts with the shell.  The call \<open>execve\<close> is a parameter; it returns only when it fails.
\<close>

subsection \<open>The function\<close>

definition EACCES :: errno where [errno_defs]: "EACCES = 13"
definition ENOEXEC :: errno where [errno_defs]: "ENOEXEC = 8"

text \<open>
  How the function ends: the process executes another program, the call returns \<open>-1\<close> with \<open>errno\<close>, or memory is written
  outside of an array.
\<close>

datatype exec_end = Execed string "string list" | Returned errno | Overflow

text \<open>\<open>execve K path argv\<close> is \<^const>\<open>None\<close> when the program is executed; \<open>alloc\<close> tells which allocations succeed.\<close>

record exsys =
  execve :: "string \<Rightarrow> string list \<Rightarrow> errno option"
  env_PATH :: "string option"
  argv_alloc :: bool
  envp_alloc :: bool

text \<open>
  Building the argument vector: an array of 100 pointers, \<open>argc\<close> of them in use.  When it is nearly full the code
  asks \<open>realloc\<close> for the size of one pointer, so that the next element lies outside the array.  The result is \<open>argc\<close>,
  which counts the final null pointer.
\<close>

fun build_argv :: "nat \<Rightarrow> nat \<Rightarrow> string option list \<Rightarrow> nat option" where
  "build_argv argvSize argc (None # _) = Some argc"
| "build_argv argvSize argc (Some a # rest) =
     (if argc + 1 \<ge> argvSize then None else build_argv argvSize (argc + 1) rest)"
| "build_argv argvSize argc [] = None"

text \<open>
  \<open>execShScript\<close> has an array of \<open>argc + 1\<close> pointers and stores the shell and then the elements 0 to \<open>argc\<close> of \<open>argv\<close> behind it.
\<close>

definition SHELL_PATH :: string where
  "SHELL_PATH = ''/bin/sh''"

definition execShScript :: "exsys \<Rightarrow> nat \<Rightarrow> string list \<Rightarrow> exec_end option" where
  "execShScript K argc argv =
     (if list_all (\<lambda>j. j + 1 < argc + 1) [0..<Suc argc] then
        (if execve K SHELL_PATH (SHELL_PATH # argv) = None then Some (Execed SHELL_PATH (SHELL_PATH # argv)) else None)
      else Some Overflow)"

text \<open>
  The loop over the prefixes in \<open>PATH\<close>; \<open>pr\<close> is the text from \<open>prStart\<close> on.
\<close>

function search_path :: "exsys \<Rightarrow> nat \<Rightarrow> string list \<Rightarrow> string \<Rightarrow> bool \<Rightarrow> string \<Rightarrow> exec_end" where
  "search_path K argc argv filename fndEACCES pr =
     (let prefix = takeWhile (\<lambda>c. c \<noteq> CHR '':'') pr;
          prEnd = dropWhile (\<lambda>c. c \<noteq> CHR '':'') pr;
          pathname = (if prefix = [] then ''.'' else prefix) @ ''/'' @ filename
      in case execve K pathname argv of
           None \<Rightarrow> Execed pathname argv
         | Some e \<Rightarrow>
             (case (if e = ENOEXEC then execShScript K argc argv else None) of
                Some r \<Rightarrow> r
              | None \<Rightarrow>
                  let fndEACCES = (fndEACCES \<or> e = EACCES) in
                  if prEnd = [] then Returned (if fndEACCES then EACCES else e)
                  else search_path K argc argv filename fndEACCES (tl prEnd)))"
  by pat_completeness auto
termination
proof (relation "measure (\<lambda>(_, _, _, _, _, p). length p)", goal_cases)
  case (2 K argc argv filename fnd pr prefix prEnd)
  then have "length prEnd \<le> length pr" "length (tl prEnd) < length prEnd"
    by (simp add: length_dropWhile_le, cases prEnd) auto
  then show ?case by simp
qed simp

declare search_path.simps [simp del]

definition execlp :: "exsys \<Rightarrow> string \<Rightarrow> string list \<Rightarrow> exec_end" where
  "execlp K filename args =
     (if \<not> argv_alloc K then Returned ENOMEM
      else case build_argv 100 1 (map Some args @ [None]) of
        None \<Rightarrow> Overflow
      | Some argc \<Rightarrow>
          if \<not> envp_alloc K then Returned ENOMEM
          else if CHR ''/'' \<in> set filename then
            (case execve K filename args of
               None \<Rightarrow> Execed filename args
             | Some e \<Rightarrow>
                 (case (if e = ENOEXEC then execShScript K argc args else None) of
                    Some r \<Rightarrow> r
                  | None \<Rightarrow> Returned e))
          else
            (let PATH = (case env_PATH K of None \<Rightarrow> ''.'' | Some p \<Rightarrow> if p = [] then ''.'' else p)
             in search_path K argc args filename False PATH))"

subsection \<open>The specification\<close>

text \<open>
  The candidates are tried in order; the first that can be executed is.  Otherwise the error is \<open>EACCES\<close> when any attempt
  was refused, and else that of the last attempt.
\<close>

fun first_exec :: "exsys \<Rightarrow> string list \<Rightarrow> string list \<Rightarrow> errno list \<Rightarrow> exec_end" where
  "first_exec K argv [] errs = Returned (if EACCES \<in> set errs then EACCES else last errs)"
| "first_exec K argv (c # cs) errs =
     (case execve K c argv of None \<Rightarrow> Execed c argv | Some e \<Rightarrow> first_exec K argv cs (errs @ [e]))"

fun join_path :: "string list \<Rightarrow> string" where
  "join_path [] = []"
| "join_path [d] = d"
| "join_path (d # ds) = d @ '':'' @ join_path ds"

definition candidate :: "string \<Rightarrow> string \<Rightarrow> string" where
  "candidate filename d = (if d = [] then ''.'' else d) @ ''/'' @ filename"

definition no_script :: "exsys \<Rightarrow> bool" where
  "no_script K \<longleftrightarrow> (\<forall>p argv. execve K p argv \<noteq> Some ENOEXEC)"

lemma build_argv_some: "argc + length args + 1 \<le> argvSize \<Longrightarrow> build_argv argvSize argc (map Some args @ [None]) = Some (argc + length args)"
proof (induction args arbitrary: argc)
  case (Cons a args)
  then show ?case by (simp add: Cons.IH [of "Suc argc"])
qed simp

lemma build_argv_none: "argvSize \<le> argc + length args \<Longrightarrow> argc < argvSize \<Longrightarrow> build_argv argvSize argc (map Some args @ [None]) = None"
  by (induction args arbitrary: argc) auto

lemma search_path_first:
  assumes "no_script K" "ds \<noteq> []" "list_all (\<lambda>d. CHR '':'' \<notin> set d) ds" "fnd \<longleftrightarrow> EACCES \<in> set errs"
  shows "search_path K argc argv filename fnd (join_path ds) = first_exec K argv (map (candidate filename) ds) errs"
  using assms(2-4)
proof (induction ds arbitrary: fnd errs rule: join_path.induct)
  case (2 d)
  have s: "takeWhile (\<lambda>c. c \<noteq> CHR '':'') d = d" "dropWhile (\<lambda>c. c \<noteq> CHR '':'') d = []" using 2(2) by auto
  show ?case
  proof (cases "execve K (candidate filename d) argv")
    case None
    then show ?thesis by (subst search_path.simps) (simp add: Let_def s candidate_def)
  next
    case (Some e)
    then have "e \<noteq> ENOEXEC" using assms(1) by (auto simp: no_script_def)
    then show ?thesis using Some 2(3) by (subst search_path.simps) (auto simp add: Let_def s candidate_def)
  qed
next
  case (3 d d2 ds)
  have "\<And>c. c \<in> set d \<Longrightarrow> c \<noteq> CHR '':''" using 3 by auto
  then have s: "takeWhile (\<lambda>c. c \<noteq> CHR '':'') (d @ CHR '':'' # join_path (d2 # ds)) = d"
    "dropWhile (\<lambda>c. c \<noteq> CHR '':'') (d @ CHR '':'' # join_path (d2 # ds)) = CHR '':'' # join_path (d2 # ds)"
    by (intro takeWhile_append_stop dropWhile_append_stop; simp)+
  show ?case
  proof (cases "execve K (candidate filename d) argv")
    case None
    then show ?thesis by (subst search_path.simps) (simp add: Let_def s candidate_def)
  next
    case (Some e)
    then have ne: "e \<noteq> ENOEXEC" using assms(1) by (auto simp: no_script_def)
    from Some have "search_path K argc argv filename fnd (d @ CHR '':'' # join_path (d2 # ds)) =
      search_path K argc argv filename (fnd \<or> e = EACCES) (join_path (d2 # ds))"
      using ne by (subst search_path.simps) (simp add: Let_def s candidate_def)
    also have "\<dots> = first_exec K argv (map (candidate filename) (d2 # ds)) (errs @ [e])"
      by (rule 3(1)) (use 3(3,4) in auto)
    finally show ?thesis using Some by simp
  qed
qed simp

text \<open>
  C25: \<open>execlp\<close> with at most 98 arguments and programs that are not scripts executes the first candidate that can be executed, in the
  order of \<open>PATH\<close> with an empty prefix for the current directory, or the pathname itself when it has a slash; when
  all attempts fail, the error is \<open>EACCES\<close> if one of them was refused and else that of the last attempt.
\<close>

theorem execlp_searches:
  assumes "length args \<le> 98" "argv_alloc K" "envp_alloc K" "no_script K"
    and "ds \<noteq> []" "list_all (\<lambda>d. CHR '':'' \<notin> set d) ds" "env_PATH K = Some (join_path ds)"
  shows "execlp K filename args =
     first_exec K args (if CHR ''/'' \<in> set filename then [filename] else map (candidate filename) ds) []"
proof -
  have b: "build_argv 100 1 (map Some args @ [None]) = Some (1 + length args)"
    by (rule build_argv_some) (use assms(1) in simp)
  have dot: "search_path K argc args filename False ''.'' = first_exec K args (map (candidate filename) ds) []"
    if "join_path ds = []" for argc
  proof -
    have "ds = [[]]" using that assms(5) by (cases ds rule: join_path.cases) auto
    moreover have "search_path K argc args filename False ''.'' = first_exec K args [candidate filename ''.''] []"
      using search_path_first [OF assms(4), of "[''.'']" False "[]" argc args filename] by simp
    ultimately show ?thesis by (simp add: candidate_def)
  qed
  show ?thesis
    using assms(2,3,4,7) b dot search_path_first [OF assms(4,5,6), of False "[]"]
    by (auto simp: execlp_def Let_def no_script_def split: option.splits)
qed

definition demo_exsys :: exsys where
  "demo_exsys = \<lparr> execve = (\<lambda>p _. if p = ''/bin/ls'' then None else if p = ''./ls'' then Some EACCES else Some ENOENT),
     env_PATH = Some '':/usr/bin:/bin'', argv_alloc = True, envp_alloc = True \<rparr>"

theorem execlp_searches_witness:
  "execlp demo_exsys ''ls'' [''ls'', ''-l''] = first_exec demo_exsys [''ls'', ''-l''] [''./ls'', ''/usr/bin/ls'', ''/bin/ls''] []"
  using execlp_searches [of "[''ls'', ''-l'']" demo_exsys "[[], ''/usr/bin'', ''/bin'']" "''ls''"]
  by (simp add: demo_exsys_def no_script_def errno_defs candidate_def)

text \<open>With 99 arguments the array of arguments overflows, because it is shrunk to one pointer.\<close>

theorem execlp_many_arguments: "argv_alloc K \<Longrightarrow> length args \<ge> 99 \<Longrightarrow> execlp K filename args = Overflow"
  using build_argv_none [of 100 1 args] by (simp add: execlp_def)

text \<open>Every script overflows the array of arguments for the shell by one element.\<close>

theorem execShScript_overflows: "execShScript K argc argv = Some Overflow"
  by (auto simp: execShScript_def list_all_iff)

end
