(* ===== verification/System_Dup.thy ===== *)
theory System_Dup
  imports Ns_Capable
begin

text \<open>
  Two library functions rebuilt from system calls: \<open>system()\<close> in \<open>procexec/system.c\<close>, which runs a shell command with the
  signals of the caller set aside, and \<open>dup()\<close> and \<open>dup2()\<close> in \<open>ex05-4/dup.c\<close>, made from \<open>fcntl(F_DUPFD)\<close>.
\<close>

subsection \<open>Signals\<close>

datatype disposition = SIG_DFL | SIG_IGN | Handler nat

definition SIGINT :: nat where "SIGINT = 2"
definition SIGQUIT :: nat where "SIGQUIT = 3"
definition SIGCHLD :: nat where "SIGCHLD = 17"

record sigstate =
  mask :: "nat set"
  disp :: "nat \<Rightarrow> disposition"

definition sigaction :: "nat \<Rightarrow> disposition \<Rightarrow> sigstate \<Rightarrow> sigstate" where
  "sigaction sig d s = s\<lparr>disp := (disp s)(sig := d)\<rparr>"

text \<open>
  The fork fails or gives a child; the results of the successive calls of \<open>waitpid\<close> are a list, each an error or the status of
  the child.
\<close>

record proc_env =
  fork_result :: "unit sysres"
  wait_results :: "int sysres list"

text \<open>The loop around \<open>waitpid\<close>: \<^const>\<open>None\<close> while the child runs; otherwise the status and the last error.\<close>

fun wait_loop :: "int sysres list \<Rightarrow> errno \<Rightarrow> (int \<times> errno) option" where
  "wait_loop [] e = None"
| "wait_loop (Inr status # _) e = Some (status, e)"
| "wait_loop (Inl e' # rs) e = (if e' \<noteq> EINTR then Some (- 1, e') else wait_loop rs e')"

text \<open>The signal settings of the child when it executes the shell.\<close>

definition system_child :: "sigstate \<Rightarrow> sigstate \<Rightarrow> sigstate" where
  "system_child orig s =
     (let s = (if disp orig SIGINT \<noteq> SIG_IGN then sigaction SIGINT SIG_DFL s else s);
          s = (if disp orig SIGQUIT \<noteq> SIG_IGN then sigaction SIGQUIT SIG_DFL s else s)
      in s\<lparr>mask := mask orig\<rparr>)"

text \<open>What the parent sets before the fork, and restores at the end.\<close>

definition system_prepare :: "sigstate \<Rightarrow> sigstate" where
  "system_prepare s = sigaction SIGQUIT SIG_IGN (sigaction SIGINT SIG_IGN (s\<lparr>mask := insert SIGCHLD (mask s)\<rparr>))"

definition system_restore :: "sigstate \<Rightarrow> sigstate \<Rightarrow> sigstate" where
  "system_restore orig s = sigaction SIGQUIT (disp orig SIGQUIT) (sigaction SIGINT (disp orig SIGINT) (s\<lparr>mask := mask orig\<rparr>))"

text \<open>
  \<open>system(command)\<close> for a command that is given: the status, \<open>errno\<close>, the settings of the caller, and those of the child with the
  arguments of \<open>execl\<close> when there is one.
\<close>

definition system :: "proc_env \<Rightarrow> string \<Rightarrow> errno \<Rightarrow> sigstate \<Rightarrow>
    ((int \<times> errno \<times> sigstate) \<times> (sigstate \<times> string list) option) option" where
  "system E command err s =
     (let s1 = system_prepare s in
      case fork_result E of
        Inl e \<Rightarrow> Some ((- 1, e, system_restore s s1), None)
      | Inr _ \<Rightarrow>
          map_option (\<lambda>(status, e). ((status, e, system_restore s s1), Some (system_child s s1, [''sh'', ''-c'', command])))
            (wait_loop (wait_results E) err))"

text \<open>Without a command: is a shell available?\<close>

definition system_null :: "proc_env \<Rightarrow> errno \<Rightarrow> sigstate \<Rightarrow> (bool \<times> errno \<times> sigstate) option" where
  "system_null E err s = map_option (\<lambda>((st, e, s), _). (st = 0, e, s)) (system E '':'' err s)"

lemma wait_loop_value:
  "list_all (\<lambda>r. r = Inl EINTR) is \<Longrightarrow> r \<noteq> Inl EINTR \<Longrightarrow>
   wait_loop (is @ r # rs) e =
     Some (case r of Inl e' \<Rightarrow> (- 1, e') | Inr status \<Rightarrow> (status, if is = [] then e else EINTR))"
  by (induction "is" arbitrary: e) (auto split: sum.splits)

text \<open>
  C26: \<open>system()\<close> leaves the signal mask and all dispositions of its caller as they were, on every path, and returns the status of the
  child, or \<open>-1\<close> when the fork or the wait fails, in spite of any number of interruptions; its child runs the shell with the
  original mask, with \<open>SIGINT\<close> and \<open>SIGQUIT\<close> ignored if the caller ignored them and at their default otherwise, and every
  other disposition unchanged.
\<close>

theorem system_restores_signals:
  assumes "wait_results E = is @ r # rs" "list_all (\<lambda>x. x = Inl EINTR) is" "r \<noteq> Inl EINTR"
  shows "\<exists>status e child. system E command err s = Some ((status, e, s), child) \<and>
     status = (case fork_result E of Inl _ \<Rightarrow> - 1 | Inr _ \<Rightarrow> (case r of Inl _ \<Rightarrow> - 1 | Inr st \<Rightarrow> st)) \<and>
     (child = None \<longleftrightarrow> (\<exists>e. fork_result E = Inl e)) \<and>
     (\<forall>c argv. child = Some (c, argv) \<longrightarrow> argv = [''sh'', ''-c'', command] \<and> mask c = mask s \<and>
        (\<forall>sig. disp c sig = (if sig \<in> {SIGINT, SIGQUIT} \<and> disp s sig \<noteq> SIG_IGN then SIG_DFL else disp s sig)))"
proof -
  have restore: "system_restore s (system_prepare s) = s"
    by (cases s) (auto simp: system_restore_def system_prepare_def sigaction_def SIGINT_def SIGQUIT_def)
  have mask: "mask (system_child s (system_prepare s)) = mask s"
    by (simp add: system_child_def Let_def)
  have disp: "disp (system_child s (system_prepare s)) sig =
      (if sig \<in> {SIGINT, SIGQUIT} \<and> disp s sig \<noteq> SIG_IGN then SIG_DFL else disp s sig)" for sig
    by (auto simp: system_child_def system_prepare_def sigaction_def Let_def SIGINT_def SIGQUIT_def)
  show ?thesis
    using wait_loop_value [OF assms(2,3), of rs err] assms(1) restore mask disp
    by (cases "fork_result E") (auto simp: system_def Let_def split: sum.splits)
qed

theorem system_restores_signals_witness:
  "\<exists>status e child. system \<lparr> fork_result = Inr (), wait_results = [Inl EINTR, Inr 256] \<rparr> ''false'' 0 \<lparr> mask = {}, disp = (\<lambda>_. SIG_DFL) \<rparr> =
     Some ((status, e, \<lparr> mask = {}, disp = (\<lambda>_. SIG_DFL) \<rparr>), child) \<and> status = 256"
  using system_restores_signals [of "\<lparr> fork_result = Inr (), wait_results = [Inl EINTR, Inr 256] \<rparr>" "[Inl EINTR]" "Inr 256" "[]"
      "''false''" 0 "\<lparr> mask = {}, disp = (\<lambda>_. SIG_DFL) \<rparr>"]
  by auto

subsection \<open>Duplicating descriptors\<close>

text \<open>The open descriptors below the limit of the process, and \<open>fcntl\<close> with \<open>F_DUPFD\<close> and \<open>F_GETFL\<close>.\<close>

record 'f fds =
  opened :: "nat \<Rightarrow> 'f option"
  limit :: nat

definition F_DUPFD :: "nat \<Rightarrow> nat \<Rightarrow> 'f fds \<Rightarrow> nat sysres \<times> 'f fds" where
  "F_DUPFD oldfd least t =
     (case opened t oldfd of
        None \<Rightarrow> (Inl EBADF, t)
      | Some f \<Rightarrow>
          if least \<ge> limit t then (Inl EINVAL, t)
          else (case find (\<lambda>k. opened t k = None) [least..<limit t] of
                  None \<Rightarrow> (Inl EMFILE, t)
                | Some k \<Rightarrow> (Inr k, t\<lparr>opened := (opened t)(k := Some f)\<rparr>)))"

definition close_desc :: "nat \<Rightarrow> 'f fds \<Rightarrow> 'f fds" where
  "close_desc d t = t\<lparr>opened := (opened t)(d := None)\<rparr>"

definition emfile_as_ebadf :: "nat sysres \<times> 'f fds \<Rightarrow> nat sysres \<times> 'f fds" where
  "emfile_as_ebadf p = (if fst p = Inl EMFILE then (Inl EBADF, snd p) else p)"

definition xdup :: "int \<Rightarrow> 'f fds \<Rightarrow> nat sysres \<times> 'f fds" where
  "xdup oldfd t = (if oldfd < 0 then (Inl EBADF, t) else emfile_as_ebadf (F_DUPFD (nat oldfd) (nat oldfd) t))"

definition xdup2 :: "int \<Rightarrow> int \<Rightarrow> 'f fds \<Rightarrow> nat sysres \<times> 'f fds" where
  "xdup2 oldfd newfd t =
     (if oldfd < 0 \<or> newfd < 0 then (Inl EBADF, t)
      else if opened t (nat oldfd) = None then (Inl EBADF, t)
      else if oldfd = newfd then (Inr (nat newfd), t)
      else emfile_as_ebadf (F_DUPFD (nat oldfd) (nat newfd) (close_desc (nat newfd) t)))"

text \<open>What \<open>dup\<close> and \<open>dup2\<close> promise: the lowest free descriptor, and the given one, closed before if need be.\<close>

definition dup_spec :: "int \<Rightarrow> 'f fds \<Rightarrow> nat sysres \<times> 'f fds" where
  "dup_spec oldfd t =
     (if oldfd < 0 \<or> opened t (nat oldfd) = None then (Inl EBADF, t)
      else (case find (\<lambda>k. opened t k = None) [0..<limit t] of
              None \<Rightarrow> (Inl EMFILE, t)
            | Some k \<Rightarrow> (Inr k, t\<lparr>opened := (opened t)(k := opened t (nat oldfd))\<rparr>)))"

definition dup2_spec :: "int \<Rightarrow> int \<Rightarrow> 'f fds \<Rightarrow> nat sysres \<times> 'f fds" where
  "dup2_spec oldfd newfd t =
     (if oldfd < 0 \<or> opened t (nat oldfd) = None \<or> newfd < 0 \<or> nat newfd \<ge> limit t then (Inl EBADF, t)
      else (Inr (nat newfd), t\<lparr>opened := (opened t)(nat newfd := opened t (nat oldfd))\<rparr>))"



text \<open>
  Above the limit the two differ: \<open>xdup2\<close> fails with \<open>EINVAL\<close>, where \<open>dup2\<close> has \<open>EBADF\<close>.  And \<open>xdup\<close> searches from the old descriptor on,
  so it misses a free one below.
\<close>

theorem xdup2_above_limit:
  assumes "0 \<le> oldfd" "opened t (nat oldfd) \<noteq> None" "int (limit t) \<le> newfd" "oldfd \<noteq> newfd"
  shows "fst (xdup2 oldfd newfd t) = Inl EINVAL" "fst (dup2_spec oldfd newfd t) = Inl EBADF"
proof -
  have "limit t \<le> nat newfd" "0 \<le> newfd" "nat oldfd \<noteq> nat newfd" using assms by auto
  then show "fst (xdup2 oldfd newfd t) = Inl EINVAL" "fst (dup2_spec oldfd newfd t) = Inl EBADF"
    using assms by (auto simp: xdup2_def dup2_spec_def F_DUPFD_def close_desc_def emfile_as_ebadf_def EMFILE_def EINVAL_def)
qed

theorem xdup_not_lowest:
  assumes "opened t 0 = None" "opened t 5 = Some f" "opened t 6 = None" "limit t = 8"
  shows "fst (xdup 5 t) = Inr 6" "fst (dup_spec 5 t) = Inr 0"
  using assms by (simp_all add: xdup_def dup_spec_def F_DUPFD_def emfile_as_ebadf_def upt_rec)

end
