(* ===== verification/Change_Case.thy ===== *)
theory Change_Case
  imports C_String Threads
begin

text \<open>
  The program \<open>pipes/change_case.c\<close>: a parent sends the blocks it reads to a child through one pipe, and the child
  returns them in upper case through another.  Both processes run in all interleavings; a pipe is its contents and the processes
  that have its write end open.
\<close>

subsection \<open>The program\<close>

definition toupper :: "char \<Rightarrow> char" where
  "toupper c = (let n = (of_char c :: nat) in if 97 \<le> n \<and> n \<le> 122 then char_of (n - 32) else c)"

definition CASE_BUF_SIZE :: nat where
  "CASE_BUF_SIZE = 100"

datatype case_parent = Q_Close | Q_Read | Q_Write string | Q_Recv | Q_Out string | Q_End int

datatype case_child = K_Close | K_Read | K_Write string | K_End int

text \<open>
  \<open>input\<close> holds the results of the reads from standard input that are still to come, before the end of file.  \<open>out_w\<close> and \<open>in_w\<close> say
  whether parent and child have the write ends of the two pipes open.
\<close>

record cc =
  q_pc :: case_parent
  k_pc :: case_child
  input :: "string sysres list"
  outbound :: string
  inbound :: string
  out_w :: "bool \<times> bool"
  in_w :: "bool \<times> bool"
  std_out :: string

text \<open>
  A label is the process that acts and, for the parent, whether a write to standard output is complete.  A process that ends
  closes its descriptors; a write to a pipe without a reader kills the writer.
\<close>

datatype cclabel = CC_Parent bool | CC_Child

definition parent_ends :: "int \<Rightarrow> cc \<Rightarrow> cc" where
  "parent_ends c s = s\<lparr>q_pc := Q_End c, out_w := (False, snd (out_w s)), in_w := (False, snd (in_w s))\<rparr>"

definition child_ends :: "int \<Rightarrow> cc \<Rightarrow> cc" where
  "child_ends c s = s\<lparr>k_pc := K_End c, out_w := (fst (out_w s), False), in_w := (fst (in_w s), False)\<rparr>"

definition cc_parent :: "bool \<Rightarrow> cc \<Rightarrow> cc option" where
  "cc_parent full s =
     (case q_pc s of
        Q_Close \<Rightarrow> Some (s\<lparr>q_pc := Q_Read, in_w := (False, snd (in_w s))\<rparr>)
      | Q_Read \<Rightarrow>
          (case input s of
             [] \<Rightarrow> Some (parent_ends 0 s)
           | Inl e # inp \<Rightarrow> Some (parent_ends 1 s)
           | Inr b # inp \<Rightarrow> Some (s\<lparr>q_pc := Q_Write b, input := inp\<rparr>))
      | Q_Write b \<Rightarrow>
          (case k_pc s of
             K_End _ \<Rightarrow> Some (parent_ends (- 1) s)
           | _ \<Rightarrow> Some (s\<lparr>q_pc := Q_Recv, outbound := outbound s @ b\<rparr>))
      | Q_Recv \<Rightarrow>
          if inbound s = [] then
            (if in_w s = (False, False) then Some (s\<lparr>q_pc := Q_Read\<rparr>) else None)
          else Some (s\<lparr>q_pc := Q_Out (take CASE_BUF_SIZE (inbound s)), inbound := drop CASE_BUF_SIZE (inbound s)\<rparr>)
      | Q_Out b \<Rightarrow> if full then Some (s\<lparr>q_pc := Q_Read, std_out := std_out s @ b\<rparr>) else Some (parent_ends 1 s)
      | Q_End _ \<Rightarrow> None)"

definition cc_child :: "cc \<Rightarrow> cc option" where
  "cc_child s =
     (case k_pc s of
        K_Close \<Rightarrow> Some (s\<lparr>k_pc := K_Read, out_w := (fst (out_w s), False)\<rparr>)
      | K_Read \<Rightarrow>
          if outbound s = [] then (if out_w s = (False, False) then Some (child_ends 0 s) else None)
          else Some (s\<lparr>k_pc := K_Write (map toupper (take CASE_BUF_SIZE (outbound s))), outbound := drop CASE_BUF_SIZE (outbound s)\<rparr>)
      | K_Write b \<Rightarrow>
          (case q_pc s of
             Q_End _ \<Rightarrow> Some (child_ends (- 1) s)
           | _ \<Rightarrow> Some (s\<lparr>k_pc := K_Read, inbound := inbound s @ b\<rparr>))
      | K_End _ \<Rightarrow> None)"

definition cc_step :: "cclabel \<Rightarrow> cc \<Rightarrow> cc option" where
  "cc_step l s = (case l of CC_Parent full \<Rightarrow> cc_parent full s | CC_Child \<Rightarrow> cc_child s)"

definition cc_init :: "string sysres list \<Rightarrow> cc" where
  "cc_init inp = \<lparr> q_pc = Q_Close, k_pc = K_Close, input = inp, outbound = [], inbound = [], out_w = (True, True),
     in_w = (True, True), std_out = [] \<rparr>"

subsection \<open>The invariant\<close>

text \<open>A read gives between 1 and 100 bytes.\<close>

definition block_ok :: "string sysres \<Rightarrow> bool" where
  "block_ok r \<longleftrightarrow> (case r of Inl _ \<Rightarrow> True | Inr b \<Rightarrow> b \<noteq> [] \<and> length b \<le> CASE_BUF_SIZE)"

text \<open>The text up to the first read that fails.\<close>

fun good_text :: "string sysres list \<Rightarrow> string" where
  "good_text (Inr b # rs) = b @ good_text rs"
| "good_text _ = []"

definition small :: "string \<Rightarrow> bool" where
  "small b \<longleftrightarrow> b \<noteq> [] \<and> length b \<le> CASE_BUF_SIZE"

text \<open>
  The block \<open>b\<close> is on its way: in the first pipe, in the child, or in the second pipe.
\<close>

definition in_flight :: "string \<Rightarrow> cc \<Rightarrow> bool" where
  "in_flight b s \<longleftrightarrow>
     (k_pc s = K_Close \<or> k_pc s = K_Read) \<and> outbound s = b \<and> inbound s = [] \<or>
     k_pc s = K_Write (map toupper b) \<and> outbound s = [] \<and> inbound s = [] \<or>
     k_pc s = K_Read \<and> outbound s = [] \<and> inbound s = map toupper b"

definition idle :: "cc \<Rightarrow> bool" where
  "idle s \<longleftrightarrow> (k_pc s = K_Close \<or> k_pc s = K_Read) \<and> outbound s = [] \<and> inbound s = []"

definition cc_inv :: "string \<Rightarrow> cc \<Rightarrow> bool" where
  "cc_inv src s \<longleftrightarrow> list_all block_ok (input s) \<and>
     (fst (out_w s) \<longleftrightarrow> (\<forall>c. q_pc s \<noteq> Q_End c)) \<and> (snd (out_w s) \<longleftrightarrow> k_pc s = K_Close) \<and>
     (fst (in_w s) \<longleftrightarrow> q_pc s = Q_Close) \<and> (snd (in_w s) \<longleftrightarrow> (\<forall>c. k_pc s \<noteq> K_End c)) \<and>
     (\<exists>passed b. src = passed @ b @ good_text (input s) \<and> std_out s = map toupper passed \<and>
       (case q_pc s of
          Q_Close \<Rightarrow> b = [] \<and> idle s
        | Q_Read \<Rightarrow> b = [] \<and> idle s
        | Q_Write c \<Rightarrow> c = b \<and> small b \<and> idle s
        | Q_Recv \<Rightarrow> small b \<and> in_flight b s
        | Q_Out c \<Rightarrow> c = map toupper b \<and> small b \<and> idle s
        | Q_End c \<Rightarrow> (idle s \<or> k_pc s = K_End 0) \<and> (c = 0 \<longrightarrow> b = [] \<and> input s = []) \<and> (c = 0 \<or> c = 1)))"

lemma cc_invI:
  assumes "list_all block_ok (input s)" "fst (out_w s) \<longleftrightarrow> (\<forall>c. q_pc s \<noteq> Q_End c)" "snd (out_w s) \<longleftrightarrow> k_pc s = K_Close"
    and "fst (in_w s) \<longleftrightarrow> q_pc s = Q_Close" "snd (in_w s) \<longleftrightarrow> (\<forall>c. k_pc s \<noteq> K_End c)"
    and "src = passed @ b @ good_text (input s)" "std_out s = map toupper passed"
    and "case q_pc s of
          Q_Close \<Rightarrow> b = [] \<and> idle s
        | Q_Read \<Rightarrow> b = [] \<and> idle s
        | Q_Write c \<Rightarrow> c = b \<and> small b \<and> idle s
        | Q_Recv \<Rightarrow> small b \<and> in_flight b s
        | Q_Out c \<Rightarrow> c = map toupper b \<and> small b \<and> idle s
        | Q_End c \<Rightarrow> (idle s \<or> k_pc s = K_End 0) \<and> (c = 0 \<longrightarrow> b = [] \<and> input s = []) \<and> (c = 0 \<or> c = 1)"
  shows "cc_inv src s"
  using assms unfolding cc_inv_def by blast

lemma cc_invE:
  assumes "cc_inv src s"
  obtains passed b where "list_all block_ok (input s)" "fst (out_w s) \<longleftrightarrow> (\<forall>c. q_pc s \<noteq> Q_End c)" "snd (out_w s) \<longleftrightarrow> k_pc s = K_Close"
    "fst (in_w s) \<longleftrightarrow> q_pc s = Q_Close" "snd (in_w s) \<longleftrightarrow> (\<forall>c. k_pc s \<noteq> K_End c)"
    "src = passed @ b @ good_text (input s)" "std_out s = map toupper passed"
    "case q_pc s of
          Q_Close \<Rightarrow> b = [] \<and> idle s
        | Q_Read \<Rightarrow> b = [] \<and> idle s
        | Q_Write c \<Rightarrow> c = b \<and> small b \<and> idle s
        | Q_Recv \<Rightarrow> small b \<and> in_flight b s
        | Q_Out c \<Rightarrow> c = map toupper b \<and> small b \<and> idle s
        | Q_End c \<Rightarrow> (idle s \<or> k_pc s = K_End 0) \<and> (c = 0 \<longrightarrow> b = [] \<and> input s = []) \<and> (c = 0 \<or> c = 1)"
  using assms unfolding cc_inv_def by blast

lemma small_map: "small b \<Longrightarrow> take CASE_BUF_SIZE (map toupper b) = map toupper b \<and> drop CASE_BUF_SIZE (map toupper b) = []"
  by (simp add: small_def)

lemma cc_inv_parent:
  assumes i: "cc_inv src s" and st: "cc_parent full s = Some t"
  shows "cc_inv src t"
proof -
  obtain passed b where e: "list_all block_ok (input s)" "fst (out_w s) \<longleftrightarrow> (\<forall>c. q_pc s \<noteq> Q_End c)" "snd (out_w s) \<longleftrightarrow> k_pc s = K_Close"
    "fst (in_w s) \<longleftrightarrow> q_pc s = Q_Close" "snd (in_w s) \<longleftrightarrow> (\<forall>c. k_pc s \<noteq> K_End c)"
    "src = passed @ b @ good_text (input s)" "std_out s = map toupper passed"
    and ph: "case q_pc s of Q_Close \<Rightarrow> b = [] \<and> idle s | Q_Read \<Rightarrow> b = [] \<and> idle s | Q_Write c \<Rightarrow> c = b \<and> small b \<and> idle s
        | Q_Recv \<Rightarrow> small b \<and> in_flight b s | Q_Out c \<Rightarrow> c = map toupper b \<and> small b \<and> idle s
        | Q_End c \<Rightarrow> (idle s \<or> k_pc s = K_End 0) \<and> (c = 0 \<longrightarrow> b = [] \<and> input s = []) \<and> (c = 0 \<or> c = 1)"
    using i by (rule cc_invE)
  show ?thesis
  proof (cases "q_pc s")
    case Q_Close
    then show ?thesis
      using st ph e by (intro cc_invI [of t src passed b]) (auto simp: cc_parent_def idle_def)
  next
    case Q_Read
    show ?thesis
    proof (cases "input s")
      case Nil
      then show ?thesis
        using Q_Read st ph e by (intro cc_invI [of t src passed b]) (auto simp: cc_parent_def parent_ends_def idle_def)
    next
      case (Cons r inp)
      show ?thesis
      proof (cases r)
        case (Inl x)
        then show ?thesis
          using Cons Q_Read st ph e by (intro cc_invI [of t src passed b]) (auto simp: cc_parent_def parent_ends_def idle_def)
      next
        case (Inr c)
        then show ?thesis
          using Cons Q_Read st ph e
          by (intro cc_invI [of t src passed c]) (auto simp: cc_parent_def idle_def block_ok_def small_def)
      qed
    qed
  next
    case (Q_Write c)
    then have "k_pc s = K_Close \<or> k_pc s = K_Read" using ph by (simp add: idle_def)
    then have "t = s\<lparr>q_pc := Q_Recv, outbound := outbound s @ c\<rparr>" using Q_Write st by (auto simp: cc_parent_def)
    then show ?thesis
      using Q_Write ph e by (intro cc_invI [of t src passed b]) (auto simp: idle_def in_flight_def)
  next
    case Q_Recv
    have b: "small b" "in_flight b s" using Q_Recv ph by auto
    have "inbound s \<noteq> []" using Q_Recv st b e(5) by (auto simp: cc_parent_def in_flight_def split: if_splits)
    then have "inbound s = map toupper b" "k_pc s = K_Read" "outbound s = []" using b by (auto simp: in_flight_def)
    then show ?thesis
      using Q_Recv st ph e b small_map [OF b(1)] \<open>inbound s \<noteq> []\<close>
      by (intro cc_invI [of t src passed b]) (auto simp: cc_parent_def idle_def)
  next
    case (Q_Out c)
    show ?thesis
    proof (cases full)
      case True
      then show ?thesis
        using Q_Out st ph e by (intro cc_invI [of t src "passed @ b" "[]"]) (auto simp: cc_parent_def idle_def)
    next
      case False
      then show ?thesis
        using Q_Out st ph e by (intro cc_invI [of t src passed b]) (auto simp: cc_parent_def parent_ends_def idle_def)
    qed
  next
    case (Q_End c)
    then show ?thesis using st by (simp add: cc_parent_def)
  qed
qed

lemma cc_inv_child:
  assumes i: "cc_inv src s" and st: "cc_child s = Some t"
  shows "cc_inv src t"
proof -
  obtain passed b where e: "list_all block_ok (input s)" "fst (out_w s) \<longleftrightarrow> (\<forall>c. q_pc s \<noteq> Q_End c)" "snd (out_w s) \<longleftrightarrow> k_pc s = K_Close"
    "fst (in_w s) \<longleftrightarrow> q_pc s = Q_Close" "snd (in_w s) \<longleftrightarrow> (\<forall>c. k_pc s \<noteq> K_End c)"
    "src = passed @ b @ good_text (input s)" "std_out s = map toupper passed"
    and ph: "case q_pc s of Q_Close \<Rightarrow> b = [] \<and> idle s | Q_Read \<Rightarrow> b = [] \<and> idle s | Q_Write c \<Rightarrow> c = b \<and> small b \<and> idle s
        | Q_Recv \<Rightarrow> small b \<and> in_flight b s | Q_Out c \<Rightarrow> c = map toupper b \<and> small b \<and> idle s
        | Q_End c \<Rightarrow> (idle s \<or> k_pc s = K_End 0) \<and> (c = 0 \<longrightarrow> b = [] \<and> input s = []) \<and> (c = 0 \<or> c = 1)"
    using i by (rule cc_invE)
  show ?thesis
  proof (cases "k_pc s")
    case K_Close
    then show ?thesis
      using st ph e by (intro cc_invI [of t src passed b]) (auto simp: cc_child_def idle_def in_flight_def split: case_parent.splits)
  next
    case K_Read
    show ?thesis
    proof (cases "outbound s = []")
      case True
      then obtain c where "q_pc s = Q_End c" "t = child_ends 0 s"
        using K_Read st e(2) by (cases "out_w s") (auto simp: cc_child_def split: if_splits)
      then show ?thesis using ph e by (intro cc_invI [of t src passed b]) (auto simp: child_ends_def)
    next
      case False
      then have q: "q_pc s = Q_Recv" using ph K_Read by (auto simp: idle_def split: case_parent.splits)
      then have b: "small b" "outbound s = b" "inbound s = []" using False ph K_Read by (auto simp: in_flight_def)
      then have "t = s\<lparr>k_pc := K_Write (map toupper b), outbound := []\<rparr>" using K_Read st False by (auto simp: cc_child_def small_def)
      then show ?thesis using q b e K_Read by (intro cc_invI [of t src passed b]) (auto simp: in_flight_def)
    qed
  next
    case (K_Write c)
    then have q: "q_pc s = Q_Recv" using ph by (auto simp: idle_def split: case_parent.splits)
    then have b: "small b" "c = map toupper b" "outbound s = []" "inbound s = []" using ph K_Write by (auto simp: in_flight_def)
    then have "t = s\<lparr>k_pc := K_Read, inbound := map toupper b\<rparr>" using K_Write st q by (auto simp: cc_child_def)
    then show ?thesis using q b e by (intro cc_invI [of t src passed b]) (auto simp: in_flight_def K_Write)
  next
    case (K_End c)
    then show ?thesis using st by (simp add: cc_child_def)
  qed
qed

lemma cc_inv_step: "cc_inv src s \<Longrightarrow> cc_step l s = Some t \<Longrightarrow> cc_inv src t"
  by (cases l) (auto simp: cc_step_def dest: cc_inv_parent cc_inv_child)

lemma cc_inv_init: "list_all block_ok inp \<Longrightarrow> cc_inv (good_text inp) (cc_init inp)"
  by (rule cc_invI [of _ _ "[]" "[]"]) (simp_all add: cc_init_def idle_def)

subsection \<open>Progress\<close>

text \<open>Every block passes through six steps.\<close>

definition cc_work :: "cc \<Rightarrow> nat" where
  "cc_work s = 6 * length (input s) +
     (case q_pc s of
        Q_Close \<Rightarrow> 2
      | Q_Read \<Rightarrow> 1
      | Q_Write _ \<Rightarrow> 6
      | Q_Recv \<Rightarrow> (if outbound s \<noteq> [] then 5 else case k_pc s of K_Write _ \<Rightarrow> 4 | _ \<Rightarrow> 3)
      | Q_Out _ \<Rightarrow> 2
      | Q_End _ \<Rightarrow> 0) +
     (case k_pc s of K_Close \<Rightarrow> 2 | K_End _ \<Rightarrow> 0 | _ \<Rightarrow> 1)"

definition cc_finished :: "cc \<Rightarrow> bool" where
  "cc_finished s \<longleftrightarrow> (\<exists>c d. q_pc s = Q_End c \<and> k_pc s = K_End d)"

lemma cc_work_less:
  assumes i: "cc_inv src s" and st: "cc_step l s = Some t"
  shows "cc_work t < cc_work s"
proof (cases l)
  case (CC_Parent full)
  then have p: "cc_parent full s = Some t" using st by (simp add: cc_step_def)
  from i show ?thesis
  proof (rule cc_invE)
    fix passed b assume e: "snd (in_w s) \<longleftrightarrow> (\<forall>c. k_pc s \<noteq> K_End c)"
      and ph: "case q_pc s of Q_Close \<Rightarrow> b = [] \<and> idle s | Q_Read \<Rightarrow> b = [] \<and> idle s | Q_Write c \<Rightarrow> c = b \<and> small b \<and> idle s
        | Q_Recv \<Rightarrow> small b \<and> in_flight b s | Q_Out c \<Rightarrow> c = map toupper b \<and> small b \<and> idle s
        | Q_End c \<Rightarrow> (idle s \<or> k_pc s = K_End 0) \<and> (c = 0 \<longrightarrow> b = [] \<and> input s = []) \<and> (c = 0 \<or> c = 1)"
    show ?thesis
    proof (cases "q_pc s")
      case Q_Recv
      then have "in_w s \<noteq> (False, False)" using ph e by (auto simp: in_flight_def)
      then show ?thesis using Q_Recv p ph by (auto simp: cc_parent_def cc_work_def in_flight_def split: if_splits)
    qed (use p ph in \<open>auto simp: cc_parent_def cc_work_def parent_ends_def idle_def split: list.splits sum.splits if_splits case_child.splits\<close>)
  qed
next
  case CC_Child
  then have p: "cc_child s = Some t" using st by (simp add: cc_step_def)
  from i show ?thesis
  proof (rule cc_invE)
    fix passed b assume e: "fst (out_w s) \<longleftrightarrow> (\<forall>c. q_pc s \<noteq> Q_End c)"
      and ph: "case q_pc s of Q_Close \<Rightarrow> b = [] \<and> idle s | Q_Read \<Rightarrow> b = [] \<and> idle s | Q_Write c \<Rightarrow> c = b \<and> small b \<and> idle s
        | Q_Recv \<Rightarrow> small b \<and> in_flight b s | Q_Out c \<Rightarrow> c = map toupper b \<and> small b \<and> idle s
        | Q_End c \<Rightarrow> (idle s \<or> k_pc s = K_End 0) \<and> (c = 0 \<longrightarrow> b = [] \<and> input s = []) \<and> (c = 0 \<or> c = 1)"
    show ?thesis
    proof (cases "k_pc s")
      case K_Read
      then show ?thesis
        using p ph e
        by (cases "out_w s") (auto simp: cc_child_def cc_work_def child_ends_def idle_def in_flight_def small_def
            split: if_splits case_parent.splits)
    qed (use p ph in \<open>auto simp: cc_child_def cc_work_def child_ends_def idle_def in_flight_def split: case_parent.splits\<close>)
  qed
qed

lemma cc_not_stuck:
  assumes i: "cc_inv src s" and n: "\<not> cc_finished s"
  shows "can_act UNIV cc_step s"
proof (cases "q_pc s = Q_Recv \<or> (\<exists>c. q_pc s = Q_End c)")
  case True
  from i have "cc_child s \<noteq> None \<or> cc_parent True s \<noteq> None"
  proof (rule cc_invE)
    fix passed b assume e: "fst (out_w s) \<longleftrightarrow> (\<forall>c. q_pc s \<noteq> Q_End c)" "snd (out_w s) \<longleftrightarrow> k_pc s = K_Close"
      and ph: "case q_pc s of Q_Close \<Rightarrow> b = [] \<and> idle s | Q_Read \<Rightarrow> b = [] \<and> idle s | Q_Write c \<Rightarrow> c = b \<and> small b \<and> idle s
        | Q_Recv \<Rightarrow> small b \<and> in_flight b s | Q_Out c \<Rightarrow> c = map toupper b \<and> small b \<and> idle s
        | Q_End c \<Rightarrow> (idle s \<or> k_pc s = K_End 0) \<and> (c = 0 \<longrightarrow> b = [] \<and> input s = []) \<and> (c = 0 \<or> c = 1)"
    show ?thesis
    proof (cases "q_pc s = Q_Recv")
      case True
      then show ?thesis
        using ph by (auto simp: in_flight_def small_def cc_child_def cc_parent_def)
    next
      case False
      then show ?thesis
        using True n ph e by (cases "out_w s") (auto simp: cc_finished_def cc_child_def idle_def)
    qed
  qed
  then show ?thesis by (auto simp: can_act_def cc_step_def intro: exI [of _ CC_Child] exI [of _ "CC_Parent True"])
next
  case False
  then have "cc_parent True s \<noteq> None"
    by (cases "q_pc s") (auto simp: cc_parent_def split: list.splits sum.splits case_child.splits)
  then show ?thesis by (auto simp: can_act_def cc_step_def intro: exI [of _ "CC_Parent True"])
qed

interpretation cc_run: thread_progress cc_step "cc_inv src" UNIV cc_work cc_finished for src
  by unfold_locales (use cc_inv_step cc_work_less cc_not_stuck in blast)+

text \<open>
  C11: in every interleaving of parent and child, what has been printed is a prefix of the input in upper case, and all of it
  when the parent ends with success; the two processes never wait for each other for ever and always end.
\<close>

theorem change_case_upper:
  assumes "list_all block_ok inp"
  shows "(\<forall>s. run cc_step (cc_init inp) s \<longrightarrow>
       (\<exists>rest. map toupper (good_text inp) = std_out s @ rest \<and> (q_pc s = Q_End 0 \<longrightarrow> rest = [])) \<and>
       (\<forall>l t. cc_step l s = Some t \<longrightarrow> cc_work t < cc_work s) \<and>
       ((\<forall>l. cc_step l s = None) \<longrightarrow> cc_finished s)) \<and>
     (\<exists>s. run cc_step (cc_init inp) s \<and> cc_finished s)"
proof (intro conjI allI impI)
  note init = cc_inv_init [OF assms]
  show "\<exists>s. run cc_step (cc_init inp) s \<and> cc_finished s" by (rule cc_run.finishes [OF init])
  fix s assume r: "run cc_step (cc_init inp) s"
  have inv: "cc_inv (good_text inp) s" by (rule cc_run.inv_run [OF r init])
  then show "\<exists>rest. map toupper (good_text inp) = std_out s @ rest \<and> (q_pc s = Q_End 0 \<longrightarrow> rest = [])"
    by (rule cc_invE) auto
  show "cc_work t < cc_work s" if "cc_step l s = Some t" for l t by (rule cc_work_less [OF inv that])
  show "cc_finished s" if "\<forall>l. cc_step l s = None"
    using cc_run.stops_only_finished [OF r init] that by (auto simp: can_act_def)
qed

theorem change_case_upper_witness:
  "\<exists>s. run cc_step (cc_init [Inr ''ab'', Inr ''c'']) s \<and> cc_finished s"
proof -
  have "list_all block_ok [Inr ''ab'', Inr ''c'']" by (simp add: block_ok_def CASE_BUF_SIZE_def)
  from change_case_upper [OF this] show ?thesis by blast
qed

end
