(* ===== verification/Sigchld.thy ===== *)
theory Sigchld
  imports C_String Threads "HOL-Library.Sublist"
begin

text \<open>
  Two programs that wait for children by their signal.  \<open>procexec/multi_SIGCHLD.c\<close> blocks \<open>SIGCHLD\<close> and waits with
  \<open>sigsuspend\<close>; \<open>namespaces/simple_init.c\<close> leaves the signal unblocked and waits with \<open>pause\<close>.  A signal that is pending is not queued a
  second time.
\<close>

subsection \<open>Blocking the signal\<close>

datatype child = Running | Zombie | Reaped

datatype wait_pc = M_Fork nat | M_Test | M_Suspend | M_Reap | M_End int

record multi =
  m_pc :: wait_pc
  children :: "child list"
  numLiveChildren :: int
  pending :: bool
  sigCnt :: nat
  m_out :: string

text \<open>
  \<open>m_out\<close> is what \<open>main()\<close> prints, without the time that starts the line; the messages of the handler and of the children are left
  out.  \<open>M_Main ok\<close>: the parent acts, and \<open>fork\<close> succeeds or not; \<open>M_Waitpid i\<close>: in the handler \<open>waitpid\<close> gives the child \<open>i\<close>; \<open>M_Exit i\<close>: the
  child \<open>i\<close> ends.
\<close>

datatype mlabel = M_Main bool | M_Waitpid nat | M_Exit nat

definition all_dead_text :: "nat \<Rightarrow> nat \<Rightarrow> string" where
  "all_dead_text n k = ''All '' @ show_int (int n) @ '' children have terminated; SIGCHLD was caught '' @ show_int (int k) @
     '' times'' @ ''\<newline>''"

text \<open>
  \<open>main()\<close>: \<open>M_Fork j\<close> has \<open>j\<close> children to create, \<open>M_Test\<close> is the test of the loop, \<open>M_Suspend\<close> is inside \<open>sigsuspend\<close>, and \<open>M_Reap\<close> inside the
  handler, during which the signal is blocked.
\<close>

definition multi_main :: "nat \<Rightarrow> bool \<Rightarrow> multi \<Rightarrow> multi option" where
  "multi_main n ok s =
     (case m_pc s of
        M_Fork j \<Rightarrow>
          (case j of
             0 \<Rightarrow> Some (s\<lparr>m_pc := M_Test\<rparr>)
           | Suc k \<Rightarrow> if ok then Some (s\<lparr>m_pc := M_Fork k, children := children s @ [Running]\<rparr>) else Some (s\<lparr>m_pc := M_End 1\<rparr>))
      | M_Test \<Rightarrow>
          if numLiveChildren s > 0 then Some (s\<lparr>m_pc := M_Suspend\<rparr>)
          else Some (s\<lparr>m_pc := M_End 0, m_out := m_out s @ all_dead_text n (sigCnt s)\<rparr>)
      | M_Suspend \<Rightarrow> if pending s then Some (s\<lparr>m_pc := M_Reap, pending := False\<rparr>) else None
      | M_Reap \<Rightarrow> if Zombie \<in> set (children s) then None else Some (s\<lparr>m_pc := M_Test, sigCnt := sigCnt s + 1\<rparr>)
      | M_End _ \<Rightarrow> None)"

text \<open>The loop of \<open>sigchldHandler()\<close>.\<close>

definition sigchldHandler :: "nat \<Rightarrow> multi \<Rightarrow> multi option" where
  "sigchldHandler i s =
     (if m_pc s = M_Reap \<and> i < length (children s) \<and> children s ! i = Zombie
      then Some (s\<lparr>children := (children s)[i := Reaped], numLiveChildren := numLiveChildren s - 1\<rparr>)
      else None)"

definition multi_step :: "nat \<Rightarrow> mlabel \<Rightarrow> multi \<Rightarrow> multi option" where
  "multi_step n l s =
     (case l of
        M_Main ok \<Rightarrow> multi_main n ok s
      | M_Waitpid i \<Rightarrow> sigchldHandler i s
      | M_Exit i \<Rightarrow>
          if i < length (children s) \<and> children s ! i = Running
          then Some (s\<lparr>children := (children s)[i := Zombie], pending := True\<rparr>) else None)"

definition multi_init :: "nat \<Rightarrow> multi" where
  "multi_init n = \<lparr> m_pc = M_Fork n, children = [], numLiveChildren = int n, pending = False, sigCnt = 0, m_out = [] \<rparr>"

subsection \<open>The invariant\<close>

definition count :: "child \<Rightarrow> multi \<Rightarrow> nat" where
  "count c s = length (filter (\<lambda>x. x = c) (children s))"

definition to_fork :: "multi \<Rightarrow> nat" where
  "to_fork s = (case m_pc s of M_Fork j \<Rightarrow> j | _ \<Rightarrow> 0)"

text \<open>
  Every child is counted while it has not been reaped; a zombie is announced by a pending signal unless the handler is about to
  look for it; and each signal caught is the end of a child.
\<close>

definition multi_inv :: "nat \<Rightarrow> multi \<Rightarrow> bool" where
  "multi_inv n s \<longleftrightarrow>
     (\<forall>c. m_pc s \<noteq> M_End c) \<longrightarrow>
       m_out s = [] \<and> length (children s) + to_fork s = n \<and>
       numLiveChildren s = int (count Running s + count Zombie s + to_fork s) \<and>
       (count Zombie s > 0 \<longrightarrow> pending s \<or> m_pc s = M_Reap) \<and>
       sigCnt s + (if pending s then 1 else 0) + (if m_pc s = M_Reap then 1 else 0) \<le> count Zombie s + count Reaped s \<and>
       (count Reaped s > 0 \<longrightarrow> sigCnt s > 0 \<or> m_pc s = M_Reap) \<and> (m_pc s = M_Suspend \<longrightarrow> numLiveChildren s > 0)"

definition multi_ended :: "nat \<Rightarrow> multi \<Rightarrow> bool" where
  "multi_ended n s \<longleftrightarrow> children s = replicate n Reaped \<and> m_out s = all_dead_text n (sigCnt s) \<and> min 1 n \<le> sigCnt s \<and> sigCnt s \<le> n"

definition multi_ok :: "nat \<Rightarrow> multi \<Rightarrow> bool" where
  "multi_ok n s \<longleftrightarrow> multi_inv n s \<and> (m_pc s = M_End 0 \<longrightarrow> multi_ended n s)"

lemma count_list_update:
  "i < length xs \<Longrightarrow> length (filter (\<lambda>x. x = c) (xs[i := y])) + (if xs ! i = c then 1 else 0) =
     length (filter (\<lambda>x. x = c) xs) + (if y = c then 1 else 0)"
proof (induction xs arbitrary: i)
  case (Cons x xs)
  show ?case
  proof (cases i)
    case (Suc k)
    then show ?thesis using Cons.IH [of k] Cons.prems by (simp split: if_splits)
  qed simp
qed simp

lemma count_update:
  assumes "i < length (children s)" "children s ! i = a" "a \<noteq> b" "children t = (children s)[i := b]"
  shows "count a s = Suc (count a t)" "count b t = Suc (count b s)" "c \<noteq> a \<Longrightarrow> c \<noteq> b \<Longrightarrow> count c t = count c s"
  using count_list_update [OF assms(1), of a b] count_list_update [OF assms(1), of b b] count_list_update [OF assms(1), of c b] assms
  by (auto simp: count_def)

lemma count_total: "count Running s + count Zombie s + count Reaped s = length (children s)"
proof -
  have "length (filter (\<lambda>x. x = Running) xs) + length (filter (\<lambda>x. x = Zombie) xs) + length (filter (\<lambda>x. x = Reaped) xs) = length xs" for xs
    by (induction xs) (auto, metis child.exhaust)
  then show ?thesis by (simp add: count_def)
qed

lemma all_reaped: "count Running s = 0 \<Longrightarrow> count Zombie s = 0 \<Longrightarrow> children s = replicate (length (children s)) Reaped"
  by (intro replicate_eqI) (auto simp: count_def filter_empty_conv, metis child.exhaust)

lemma count_simps:
  "count c (s\<lparr>m_pc := q\<rparr>) = count c s" "count c (s\<lparr>pending := b\<rparr>) = count c s" "count c (s\<lparr>sigCnt := k\<rparr>) = count c s"
  "count c (s\<lparr>m_out := x\<rparr>) = count c s"
  "count c (s\<lparr>m_pc := q, children := children s @ [Running]\<rparr>) = count c s + (if c = Running then 1 else 0)"
  by (auto simp: count_def)

lemma multi_step_waitpid:
  assumes "multi_step n (M_Waitpid j) s = Some t"
  shows "m_pc s = M_Reap" "t = s\<lparr>children := (children s)[j := Reaped], numLiveChildren := numLiveChildren s - 1\<rparr>"
    and "count Zombie s = Suc (count Zombie t)" "count Reaped t = Suc (count Reaped s)" "count Running t = count Running s"
proof -
  have c: "m_pc s = M_Reap" "j < length (children s)" "children s ! j = Zombie"
    and t: "t = s\<lparr>children := (children s)[j := Reaped], numLiveChildren := numLiveChildren s - 1\<rparr>"
    using assms by (auto simp: multi_step_def sigchldHandler_def split: if_splits)
  show "m_pc s = M_Reap" "t = s\<lparr>children := (children s)[j := Reaped], numLiveChildren := numLiveChildren s - 1\<rparr>" by fact+
  show "count Zombie s = Suc (count Zombie t)" "count Reaped t = Suc (count Reaped s)" "count Running t = count Running s"
    using count_update(1,2) [OF c(2,3), of Reaped t] count_update(3) [OF c(2,3), of Reaped t Running] t by simp_all
qed

lemma multi_step_exit:
  assumes "multi_step n (M_Exit j) s = Some t"
  shows "Running \<in> set (children s)" "t = s\<lparr>children := (children s)[j := Zombie], pending := True\<rparr>"
    and "count Running s = Suc (count Running t)" "count Zombie t = Suc (count Zombie s)" "count Reaped t = count Reaped s"
proof -
  have c: "j < length (children s)" "children s ! j = Running" and t: "t = s\<lparr>children := (children s)[j := Zombie], pending := True\<rparr>"
    using assms by (auto simp: multi_step_def split: if_splits)
  show "Running \<in> set (children s)" using c nth_mem by force
  show "t = s\<lparr>children := (children s)[j := Zombie], pending := True\<rparr>" by fact
  show "count Running s = Suc (count Running t)" "count Zombie t = Suc (count Zombie s)" "count Reaped t = count Reaped s"
    using count_update(1,2) [OF c, of Zombie t] count_update(3) [OF c, of Zombie t Reaped] t by simp_all
qed

lemma multi_ok_step:
  assumes i: "multi_ok n s" and st: "multi_step n l s = Some t"
  shows "multi_ok n t"
proof (cases l)
  case (M_Main ok)
  then have p: "multi_main n ok s = Some t" using st by (simp add: multi_step_def)
  have inv: "multi_inv n s" using i by (simp add: multi_ok_def)
  show ?thesis
  proof (cases "m_pc s")
    case (M_Fork j)
    then consider "j = 0" "t = s\<lparr>m_pc := M_Test\<rparr>"
      | k where "j = Suc k" "t = s\<lparr>m_pc := M_Fork k, children := children s @ [Running]\<rparr>" | "t = s\<lparr>m_pc := M_End 1\<rparr>"
      using p by (auto simp: multi_main_def split: nat.splits if_splits)
    then show ?thesis
      using M_Fork inv by cases (simp_all add: multi_ok_def multi_inv_def to_fork_def count_simps)
  next
    case M_Test
    show ?thesis
    proof (cases "numLiveChildren s > 0")
      case True
      then have "t = s\<lparr>m_pc := M_Suspend\<rparr>" using p M_Test by (simp add: multi_main_def)
      then show ?thesis using M_Test inv True by (simp add: multi_ok_def multi_inv_def to_fork_def count_simps)
    next
      case False
      have z: "count Running s = 0" "count Zombie s = 0" "length (children s) = n" "m_out s = []"
        and sg: "sigCnt s \<le> count Zombie s + count Reaped s" "count Reaped s > 0 \<longrightarrow> sigCnt s > 0"
        using M_Test inv False by (auto simp: multi_inv_def to_fork_def split: if_splits)
      have r: "count Reaped s = n" using count_total [of s] z by simp
      have "t = s\<lparr>m_pc := M_End 0, m_out := m_out s @ all_dead_text n (sigCnt s)\<rparr>" using p M_Test False by (simp add: multi_main_def)
      then show ?thesis
        using all_reaped [OF z(1,2)] z(2-4) sg r by (cases n) (simp_all add: multi_ok_def multi_inv_def multi_ended_def)
    qed
  next
    case M_Suspend
    then have "pending s" "t = s\<lparr>m_pc := M_Reap, pending := False\<rparr>" using p by (auto simp: multi_main_def split: if_splits)
    then show ?thesis using M_Suspend inv by (simp add: multi_ok_def multi_inv_def to_fork_def count_simps)
  next
    case M_Reap
    have "count Zombie s = 0" if "Zombie \<notin> set (children s)" using that by (auto simp: count_def filter_empty_conv)
    then show ?thesis
      using M_Reap p inv by (auto simp: multi_main_def multi_ok_def multi_inv_def to_fork_def count_def split: if_splits)
  next
    case (M_End c)
    then show ?thesis using p by (simp add: multi_main_def)
  qed
next
  case (M_Waitpid j)
  note r = multi_step_waitpid [OF st [unfolded M_Waitpid]]
  then show ?thesis
    using i r by (simp add: multi_ok_def multi_inv_def to_fork_def)
next
  case (M_Exit j)
  note r = multi_step_exit [OF st [unfolded M_Exit]]
  have "\<not> multi_ended n s" using r(1) by (auto simp: multi_ended_def)
  then show ?thesis
    using i r by (auto simp: multi_ok_def multi_inv_def to_fork_def split: if_splits)
qed

subsection \<open>Progress\<close>

definition multi_work :: "multi \<Rightarrow> nat" where
  "multi_work s = 11 * to_fork s + 10 * count Running s + 5 * count Zombie s + (if pending s then 4 else 0) +
     (case m_pc s of M_Fork _ \<Rightarrow> 4 | M_Test \<Rightarrow> 2 | M_Suspend \<Rightarrow> 1 | M_Reap \<Rightarrow> 3 | M_End _ \<Rightarrow> 0)"

definition calm_child :: "mlabel set" where
  "calm_child = {M_Main True} \<union> range M_Waitpid \<union> range M_Exit"

definition parent_ended :: "multi \<Rightarrow> bool" where
  "parent_ended s \<longleftrightarrow> (\<exists>c. m_pc s = M_End c)"

lemma multi_work_less:
  assumes st: "multi_step n l s = Some t"
  shows "multi_work t < multi_work s"
proof (cases l)
  case (M_Main ok)
  then show ?thesis
    using st by (auto simp: multi_step_def multi_main_def multi_work_def to_fork_def count_def split: wait_pc.splits nat.splits if_splits)
next
  case (M_Waitpid j)
  note r = multi_step_waitpid [OF st [unfolded M_Waitpid]]
  then show ?thesis using r by (simp add: multi_work_def to_fork_def)
next
  case (M_Exit j)
  note r = multi_step_exit [OF st [unfolded M_Exit]]
  then show ?thesis using r by (simp add: multi_work_def to_fork_def)
qed

lemma multi_not_stuck:
  assumes i: "multi_ok n s" and n: "\<not> parent_ended s"
  shows "can_act calm_child (multi_step n) s"
proof (cases "multi_main n True s")
  case None
  have inv: "multi_inv n s" using i by (simp add: multi_ok_def)
  consider "m_pc s = M_Suspend" "\<not> pending s" | "m_pc s = M_Reap" "Zombie \<in> set (children s)"
    using None n by (auto simp: multi_main_def parent_ended_def split: wait_pc.splits nat.splits if_splits)
  then show ?thesis
  proof cases
    case 1
    have "count Running s > 0"
      using inv 1 by (auto simp: multi_inv_def to_fork_def)
    then obtain j where "j < length (children s)" "children s ! j = Running"
      by (auto simp: count_def filter_empty_conv in_set_conv_nth)
    then have "multi_step n (M_Exit j) s \<noteq> None" by (simp add: multi_step_def)
    then show ?thesis by (auto simp: can_act_def calm_child_def)
  next
    case 2
    then obtain j where "j < length (children s)" "children s ! j = Zombie" by (auto simp: in_set_conv_nth)
    then have "multi_step n (M_Waitpid j) s \<noteq> None" using 2 by (simp add: multi_step_def sigchldHandler_def)
    then show ?thesis by (auto simp: can_act_def calm_child_def)
  qed
next
  case (Some t)
  then show ?thesis by (auto simp: can_act_def calm_child_def multi_step_def)
qed

interpretation reaping: thread_progress "multi_step n" "multi_ok n" calm_child multi_work parent_ended for n
  by unfold_locales (use multi_ok_step multi_work_less multi_not_stuck in blast)+

lemma multi_ok_init: "multi_ok n (multi_init n)"
  by (simp add: multi_ok_def multi_inv_def multi_init_def to_fork_def count_def)

text \<open>
  C10: however the ends of the children interleave with the parent, and although signals that arrive while one is pending are
  lost, a parent that ends with success has reaped all its children and has caught between one signal and one per child; the parent
  never sleeps while nothing can wake it, and every run ends.
\<close>

theorem multi_SIGCHLD_reaps:
  "(\<forall>s. run (multi_step n) (multi_init n) s \<longrightarrow>
      (m_pc s = M_End 0 \<longrightarrow> children s = replicate n Reaped \<and> m_out s = all_dead_text n (sigCnt s) \<and>
         min 1 n \<le> sigCnt s \<and> sigCnt s \<le> n) \<and>
      (\<forall>l t. multi_step n l s = Some t \<longrightarrow> multi_work t < multi_work s) \<and>
      (\<not> parent_ended s \<longrightarrow> can_act calm_child (multi_step n) s)) \<and>
   (\<exists>s. run (multi_step n) (multi_init n) s \<and> parent_ended s)"
proof (intro conjI allI impI)
  show "\<exists>s. run (multi_step n) (multi_init n) s \<and> parent_ended s" by (rule reaping.finishes [OF multi_ok_init])
  fix s assume "run (multi_step n) (multi_init n) s"
  then have ok: "multi_ok n s" using reaping.inv_run multi_ok_init by blast
  show "can_act calm_child (multi_step n) s" if "\<not> parent_ended s" by (rule multi_not_stuck [OF ok that])
  show "multi_work t < multi_work s" if "multi_step n l s = Some t" for l t by (rule multi_work_less [OF that])
  assume "m_pc s = M_End 0"
  then have "multi_ended n s" using ok by (simp add: multi_ok_def)
  then show "children s = replicate n Reaped" "m_out s = all_dead_text n (sigCnt s)" "min 1 n \<le> sigCnt s" "sigCnt s \<le> n"
    by (simp_all add: multi_ended_def)
qed

text \<open>Two children end before the parent waits: one signal is caught for both.\<close>

theorem multi_SIGCHLD_reaps_witness:
  "\<exists>s. run (multi_step 2) (multi_init 2) s \<and> m_pc s = M_End 0 \<and> children s = [Reaped, Reaped] \<and> sigCnt s = 1"
proof -
  have "case exec (multi_step 2) [M_Main True, M_Main True, M_Exit 1, M_Exit 0, M_Main True, M_Main True, M_Main True,
          M_Waitpid 0, M_Waitpid 1, M_Main True, M_Main True] (multi_init 2) of None \<Rightarrow> False | Some s \<Rightarrow> m_pc s = M_End 0 \<and> sigCnt s = 1"
    by (simp add: multi_step_def multi_main_def multi_init_def sigchldHandler_def numeral_2_eq_2)
  then obtain s where s: "run (multi_step 2) (multi_init 2) s" "m_pc s = M_End 0" "sigCnt s = 1" by (rule exec_reaches) auto
  then have "children s = replicate 2 Reaped" using multi_SIGCHLD_reaps [of 2] by blast
  then show ?thesis using s by (auto simp: numeral_2_eq_2)
qed

subsection \<open>Leaving the signal unblocked\<close>

text \<open>
  The shell of \<open>namespaces/simple_init.c\<close>.  Its input is the list of strings that \<open>fgets\<close> returns; \<open>jobs\<close> and \<open>stopped\<close> count the
  children that run and that are stopped.  The messages and the mount of \<open>/proc\<close> are left out.
\<close>

datatype init_pc = I_Prompt | I_Fork string | I_Pause | I_Paused | I_Foreground | I_End int

record init_shell =
  i_pc :: init_pc
  commands :: "string list"
  created :: "string list"
  jobs :: nat
  stopped :: nat

definition strip_newline :: "string \<Rightarrow> string" where
  "strip_newline cmd = (if cmd \<noteq> [] \<and> last cmd = CHR ''\<newline>'' then butlast cmd else cmd)"

definition simple_init_main :: "bool \<Rightarrow> init_shell \<Rightarrow> init_shell option" where
  "simple_init_main ok s =
     (case i_pc s of
        I_Prompt \<Rightarrow>
          (case commands s of
             [] \<Rightarrow> Some (s\<lparr>i_pc := I_End 0\<rparr>)
           | l # ls \<Rightarrow>
               let cmd = strip_newline l
               in Some (s\<lparr>i_pc := (if cmd = [] then I_Prompt else I_Fork cmd), commands := ls\<rparr>))
      | I_Fork cmd \<Rightarrow>
          if ok then Some (s\<lparr>i_pc := I_Pause, created := created s @ [cmd], jobs := jobs s + 1\<rparr>) else Some (s\<lparr>i_pc := I_End 0\<rparr>)
      | I_Pause \<Rightarrow> Some (s\<lparr>i_pc := I_Paused\<rparr>)
      | I_Paused \<Rightarrow> None
      | I_Foreground \<Rightarrow> Some (s\<lparr>i_pc := (if ok then I_Prompt else I_End 1)\<rparr>)
      | I_End _ \<Rightarrow> None)"

text \<open>
  A child ends: the signal is not blocked, so \<open>child_handler()\<close> runs at once, wherever the shell is; it reaps the child, and only a
  shell inside \<open>pause\<close> is woken.  With \<open>SA_NOCLDSTOP\<close> a child that stops sends no signal.
\<close>

definition child_handler :: "init_shell \<Rightarrow> init_shell option" where
  "child_handler s =
     (if jobs s = 0 then None
      else Some (s\<lparr>jobs := jobs s - 1, i_pc := (if i_pc s = I_Paused then I_Foreground else i_pc s)\<rparr>))"

datatype ilabel = I_Main bool | I_Ends | I_Stops

definition simple_init_step :: "ilabel \<Rightarrow> init_shell \<Rightarrow> init_shell option" where
  "simple_init_step l s =
     (case l of
        I_Main ok \<Rightarrow> simple_init_main ok s
      | I_Ends \<Rightarrow> child_handler s
      | I_Stops \<Rightarrow> if jobs s = 0 then None else Some (s\<lparr>jobs := jobs s - 1, stopped := stopped s + 1\<rparr>))"

definition simple_init_start :: "string list \<Rightarrow> init_shell" where
  "simple_init_start ls = \<lparr> i_pc = I_Prompt, commands = ls, created = [], jobs = 0, stopped = 0 \<rparr>"

definition to_run :: "string list \<Rightarrow> string list" where
  "to_run ls = filter (\<lambda>c. c \<noteq> []) (map strip_newline ls)"

definition simple_init_inv :: "string list \<Rightarrow> init_shell \<Rightarrow> bool" where
  "simple_init_inv ls s \<longleftrightarrow>
     (case i_pc s of
        I_Fork c \<Rightarrow> to_run ls = created s @ c # to_run (commands s)
      | I_End _ \<Rightarrow> prefix (created s) (to_run ls)
      | _ \<Rightarrow> to_run ls = created s @ to_run (commands s))"

interpretation init_order: thread_invariant simple_init_step "simple_init_inv ls" for ls
proof
  fix s l t
  assume i: "simple_init_inv ls s" and st: "simple_init_step l s = Some t"
  show "simple_init_inv ls t"
  proof (cases l)
    case (I_Main ok)
    then show ?thesis
      using i st
      by (auto simp: simple_init_step_def simple_init_main_def simple_init_inv_def to_run_def Let_def split: init_pc.splits list.splits if_splits)
  next
    case I_Ends
    then show ?thesis
      using i st by (auto simp: simple_init_step_def child_handler_def simple_init_inv_def split: init_pc.splits if_splits)
  next
    case I_Stops
    then show ?thesis
      using i st by (auto simp: simple_init_step_def simple_init_inv_def split: init_pc.splits if_splits)
  qed
qed

text \<open>The commands that are not empty are started in order, each at most once.\<close>

theorem simple_init_order:
  assumes "run simple_init_step (simple_init_start ls) s"
  shows "prefix (created s) (to_run ls)"
proof -
  have "simple_init_inv ls (simple_init_start ls)" by (simp add: simple_init_inv_def simple_init_start_def)
  then have "simple_init_inv ls s" by (rule init_order.inv_run [OF assms])
  then show ?thesis by (auto simp: simple_init_inv_def split: init_pc.splits)
qed

text \<open>
  A child that ends between \<open>fork()\<close> and \<open>pause()\<close>, or one that stops, leaves the shell asleep: nothing but a signal from outside the
  program wakes it, and the commands that follow are not read.
\<close>

definition asleep :: "init_shell \<Rightarrow> bool" where
  "asleep s \<longleftrightarrow> (\<forall>l. simple_init_step l s = None) \<and> i_pc s = I_Paused"

lemma asleepI: "i_pc s = I_Paused \<Longrightarrow> jobs s = 0 \<Longrightarrow> asleep s"
  by (auto simp: asleep_def simple_init_step_def simple_init_main_def child_handler_def split: ilabel.splits)

theorem simple_init_sleeps:
  assumes "strip_newline cmd \<noteq> []"
  shows "(\<exists>s. run simple_init_step (simple_init_start (cmd # ls)) s \<and> asleep s \<and> stopped s = 0 \<and> commands s = ls) \<and>
    (\<exists>s. run simple_init_step (simple_init_start (cmd # ls)) s \<and> asleep s \<and> stopped s = 1 \<and> commands s = ls)"
proof -
  have "case exec simple_init_step [I_Main True, I_Main True, l, I_Main True] (simple_init_start (cmd # ls)) of None \<Rightarrow> False
      | Some s \<Rightarrow> i_pc s = I_Paused \<and> jobs s = 0 \<and> stopped s = (if l = I_Stops then 1 else 0) \<and> commands s = ls"
    if "l = I_Ends \<or> l = I_Stops" for l
    using that assms
    by (auto simp: simple_init_step_def simple_init_main_def simple_init_start_def child_handler_def)
  from exec_reaches [OF this [of I_Ends]] exec_reaches [OF this [of I_Stops]] show ?thesis
    by (metis asleepI ilabel.distinct(5))
qed

end
