(* ===== verification/Sem_Init.thy ===== *)
theory Sem_Init
  imports Threads "HOL-Library.Word"
begin

text \<open>
  The programs \<open>svsem/svsem_good_init.c\<close> and \<open>svsem/svsem_bad_init.c\<close>: any number of processes, of which the first creates and
  initialises a semaphore, operate on it.  The creation and the initialisation are two calls.  The processes run in all
  interleavings; the messages and the pauses are left out.
\<close>

subsection \<open>The semaphore\<close>

text \<open>
  A set of one semaphore with its value and whether \<open>sem_otime\<close> is not zero, that is, whether an operation has been performed.
\<close>

record semset =
  semval :: int
  sem_otime :: bool

definition SEMVMX :: int where
  "SEMVMX = 32767"

datatype semop_result = Sem_Done semset | Sem_Fails | Sem_Waits

definition semop :: "int \<Rightarrow> semset \<Rightarrow> semop_result" where
  "semop n k =
     (if n > 0 then if semval k + n > SEMVMX then Sem_Fails else Sem_Done \<lparr> semval = semval k + n, sem_otime = True \<rparr>
      else if n = 0 then if semval k = 0 then Sem_Done (k\<lparr>sem_otime := True\<rparr>) else Sem_Waits
      else if semval k + n \<ge> 0 then Sem_Done \<lparr> semval = semval k + n, sem_otime = True \<rparr> else Sem_Waits)"

text \<open>The field \<open>sem_op\<close> has 16 bits.\<close>

definition short_of :: "int \<Rightarrow> int" where
  "short_of n = sint (word_of_int n :: 16 word)"

subsection \<open>Creation, initialisation and use\<close>

datatype sem_pc = S_Create | S_Setval | S_Dummy | S_Get | S_Try nat | S_Op | S_End int

text \<open>A process with its point of control and the number on its command line.\<close>

record sem_proc =
  s_pc :: sem_pc
  op_arg :: int

definition MAX_TRIES :: nat where
  "MAX_TRIES = 10"

text \<open>
  The result is the next point of control and the semaphore; \<^const>\<open>None\<close> while the process waits.  The argument \<open>ok\<close> says whether the
  call the process makes succeeds, and \<open>v\<close> is the value of a semaphore before it is set.
\<close>

definition after_semop :: "int \<Rightarrow> sem_pc \<Rightarrow> semset option \<Rightarrow> (sem_pc \<times> semset option) option" where
  "after_semop n q k =
     (case k of
        None \<Rightarrow> Some (S_End 1, k)
      | Some m \<Rightarrow> (case semop n m of Sem_Done m' \<Rightarrow> Some (q, Some m') | Sem_Fails \<Rightarrow> Some (S_End 1, k) | Sem_Waits \<Rightarrow> None))"

definition good_init :: "int \<Rightarrow> bool \<Rightarrow> sem_proc \<Rightarrow> semset option \<Rightarrow> (sem_pc \<times> semset option) option" where
  "good_init v ok p k =
     (case s_pc p of
        S_End _ \<Rightarrow> None
      | pc \<Rightarrow>
          if \<not> ok then Some (S_End 1, k)
          else
            (case pc of
               S_Create \<Rightarrow>
                 (case k of None \<Rightarrow> Some (S_Setval, Some \<lparr> semval = v, sem_otime = False \<rparr>) | Some _ \<Rightarrow> Some (S_Get, k))
             | S_Setval \<Rightarrow> Some (S_Dummy, map_option (\<lambda>m. m\<lparr>semval := 0\<rparr>) k)
             | S_Dummy \<Rightarrow> after_semop 0 S_Op k
             | S_Get \<Rightarrow> (case k of None \<Rightarrow> Some (S_End 1, k) | Some _ \<Rightarrow> Some (S_Try 0, k))
             | S_Try j \<Rightarrow>
                 if j < MAX_TRIES then
                   (case k of None \<Rightarrow> Some (S_End 1, k) | Some m \<Rightarrow> Some (if sem_otime m then S_Op else S_Try (j + 1), k))
                 else Some (S_End 1, k)
             | S_Op \<Rightarrow> after_semop (short_of (op_arg p)) (S_End 0) k))"

text \<open>The wrong way: the creator performs no operation, and the others do not wait for one.  The operation is always 1.\<close>

definition bad_init :: "int \<Rightarrow> bool \<Rightarrow> sem_proc \<Rightarrow> semset option \<Rightarrow> (sem_pc \<times> semset option) option" where
  "bad_init v ok p k =
     (case s_pc p of
        S_End _ \<Rightarrow> None
      | pc \<Rightarrow>
          if \<not> ok then Some (S_End 1, k)
          else
            (case pc of
               S_Create \<Rightarrow>
                 (case k of None \<Rightarrow> Some (S_Setval, Some \<lparr> semval = v, sem_otime = False \<rparr>) | Some _ \<Rightarrow> Some (S_Get, k))
             | S_Setval \<Rightarrow> Some (S_Op, map_option (\<lambda>m. m\<lparr>semval := 0\<rparr>) k)
             | S_Get \<Rightarrow> (case k of None \<Rightarrow> Some (S_End 1, k) | Some _ \<Rightarrow> Some (S_Op, k))
             | S_Op \<Rightarrow> after_semop 1 (S_End 0) k
             | _ \<Rightarrow> None))"

record sem_world =
  sem :: "semset option"
  sem_procs :: "sem_proc list"

type_synonym sem_program = "bool \<Rightarrow> sem_proc \<Rightarrow> semset option \<Rightarrow> (sem_pc \<times> semset option) option"

definition sem_step :: "sem_program \<Rightarrow> nat \<times> bool \<Rightarrow> sem_world \<Rightarrow> sem_world option" where
  "sem_step prog l s =
     (let i = fst l in
      if i < length (sem_procs s) then
        case prog (snd l) (sem_procs s ! i) (sem s) of
          None \<Rightarrow> None
        | Some (q, k) \<Rightarrow> Some \<lparr> sem = k, sem_procs = (sem_procs s)[i := (sem_procs s ! i)\<lparr>s_pc := q\<rparr>] \<rparr>
      else None)"

definition sem_start :: "int list \<Rightarrow> sem_world" where
  "sem_start ns = \<lparr> sem = None, sem_procs = map (\<lambda>n. \<lparr> s_pc = S_Create, op_arg = n \<rparr>) ns \<rparr>"

subsection \<open>The invariant\<close>

definition initialising :: "sem_proc \<Rightarrow> bool" where
  "initialising p \<longleftrightarrow> s_pc p = S_Setval \<or> s_pc p = S_Dummy"

definition operated :: "sem_proc \<Rightarrow> int" where
  "operated p = (if s_pc p = S_End 0 then short_of (op_arg p) else 0)"

definition one_initialises :: "sem_proc list \<Rightarrow> bool" where
  "one_initialises ps \<longleftrightarrow> (\<forall>i < length ps. \<forall>j < length ps. initialising (ps ! i) \<longrightarrow> initialising (ps ! j) \<longrightarrow> i = j)"

text \<open>
  Before the first operation no process is about to operate; after it none is about to initialise, and the value is the sum
  of the operations that have succeeded.
\<close>

definition sem_inv :: "sem_world \<Rightarrow> bool" where
  "sem_inv s \<longleftrightarrow>
     (let ps = sem_procs s in
      case sem s of
        None \<Rightarrow> \<forall>p \<in> set ps. s_pc p = S_Create \<or> s_pc p = S_End 1
      | Some k \<Rightarrow>
          one_initialises ps \<and>
          (if sem_otime k then (\<forall>p \<in> set ps. \<not> initialising p) \<and> semval k = sum_list (map operated ps)
           else \<forall>p \<in> set ps. s_pc p \<noteq> S_Op \<and> s_pc p \<noteq> S_End 0 \<and> (s_pc p = S_Dummy \<longrightarrow> semval k = 0)))"

text \<open>What one step of a process does to an existing semaphore.\<close>

lemma good_init_cases:
  assumes "good_init v ok p (Some m) = Some (q, k)"
  obtains (quiet) "k = Some m" "q \<notin> {S_Setval, S_Dummy, S_Op, S_End 0}" "s_pc p \<noteq> S_End 0"
  | (setval) "s_pc p = S_Setval" "q = S_Dummy" "k = Some (m\<lparr>semval := 0\<rparr>)"
  | (dummy) "s_pc p = S_Dummy" "q = S_Op" "semval m = 0" "k = Some (m\<lparr>sem_otime := True\<rparr>)"
  | (ready) j where "s_pc p = S_Try j" "q = S_Op" "sem_otime m" "k = Some m"
  | (oper) "s_pc p = S_Op" "q = S_End 0" "k = Some \<lparr> semval = semval m + short_of (op_arg p), sem_otime = True \<rparr>"
proof (cases "s_pc p")
  case (S_End c)
  then show ?thesis using assms by (simp add: good_init_def)
next
  case S_Op
  then show ?thesis
    using assms that(1,5)
    by (auto simp: good_init_def after_semop_def semop_def split: if_splits)
qed (use assms that in \<open>auto simp: good_init_def after_semop_def semop_def split: if_splits\<close>)

lemma good_init_first:
  assumes "good_init v ok p None = Some (q, k)" "s_pc p = S_Create \<or> s_pc p = S_End 1"
  obtains "q = S_End 1" "k = None" | "q = S_Setval" "k = Some \<lparr> semval = v, sem_otime = False \<rparr>"
  using assms by (auto simp: good_init_def split: if_splits)

lemma sem_stepE:
  assumes "sem_step prog l s = Some t"
  obtains i q where "i < length (sem_procs s)" "prog (snd l) (sem_procs s ! i) (sem s) = Some (q, sem t)"
    "sem_procs t = (sem_procs s)[i := (sem_procs s ! i)\<lparr>s_pc := q\<rparr>]"
  using assms by (auto simp: sem_step_def Let_def split: if_splits option.splits)

lemma one_initialises_update:
  assumes "one_initialises ps" "n < length ps" "initialising p \<Longrightarrow> initialising (ps ! n)"
  shows "one_initialises (ps[n := p])"
  using assms unfolding one_initialises_def by (simp add: nth_list_update) blast

lemma one_initialises_first:
  assumes "\<forall>p \<in> set ps. \<not> initialising p" "n < length ps"
  shows "one_initialises (ps[n := p])"
proof -
  have "\<not> initialising (ps ! i)" if "i < length ps" for i using assms(1) that by simp
  then show ?thesis using assms(2) by (simp add: one_initialises_def nth_list_update)
qed

lemma one_initialises_last:
  assumes one: "one_initialises ps" "initialising (ps ! n)" and n: "n < length ps" and p: "\<not> initialising p"
  shows "\<forall>q \<in> set (ps[n := p]). \<not> initialising q"
proof -
  have "\<not> initialising (ps[n := p] ! i)" if "i < length ps" for i
    using one n p that by (cases "i = n") (auto simp: one_initialises_def)
  then show ?thesis by (simp add: all_set_conv_all_nth)
qed

lemma all_update: "\<forall>p \<in> set ps. P p \<Longrightarrow> P x \<Longrightarrow> \<forall>p \<in> set (ps[n := x]). P p"
  using set_update_subset_insert [of ps n x] by blast

lemma calm_update:
  assumes "\<forall>p \<in> set ps. \<not> initialising p" "n < length ps" "\<not> initialising x"
  shows "(\<forall>p \<in> set (ps[n := x]). \<not> initialising p) \<and>
    sum_list (map operated (ps[n := x])) = sum_list (map operated ps) + operated x - operated (ps ! n)"
  using all_update [OF assms(1,3)] sum_list_update_int [OF assms(2), of operated x] by simp

lemma operated_none: "\<forall>p \<in> set ps. s_pc p \<noteq> S_End 0 \<Longrightarrow> sum_list (map operated ps) = 0"
  by (induction ps) (auto simp: operated_def)

lemma sem_inv_step:
  assumes i: "sem_inv s" and st: "sem_step (good_init v) l s = Some t"
  shows "sem_inv t"
proof -
  obtain n q where n: "n < length (sem_procs s)" and p: "good_init v (snd l) (sem_procs s ! n) (sem s) = Some (q, sem t)"
    and t: "sem_procs t = (sem_procs s)[n := (sem_procs s ! n)\<lparr>s_pc := q\<rparr>]"
    using st by (rule sem_stepE)
  let ?p = "sem_procs s ! n" and ?ps = "sem_procs s"
  have mem: "?p \<in> set ?ps" using n by simp
  show ?thesis
  proof (cases "sem s")
    case None
    then have all: "\<forall>p \<in> set ?ps. s_pc p = S_Create \<or> s_pc p = S_End 1" using i by (simp add: sem_inv_def)
    from p [unfolded None] show ?thesis
    proof (rule good_init_first)
      show "s_pc ?p = S_Create \<or> s_pc ?p = S_End 1" using all mem by blast
    next
      assume "q = S_End 1" "sem t = None"
      then show ?thesis using all_update [OF all, of "?p\<lparr>s_pc := q\<rparr>" n] by (simp add: sem_inv_def t)
    next
      assume q: "q = S_Setval" "sem t = Some \<lparr> semval = v, sem_otime = False \<rparr>"
      have "one_initialises (sem_procs t)" unfolding t by (rule one_initialises_first) (use all n in \<open>auto simp: initialising_def\<close>)
      moreover have "\<forall>p \<in> set (sem_procs t). s_pc p \<noteq> S_Op \<and> s_pc p \<noteq> S_End 0 \<and> s_pc p \<noteq> S_Dummy"
        unfolding t using all q by (intro all_update) auto
      ultimately show ?thesis using q by (simp add: sem_inv_def)
    qed
  next
    case (Some m)
    have one: "one_initialises ?ps"
      and on: "sem_otime m \<Longrightarrow> (\<forall>p \<in> set ?ps. \<not> initialising p) \<and> semval m = sum_list (map operated ?ps)"
      and off: "\<not> sem_otime m \<Longrightarrow> \<forall>p \<in> set ?ps. s_pc p \<noteq> S_Op \<and> s_pc p \<noteq> S_End 0 \<and> (s_pc p = S_Dummy \<longrightarrow> semval m = 0)"
      using i Some by (auto simp: sem_inv_def Let_def split: if_splits)
    from p [unfolded Some] show ?thesis
    proof (cases rule: good_init_cases)
      case quiet
      then have "one_initialises (sem_procs t)" unfolding t by (intro one_initialises_update [OF one n]) (simp add: initialising_def)
      moreover have "(\<forall>p \<in> set (sem_procs t). \<not> initialising p) \<and> semval m = sum_list (map operated (sem_procs t))" if "sem_otime m"
        using on [OF that] quiet calm_update [OF _ n, of "?p\<lparr>s_pc := q\<rparr>"] by (simp add: t operated_def initialising_def)
      moreover have "\<forall>p \<in> set (sem_procs t). s_pc p \<noteq> S_Op \<and> s_pc p \<noteq> S_End 0 \<and> (s_pc p = S_Dummy \<longrightarrow> semval m = 0)"
        if "\<not> sem_otime m"
        unfolding t using off [OF that] quiet by (intro all_update) auto
      ultimately show ?thesis using quiet by (simp add: sem_inv_def)
    next
      case setval
      have ini: "initialising ?p" using setval by (simp add: initialising_def)
      then have "\<not> sem_otime m" using on mem by blast
      moreover have "one_initialises (sem_procs t)" unfolding t by (rule one_initialises_update [OF one n]) (rule ini)
      moreover have "\<forall>p \<in> set (sem_procs t). s_pc p \<noteq> S_Op \<and> s_pc p \<noteq> S_End 0"
        unfolding t using off calculation setval by (intro all_update) auto
      ultimately show ?thesis using setval by (simp add: sem_inv_def)
    next
      case dummy
      have ini: "initialising ?p" using dummy by (simp add: initialising_def)
      then have off': "\<not> sem_otime m" using on mem by blast
      have "\<forall>p \<in> set (sem_procs t). \<not> initialising p"
        unfolding t by (rule one_initialises_last [OF one ini n]) (use dummy in \<open>simp add: initialising_def\<close>)
      moreover have "one_initialises (sem_procs t)" unfolding t by (rule one_initialises_update [OF one n]) (rule ini)
      moreover have "sum_list (map operated (sem_procs t)) = 0"
        unfolding t using off [OF off'] dummy by (intro operated_none all_update) auto
      ultimately show ?thesis using dummy by (simp add: sem_inv_def)
    next
      case (ready j)
      have "one_initialises (sem_procs t)" unfolding t
        by (rule one_initialises_update [OF one n]) (use ready in \<open>simp add: initialising_def\<close>)
      moreover have "(\<forall>p \<in> set (sem_procs t). \<not> initialising p) \<and> semval m = sum_list (map operated (sem_procs t))"
        using on ready calm_update [OF _ n, of "?p\<lparr>s_pc := q\<rparr>"] by (simp add: t operated_def initialising_def)
      ultimately show ?thesis using ready by (simp add: sem_inv_def)
    next
      case oper
      then have o: "sem_otime m" using off mem by blast
      have "one_initialises (sem_procs t)" unfolding t
        by (rule one_initialises_update [OF one n]) (use oper in \<open>simp add: initialising_def\<close>)
      moreover have "(\<forall>p \<in> set (sem_procs t). \<not> initialising p) \<and>
          semval m + short_of (op_arg ?p) = sum_list (map operated (sem_procs t))"
        using on [OF o] oper calm_update [OF _ n, of "?p\<lparr>s_pc := q\<rparr>"] by (simp add: t operated_def initialising_def)
      ultimately show ?thesis using oper by (simp add: sem_inv_def)
    qed
  qed
qed

subsection \<open>Progress\<close>

definition sem_rank :: "sem_proc \<Rightarrow> nat" where
  "sem_rank p =
     (case s_pc p of
        S_Create \<Rightarrow> 14 | S_Get \<Rightarrow> 13 | S_Try j \<Rightarrow> 2 + (MAX_TRIES - j) | S_Setval \<Rightarrow> 3 | S_Dummy \<Rightarrow> 2 | S_Op \<Rightarrow> 1 | S_End _ \<Rightarrow> 0)"

definition sem_work :: "sem_world \<Rightarrow> nat" where
  "sem_work s = sum_list (map sem_rank (sem_procs s))"

lemma good_init_rank: "good_init v ok p k = Some (q, k') \<Longrightarrow> sem_rank (p\<lparr>s_pc := q\<rparr>) < sem_rank p"
  by (cases "s_pc p"; cases ok)
    (auto simp: good_init_def after_semop_def sem_rank_def MAX_TRIES_def split: option.splits semop_result.splits if_splits)

lemma sem_work_less:
  assumes "sem_step (good_init v) l s = Some t"
  shows "sem_work t < sem_work s"
proof -
  obtain n q where n: "n < length (sem_procs s)" and p: "good_init v (snd l) (sem_procs s ! n) (sem s) = Some (q, sem t)"
    and t: "sem_procs t = (sem_procs s)[n := (sem_procs s ! n)\<lparr>s_pc := q\<rparr>]"
    using assms by (rule sem_stepE)
  show ?thesis using sum_list_update_nat [OF n, of sem_rank "(sem_procs s ! n)\<lparr>s_pc := q\<rparr>"] good_init_rank [OF p] by (simp add: sem_work_def t)
qed

text \<open>Every process has ended, or it waits for a value that only another operation can bring about.\<close>

definition settled :: "sem_world \<Rightarrow> bool" where
  "settled s \<longleftrightarrow>
     (\<forall>p \<in> set (sem_procs s). (\<exists>c. s_pc p = S_End c) \<or>
        s_pc p = S_Op \<and> (\<exists>m. sem s = Some m \<and> semop (short_of (op_arg p)) m = Sem_Waits))"

definition calls_succeed :: "(nat \<times> bool) set" where
  "calls_succeed = {(i, True) | i. True}"

lemma good_init_waits:
  assumes i: "sem_inv s" and p: "p \<in> set (sem_procs s)" and w: "good_init v True p (sem s) = None"
  shows "(\<exists>c. s_pc p = S_End c) \<or> s_pc p = S_Op \<and> (\<exists>m. sem s = Some m \<and> semop (short_of (op_arg p)) m = Sem_Waits)"
proof (cases "s_pc p = S_Dummy")
  case True
  then obtain m where m: "sem s = Some m" using i p by (cases "sem s") (auto simp: sem_inv_def)
  have "initialising p" using True by (simp add: initialising_def)
  then have "semval m = 0" using i p m True by (auto simp: sem_inv_def Let_def split: if_splits)
  then show ?thesis using w True m by (simp add: good_init_def after_semop_def semop_def)
qed (use w in \<open>auto simp: good_init_def after_semop_def split: sem_pc.splits option.splits semop_result.splits if_splits\<close>)

lemma sem_not_stuck:
  assumes i: "sem_inv s" and n: "\<not> settled s"
  shows "can_act calls_succeed (sem_step (good_init v)) s"
proof -
  obtain p where p: "p \<in> set (sem_procs s)" "good_init v True p (sem s) \<noteq> None"
    using n good_init_waits [OF i] unfolding settled_def by meson
  then obtain j where "j < length (sem_procs s)" "sem_procs s ! j = p" by (auto simp: in_set_conv_nth)
  then have "sem_step (good_init v) (j, True) s \<noteq> None" using p(2) by (auto simp: sem_step_def)
  then show ?thesis by (auto simp: can_act_def calls_succeed_def)
qed

interpretation semset_use: thread_progress "sem_step (good_init v)" sem_inv calls_succeed sem_work settled for v
  by unfold_locales (use sem_inv_step sem_work_less sem_not_stuck in blast)+

lemma sem_inv_start: "sem_inv (sem_start ns)"
  by (auto simp: sem_inv_def sem_start_def)

lemma sem_invD:
  assumes "sem_inv s"
  shows "sem s = Some m \<Longrightarrow> sem_otime m \<Longrightarrow> semval m = sum_list (map operated (sem_procs s))"
    and "p \<in> set (sem_procs s) \<Longrightarrow> s_pc p = S_End 0 \<Longrightarrow> \<exists>m. sem s = Some m \<and> sem_otime m"
  using assms by (fastforce simp: sem_inv_def Let_def split: option.splits if_splits)+

text \<open>
  C7: with any number of processes, whatever value the semaphore has when it is created, whichever process creates it and
  whichever calls fail, no operation is lost: once one has been performed the value is the sum of all that succeeded.  The processes end,
  except those that wait for a value that an operation of another process would have to bring about.
\<close>

theorem svsem_good_init:
  "(\<forall>s. run (sem_step (good_init v)) (sem_start ns) s \<longrightarrow>
      (\<forall>m. sem s = Some m \<longrightarrow> sem_otime m \<longrightarrow>
         semval m = (\<Sum>p \<leftarrow> sem_procs s. if s_pc p = S_End 0 then short_of (op_arg p) else 0)) \<and>
      ((\<exists>p \<in> set (sem_procs s). s_pc p = S_End 0) \<longrightarrow> (\<exists>m. sem s = Some m \<and> sem_otime m)) \<and>
      (\<forall>l t. sem_step (good_init v) l s = Some t \<longrightarrow> sem_work t < sem_work s) \<and>
      (\<not> settled s \<longrightarrow> can_act calls_succeed (sem_step (good_init v)) s)) \<and>
   (\<exists>s. run (sem_step (good_init v)) (sem_start ns) s \<and> settled s)"
proof (intro conjI allI impI)
  show "\<exists>s. run (sem_step (good_init v)) (sem_start ns) s \<and> settled s" by (rule semset_use.finishes [OF sem_inv_start])
  fix s assume "run (sem_step (good_init v)) (sem_start ns) s"
  then have i: "sem_inv s" using semset_use.inv_run sem_inv_start by blast
  show "sem_work t < sem_work s" if "sem_step (good_init v) l s = Some t" for l t by (rule sem_work_less [OF that])
  show "can_act calls_succeed (sem_step (good_init v)) s" if "\<not> settled s" by (rule sem_not_stuck [OF i that])
  show "\<exists>m. sem s = Some m \<and> sem_otime m" if "\<exists>p \<in> set (sem_procs s). s_pc p = S_End 0" using that sem_invD(2) [OF i] by blast
  show "semval m = (\<Sum>p \<leftarrow> sem_procs s. if s_pc p = S_End 0 then short_of (op_arg p) else 0)"
    if "sem s = Some m" "sem_otime m" for m
    using sem_invD(1) [OF i that] by (simp add: operated_def [abs_def])
qed

text \<open>The second process finds the semaphore while the first has not set it yet, and waits.\<close>

theorem svsem_good_init_witness:
  "\<exists>s m. run (sem_step (good_init 7)) (sem_start [2, 3]) s \<and> sem s = Some m \<and> semval m = 5"
proof -
  have "case exec (sem_step (good_init 7)) [(0, True), (1, True), (1, True), (1, True), (0, True), (0, True), (1, True), (1, True), (0, True)]
      (sem_start [2, 3]) of None \<Rightarrow> False
    | Some s \<Rightarrow> map s_pc (sem_procs s) = [S_End 0, S_End 0] \<and> map op_arg (sem_procs s) = [2, 3]"
    by (simp add: sem_step_def good_init_def after_semop_def semop_def sem_start_def short_of_def SEMVMX_def MAX_TRIES_def)
  then obtain s where r: "run (sem_step (good_init 7)) (sem_start [2, 3]) s"
    and s: "map s_pc (sem_procs s) = [S_End 0, S_End 0]" "map op_arg (sem_procs s) = [2, 3]"
    by (rule exec_reaches) auto
  obtain p q where ps: "sem_procs s = [p, q]" "s_pc p = S_End 0" "s_pc q = S_End 0" "op_arg p = 2" "op_arg q = 3" using s by auto
  have "\<exists>m. sem s = Some m \<and> sem_otime m \<and> semval m = short_of 2 + short_of 3"
    using svsem_good_init [of 7 "[2, 3]"] r ps by fastforce
  then show ?thesis using r by (auto simp: short_of_def)
qed

text \<open>
  The other program loses operations: the creator sets the semaphore after another process has incremented it, and the value is
  1 after two increments.
\<close>

theorem svsem_bad_init_loses:
  "\<exists>s m. run (sem_step (bad_init v)) (sem_start [1, 1]) s \<and> (\<forall>p \<in> set (sem_procs s). s_pc p = S_End 0) \<and> sem s = Some m \<and> semval m = 1"
  if "v < SEMVMX"
proof -
  have "case exec (sem_step (bad_init v)) [(0, True), (1, True), (1, True), (1, True), (0, True), (0, True)] (sem_start [1, 1]) of
      None \<Rightarrow> False
    | Some s \<Rightarrow> (\<forall>p \<in> set (sem_procs s). s_pc p = S_End 0) \<and> sem s = Some \<lparr> semval = 1, sem_otime = True \<rparr>"
    using that by (simp add: sem_step_def bad_init_def after_semop_def semop_def sem_start_def SEMVMX_def)
  then show ?thesis by (rule exec_reaches) auto
qed

end
