(* ===== verification/Region_Locking.thy ===== *)
theory Region_Locking
  imports C_String Threads
begin

text \<open>
  Record locks: \<open>filelock/region_locking.c\<close> and, built on it, \<open>filelock/create_pid_file.c\<close>, which is to let only one instance of a
  program run.  The table of the locks on a file follows the description of \<open>fcntl\<close>: a lock belongs to a process, and setting a lock
  replaces what the process had locked of the region.
\<close>

subsection \<open>The table of locks\<close>

datatype lock_type = F_RDLCK | F_WRLCK | F_UNLCK

text \<open>A region starts at \<open>l_start\<close> and ends before \<open>l_end\<close>, or has no end.\<close>

record flock =
  l_pid :: int
  l_type :: lock_type
  l_start :: int
  l_end :: "int option"

definition before :: "int \<Rightarrow> int option \<Rightarrow> bool" where
  "before b e = (case e of None \<Rightarrow> True | Some n \<Rightarrow> b < n)"

definition covers :: "flock \<Rightarrow> int \<Rightarrow> bool" where
  "covers f b \<longleftrightarrow> l_start f \<le> b \<and> before b (l_end f)"

definition overlaps :: "flock \<Rightarrow> flock \<Rightarrow> bool" where
  "overlaps f g \<longleftrightarrow> before (l_start f) (l_end g) \<and> before (l_start g) (l_end f)"

definition conflicts :: "flock \<Rightarrow> flock \<Rightarrow> bool" where
  "conflicts f g \<longleftrightarrow> l_pid f \<noteq> l_pid g \<and> overlaps f g \<and> (l_type f = F_WRLCK \<or> l_type g = F_WRLCK)"

text \<open>What is left of the lock \<open>g\<close> when its owner sets \<open>f\<close>.\<close>

definition cut :: "flock \<Rightarrow> flock \<Rightarrow> flock list" where
  "cut f g =
     (if l_pid g = l_pid f \<and> overlaps f g then
        (if l_start g < l_start f then [g\<lparr>l_end := Some (l_start f)\<rparr>] else []) @
        (case l_end f of None \<Rightarrow> [] | Some e \<Rightarrow> if before e (l_end g) then [g\<lparr>l_start := e\<rparr>] else [])
      else [g])"

definition EAGAIN :: errno where [errno_defs]: "EAGAIN = 11"

definition set_lock :: "flock \<Rightarrow> flock list \<Rightarrow> flock list sysres" where
  "set_lock f ls =
     (if l_type f \<noteq> F_UNLCK \<and> list_ex (conflicts f) ls then Inl EAGAIN
      else Inr (concat (map (cut f) ls) @ (if l_type f = F_UNLCK then [] else [f])))"

subsection \<open>The functions for regions\<close>

datatype whence = SEEK_SET | SEEK_CUR | SEEK_END

datatype lock_cmd = F_SETLK | F_SETLKW

text \<open>An open file, with its offset, its size and the locks on it.\<close>

record lock_file =
  f_offset :: int
  f_size :: int
  f_locks :: "flock list"

definition region_of :: "lock_file \<Rightarrow> int \<Rightarrow> lock_type \<Rightarrow> whence \<Rightarrow> int \<Rightarrow> int \<Rightarrow> flock" where
  "region_of f pid type wh start len =
     (let s = start + (case wh of SEEK_SET \<Rightarrow> 0 | SEEK_CUR \<Rightarrow> f_offset f | SEEK_END \<Rightarrow> f_size f) in
      if len > 0 then \<lparr> l_pid = pid, l_type = type, l_start = s, l_end = Some (s + len) \<rparr>
      else if len = 0 then \<lparr> l_pid = pid, l_type = type, l_start = s, l_end = None \<rparr>
      else \<lparr> l_pid = pid, l_type = type, l_start = s + len, l_end = Some s \<rparr>)"

text \<open>The result is \<^const>\<open>None\<close> while the process waits.\<close>

definition lockReg :: "int \<Rightarrow> lock_cmd \<Rightarrow> lock_type \<Rightarrow> whence \<Rightarrow> int \<Rightarrow> int \<Rightarrow> lock_file \<Rightarrow> (unit sysres \<times> lock_file) option" where
  "lockReg pid cmd type wh start len f =
     (let r = region_of f pid type wh start len in
      if l_start r < 0 then Some (Inl EINVAL, f)
      else case set_lock r (f_locks f) of
             Inr ls \<Rightarrow> Some (Inr (), f\<lparr>f_locks := ls\<rparr>)
           | Inl e \<Rightarrow> if cmd = F_SETLKW then None else Some (Inl e, f))"

definition lockRegion :: "int \<Rightarrow> lock_type \<Rightarrow> whence \<Rightarrow> int \<Rightarrow> int \<Rightarrow> lock_file \<Rightarrow> (unit sysres \<times> lock_file) option" where
  "lockRegion pid type wh start len f = lockReg pid F_SETLK type wh start len f"

definition lockRegionWait :: "int \<Rightarrow> lock_type \<Rightarrow> whence \<Rightarrow> int \<Rightarrow> int \<Rightarrow> lock_file \<Rightarrow> (unit sysres \<times> lock_file) option" where
  "lockRegionWait pid type wh start len f = lockReg pid F_SETLKW type wh start len f"

definition regionIsLocked :: "int \<Rightarrow> lock_type \<Rightarrow> whence \<Rightarrow> int \<Rightarrow> int \<Rightarrow> lock_file \<Rightarrow> int" where
  "regionIsLocked pid type wh start len f =
     (let r = region_of f pid type wh start len in
      if l_start r < 0 \<or> type = F_UNLCK then - 1
      else case List.find (conflicts r) (f_locks f) of None \<Rightarrow> 0 | Some g \<Rightarrow> l_pid g)"

subsection \<open>Locks as a function of the byte\<close>

definition region_ok :: "flock \<Rightarrow> bool" where
  "region_ok f \<longleftrightarrow> 0 \<le> l_start f \<and> before (l_start f) (l_end f)"

text \<open>The lock a process has on a byte, as a relation on the table.\<close>

definition holds :: "flock list \<Rightarrow> int \<Rightarrow> int \<Rightarrow> lock_type \<Rightarrow> bool" where
  "holds ls pid b t \<longleftrightarrow> (\<exists>f \<in> set ls. l_pid f = pid \<and> covers f b \<and> l_type f = t)"

definition locks_ok :: "flock list \<Rightarrow> bool" where
  "locks_ok ls \<longleftrightarrow> (\<forall>f \<in> set ls. region_ok f \<and> l_type f \<noteq> F_UNLCK) \<and> (\<forall>f \<in> set ls. \<forall>g \<in> set ls. \<not> conflicts f g)"

lemma overlaps_iff:
  assumes "region_ok f" "region_ok g"
  shows "overlaps f g \<longleftrightarrow> (\<exists>b. covers f b \<and> covers g b)"
proof
  assume "overlaps f g"
  then have "covers f (max (l_start f) (l_start g)) \<and> covers g (max (l_start f) (l_start g))"
    using assms by (auto simp: overlaps_def region_ok_def covers_def max_def)
  then show "\<exists>b. covers f b \<and> covers g b" by blast
qed (use assms in \<open>auto simp: overlaps_def covers_def region_ok_def before_def split: option.splits\<close>)

lemma covers_cut:
  assumes "region_ok f" "region_ok g"
  shows "(\<exists>h \<in> set (cut f g). covers h b) \<longleftrightarrow> covers g b \<and> \<not> (l_pid g = l_pid f \<and> covers f b)"
  using assms by (auto simp: cut_def covers_def before_def region_ok_def overlaps_def split: option.splits)

lemma cut_owner: "h \<in> set (cut f g) \<Longrightarrow> l_pid h = l_pid g \<and> l_type h = l_type g"
  by (auto simp: cut_def split: option.splits if_splits)

lemma cut_region: "region_ok f \<Longrightarrow> region_ok g \<Longrightarrow> h \<in> set (cut f g) \<Longrightarrow> region_ok h"
  by (auto simp: cut_def region_ok_def before_def overlaps_def split: option.splits if_splits)

definition blocked :: "flock \<Rightarrow> flock list \<Rightarrow> bool" where
  "blocked f ls \<longleftrightarrow> (\<exists>b p t. covers f b \<and> p \<noteq> l_pid f \<and> holds ls p b t \<and> (l_type f = F_WRLCK \<or> t = F_WRLCK))"

lemma conflicts_iff:
  assumes "region_ok f" "locks_ok ls"
  shows "list_ex (conflicts f) ls \<longleftrightarrow> blocked f ls"
proof
  assume "list_ex (conflicts f) ls"
  then obtain g where g: "g \<in> set ls" "conflicts f g" by (auto simp: list_ex_iff)
  then obtain b where "covers f b" "covers g b"
    using overlaps_iff [OF assms(1)] assms(2) by (auto simp: locks_ok_def conflicts_def)
  then show "blocked f ls" using g unfolding blocked_def holds_def conflicts_def by metis
next
  assume "blocked f ls"
  then obtain b g where g: "covers f b" "g \<in> set ls" "covers g b" "l_pid g \<noteq> l_pid f" "l_type f = F_WRLCK \<or> l_type g = F_WRLCK"
    by (auto simp: blocked_def holds_def)
  then have "conflicts f g" using overlaps_iff [OF assms(1)] assms(2) by (auto simp: conflicts_def locks_ok_def)
  then show "list_ex (conflicts f) ls" using g(2) by (auto simp: list_ex_iff)
qed

lemma set_lockE:
  assumes "set_lock f ls = Inr ls'"
  obtains "ls' = concat (map (cut f) ls) @ (if l_type f = F_UNLCK then [] else [f])"
    "l_type f = F_UNLCK \<or> \<not> list_ex (conflicts f) ls"
  using assms by (auto simp: set_lock_def split: if_splits)

lemma holds_cut:
  assumes "locks_ok ls" "region_ok f"
  shows "holds (concat (map (cut f) ls)) p b t \<longleftrightarrow> holds ls p b t \<and> \<not> (p = l_pid f \<and> covers f b)"
proof
  assume "holds (concat (map (cut f) ls)) p b t"
  then obtain g h where gh: "g \<in> set ls" "h \<in> set (cut f g)" "l_pid h = p" "covers h b" "l_type h = t" by (auto simp: holds_def)
  then have "covers g b \<and> \<not> (l_pid g = l_pid f \<and> covers f b)"
    using covers_cut [OF assms(2), of g b] assms(1) by (auto simp: locks_ok_def)
  then show "holds ls p b t \<and> \<not> (p = l_pid f \<and> covers f b)" using gh cut_owner [OF gh(2)] by (auto simp: holds_def)
next
  assume "holds ls p b t \<and> \<not> (p = l_pid f \<and> covers f b)"
  then obtain g where g: "g \<in> set ls" "l_pid g = p" "covers g b" "l_type g = t" "\<not> (p = l_pid f \<and> covers f b)" by (auto simp: holds_def)
  then obtain h where "h \<in> set (cut f g)" "covers h b"
    using covers_cut [OF assms(2), of g b] assms(1) by (auto simp: locks_ok_def)
  then show "holds (concat (map (cut f) ls)) p b t" using g cut_owner [of h f g] by (auto simp: holds_def)
qed

lemma set_lock_holds:
  assumes "locks_ok ls" "region_ok f" "set_lock f ls = Inr ls'"
  shows "holds ls' p b t \<longleftrightarrow> (if p = l_pid f \<and> covers f b then t = l_type f \<and> t \<noteq> F_UNLCK else holds ls p b t)"
  using assms(3)
proof (rule set_lockE)
  assume "ls' = concat (map (cut f) ls) @ (if l_type f = F_UNLCK then [] else [f])"
  then have "holds ls' p b t \<longleftrightarrow> holds (concat (map (cut f) ls)) p b t \<or> l_type f \<noteq> F_UNLCK \<and> p = l_pid f \<and> covers f b \<and> t = l_type f"
    by (auto simp: holds_def)
  then show ?thesis unfolding holds_cut [OF assms(1,2)] by auto
qed

text \<open>A lock that another process could not be refused is not refused after a cut.\<close>

lemma conflicts_cut:
  assumes "region_ok f" "region_ok g" "region_ok k" "h \<in> set (cut f g)" "conflicts h k"
  shows "conflicts g k"
proof -
  have h: "region_ok h" using cut_region assms by blast
  then obtain b where b: "covers h b" "covers k b" using assms overlaps_iff [OF h] by (auto simp: conflicts_def)
  then have "covers g b" using covers_cut [OF assms(1,2), of b] assms(4) by blast
  then show ?thesis using assms b cut_owner [OF assms(4)] overlaps_iff by (auto simp: conflicts_def)
qed

lemma conflicts_sym: "conflicts f g \<longleftrightarrow> conflicts g f"
  by (auto simp: conflicts_def overlaps_def)

lemma set_lock_ok:
  assumes ok: "locks_ok ls" and f: "region_ok f" and s: "set_lock f ls = Inr ls'"
  shows "locks_ok ls'"
  using s
proof (rule set_lockE)
  assume ls': "ls' = concat (map (cut f) ls) @ (if l_type f = F_UNLCK then [] else [f])"
    and free: "l_type f = F_UNLCK \<or> \<not> list_ex (conflicts f) ls"
  have pieces: "\<exists>g \<in> set ls. h \<in> set (cut f g) \<and> region_ok g \<and> l_type g \<noteq> F_UNLCK" if "h \<in> set (concat (map (cut f) ls))" for h
    using that ok by (auto simp: locks_ok_def)
  have reg: "region_ok h \<and> l_type h \<noteq> F_UNLCK" if "h \<in> set ls'" for h
  proof (cases "h \<in> set (concat (map (cut f) ls))")
    case True
    then show ?thesis using pieces cut_region [OF f] cut_owner by metis
  qed (use that ls' f in \<open>auto split: if_splits\<close>)
  have old: "\<exists>g \<in> set ls. conflicts g k" if "h \<in> set (concat (map (cut f) ls))" "conflicts h k" "region_ok k" for h k
    using pieces [OF that(1)] conflicts_cut [OF f _ that(3) _ that(2)] by blast
  have "\<not> conflicts h k" if hk: "h \<in> set ls'" "k \<in> set ls'" for h k
  proof
    assume c: "conflicts h k"
    have no: "\<not> conflicts g f" if "g \<in> set ls" "f \<in> set ls'" for g
      using free that reg conflicts_sym by (auto simp: list_ex_iff)
    consider "h \<in> set (concat (map (cut f) ls))" "k \<in> set (concat (map (cut f) ls))" | "h = f" "k = f"
      | "h \<in> set (concat (map (cut f) ls))" "k = f" | "h = f" "k \<in> set (concat (map (cut f) ls))"
      using hk ls' by (auto split: if_splits)
    then show False
    proof cases
      case 1
      obtain g where g: "g \<in> set ls" "conflicts g k" using old [OF 1(1) c] reg hk by blast
      then obtain g' where "g' \<in> set ls" "conflicts g' g"
        using old [OF 1(2), of g] conflicts_sym ok by (auto simp: locks_ok_def)
      then show False using g ok by (auto simp: locks_ok_def)
    next
      case 2
      then show False using c by (simp add: conflicts_def)
    next
      case 3
      then show False using old [OF 3(1)] c no hk f by blast
    next
      case 4
      then show False using old [OF 4(2), of f] c no hk f conflicts_sym by blast
    qed
  qed
  then show ?thesis using reg by (auto simp: locks_ok_def)
qed

lemma region_of_simps: "l_pid (region_of f pid type wh start len) = pid" "l_type (region_of f pid type wh start len) = type"
  by (simp_all add: region_of_def Let_def)

lemma region_of_ok: "0 \<le> l_start (region_of f pid type wh start len) \<Longrightarrow> region_ok (region_of f pid type wh start len)"
  by (auto simp: region_of_def region_ok_def before_def Let_def)

lemma locks_exclusive:
  assumes "locks_ok ls" "holds ls p b F_WRLCK" "holds ls q b t"
  shows "p = q"
proof (rule ccontr)
  assume "p \<noteq> q"
  obtain f g where fg: "f \<in> set ls" "l_pid f = p" "covers f b" "l_type f = F_WRLCK" "g \<in> set ls" "l_pid g = q" "covers g b"
    using assms(2,3) by (auto simp: holds_def)
  then have "conflicts f g" using overlaps_iff \<open>p \<noteq> q\<close> assms(1) by (auto simp: conflicts_def locks_ok_def)
  then show False using fg assms(1) by (auto simp: locks_ok_def)
qed

lemma find_conflict:
  assumes "\<forall>g \<in> set ls. 0 < l_pid g"
  shows "(case List.find (conflicts f) ls of None \<Rightarrow> 0 | Some g \<Rightarrow> l_pid g) = 0 \<longleftrightarrow> \<not> list_ex (conflicts f) ls"
proof (cases "List.find (conflicts f) ls")
  case None
  then have "\<not> list_ex (conflicts f) ls" by (auto simp: find_None_iff list_ex_iff)
  then show ?thesis using None by simp
next
  case (Some g)
  then have "g \<in> set ls" "conflicts f g" by (auto simp: find_Some_iff)
  then show ?thesis using Some assms by (auto simp: list_ex_iff)
qed


text \<open>The owner of bytes 0 to 9 unlocks bytes 3 to 4.\<close>

definition demo_lock_file :: lock_file where
  "demo_lock_file = \<lparr> f_offset = 0, f_size = 100,
     f_locks = [\<lparr> l_pid = 1, l_type = F_WRLCK, l_start = 0, l_end = Some 10 \<rparr>, \<lparr> l_pid = 2, l_type = F_RDLCK, l_start = 10, l_end = None \<rparr>] \<rparr>"


end
