(* ===== verification/Pid_File.thy ===== *)
theory Pid_File
  imports Region_Locking
begin

text \<open>
  \<open>createPidFile()\<close> of \<open>filelock/create_pid_file.c\<close>: instances of a program that open, lock and fill the same file run in all
  interleavings.  A file lives on when its name is removed, as long as an instance has it open.
\<close>

subsection \<open>The program\<close>

definition PID_BUF_SIZE :: nat where
  "PID_BUF_SIZE = 100"

definition pid_text :: "int \<Rightarrow> string" where
  "pid_text pid = snprintf PID_BUF_SIZE (show_int pid @ ''\<newline>'')"

text \<open>
  The points of control, with the number of the file the instance has opened: inside \<open>createPidFile()\<close>, after it has returned, and
  after the caller has removed the name of the file.
\<close>

datatype pid_pc = P_Open | P_Cloexec nat | P_Lock nat | P_Trunc nat | P_Write nat | P_Running nat | P_Deleted nat | P_End int

text \<open>The file the name refers to, all files with their locks and contents, and the instances.\<close>

record pid_world =
  link :: "nat option"
  inodes :: "(lock_file \<times> string) list"
  instances :: "pid_pc list"

definition new_inode :: "lock_file \<times> string" where
  "new_inode = (\<lparr> f_offset = 0, f_size = 0, f_locks = [] \<rparr>, [])"

text \<open>The end of a process releases its locks on the file \<open>n\<close>.\<close>

definition release_locks :: "int \<Rightarrow> nat \<Rightarrow> pid_world \<Rightarrow> (lock_file \<times> string) list" where
  "release_locks pid n s =
     (let (f, c) = inodes s ! n in (inodes s)[n := (f\<lparr>f_locks := filter (\<lambda>l. l_pid l \<noteq> pid) (f_locks f)\<rparr>, c)])"

text \<open>One call of \<open>createPidFile()\<close> after the other, \<open>ok\<close> when it succeeds; the next point of control, the files and the name.\<close>

definition createPidFile :: "bool \<Rightarrow> int \<Rightarrow> bool \<Rightarrow> pid_pc \<Rightarrow> pid_world \<Rightarrow> (pid_pc \<times> (lock_file \<times> string) list \<times> nat option) option" where
  "createPidFile cloexec pid ok pc s =
     (case pc of
        P_Open \<Rightarrow>
          if \<not> ok then Some (P_End 1, inodes s, link s)
          else let next = (if cloexec then P_Cloexec else P_Lock)
               in (case link s of
                     Some n \<Rightarrow> Some (next n, inodes s, link s)
                   | None \<Rightarrow> Some (next (length (inodes s)), inodes s @ [new_inode], Some (length (inodes s))))
      | P_Cloexec n \<Rightarrow> Some (if ok then P_Lock n else P_End 1, inodes s, link s)
      | P_Lock n \<Rightarrow>
          if \<not> ok then Some (P_End 1, inodes s, link s)
          else let (f, c) = inodes s ! n
               in (case lockRegion pid F_WRLCK SEEK_SET 0 0 f of
                     Some (Inr _, f') \<Rightarrow> Some (P_Trunc n, (inodes s)[n := (f', c)], link s)
                   | _ \<Rightarrow> Some (P_End 1, inodes s, link s))
      | P_Trunc n \<Rightarrow>
          if ok then Some (P_Write n, (inodes s)[n := ((fst (inodes s ! n))\<lparr>f_size := 0\<rparr>, [])], link s)
          else Some (P_End 1, release_locks pid n s, link s)
      | P_Write n \<Rightarrow>
          if ok then
            Some (P_Running n, (inodes s)[n := ((fst (inodes s ! n))\<lparr>f_size := int (length (pid_text pid))\<rparr>, pid_text pid)], link s)
          else Some (P_End 1, release_locks pid n s, link s)
      | _ \<Rightarrow> None)"

text \<open>
  \<open>Inst i ok\<close>: instance \<open>i\<close> makes its next call; \<open>Unlink i\<close>: it removes the name of the file, which only happens when \<open>del\<close>; \<open>Exit i\<close>: it ends.
\<close>

datatype plabel = Inst nat bool | Unlink nat | Exit nat

definition pid_step :: "bool \<Rightarrow> bool \<Rightarrow> int list \<Rightarrow> plabel \<Rightarrow> pid_world \<Rightarrow> pid_world option" where
  "pid_step del cloexec pids l s =
     (case l of
        Inst i ok \<Rightarrow>
          if i < length (instances s) then
            (case createPidFile cloexec (pids ! i) ok (instances s ! i) s of
               None \<Rightarrow> None
             | Some (q, ns, k) \<Rightarrow> Some \<lparr> link = k, inodes = ns, instances = (instances s)[i := q] \<rparr>)
          else None
      | Unlink i \<Rightarrow>
          if del \<and> i < length (instances s) then
            (case instances s ! i of
               P_Running n \<Rightarrow> Some (s\<lparr>link := None, instances := (instances s)[i := P_Deleted n]\<rparr>)
             | _ \<Rightarrow> None)
          else None
      | Exit i \<Rightarrow>
          if i < length (instances s) then
            (case instances s ! i of
               P_Running n \<Rightarrow> Some (s\<lparr>inodes := release_locks (pids ! i) n s, instances := (instances s)[i := P_End 0]\<rparr>)
             | P_Deleted n \<Rightarrow> Some (s\<lparr>inodes := release_locks (pids ! i) n s, instances := (instances s)[i := P_End 0]\<rparr>)
             | _ \<Rightarrow> None)
          else None)"

definition pid_start :: "int list \<Rightarrow> pid_world" where
  "pid_start pids = \<lparr> link = None, inodes = [], instances = replicate (length pids) P_Open \<rparr>"

subsection \<open>The invariant\<close>

text \<open>The process has locked the file.\<close>

definition owns :: "(lock_file \<times> string) list \<Rightarrow> int \<Rightarrow> nat \<Rightarrow> bool" where
  "owns ns pid n \<longleftrightarrow> n < length ns \<and> holds (f_locks (fst (ns ! n))) pid 0 F_WRLCK"

definition inst_ok :: "(lock_file \<times> string) list \<Rightarrow> int \<Rightarrow> pid_pc \<Rightarrow> bool" where
  "inst_ok ns pid pc \<longleftrightarrow>
     (case pc of
        P_Cloexec n \<Rightarrow> n < length ns
      | P_Lock n \<Rightarrow> n < length ns
      | P_Trunc n \<Rightarrow> owns ns pid n
      | P_Write n \<Rightarrow> owns ns pid n
      | P_Running n \<Rightarrow> owns ns pid n \<and> snd (ns ! n) = pid_text pid
      | P_Deleted n \<Rightarrow> owns ns pid n \<and> snd (ns ! n) = pid_text pid
      | _ \<Rightarrow> True)"

definition files_ok :: "(lock_file \<times> string) list \<Rightarrow> bool" where
  "files_ok ns \<longleftrightarrow> (\<forall>x \<in> set ns. locks_ok (f_locks (fst x)))"

definition pid_inv :: "bool \<Rightarrow> int list \<Rightarrow> pid_world \<Rightarrow> bool" where
  "pid_inv del pids s \<longleftrightarrow>
     files_ok (inodes s) \<and> length (instances s) = length pids \<and> (\<forall>i < length pids. inst_ok (inodes s) (pids ! i) (instances s ! i)) \<and>
     (\<forall>n. link s = Some n \<longrightarrow> n < length (inodes s)) \<and>
     (\<not> del \<longrightarrow> length (inodes s) \<le> 1 \<and> (link s = None \<longrightarrow> inodes s = []))"

text \<open>What a step of the process \<open>pid\<close> leaves to the others: their locks, and the contents of the files they have locked.\<close>

definition keeps :: "int \<Rightarrow> (lock_file \<times> string) list \<Rightarrow> (lock_file \<times> string) list \<Rightarrow> bool" where
  "keeps pid ns ns' \<longleftrightarrow> length ns \<le> length ns' \<and> (\<forall>q n. q \<noteq> pid \<longrightarrow> owns ns q n \<longrightarrow> owns ns' q n \<and> snd (ns' ! n) = snd (ns ! n))"

lemma keeps_inst_ok: "keeps pid ns ns' \<Longrightarrow> q \<noteq> pid \<Longrightarrow> inst_ok ns q pc \<Longrightarrow> inst_ok ns' q pc"
  by (auto simp: keeps_def inst_ok_def split: pid_pc.splits)

lemma keeps_refl: "keeps pid ns ns"
  by (simp add: keeps_def)

lemma owns_unique:
  assumes "files_ok ns" "owns ns p n" "owns ns q n"
  shows "p = q"
  using assms locks_exclusive [of "f_locks (fst (ns ! n))" p 0 q F_WRLCK] by (auto simp: files_ok_def owns_def)

text \<open>The owner of a file changes its contents or gives up its lock.\<close>

lemma keeps_owner:
  assumes ok: "files_ok ns" and p: "owns ns pid n"
  shows "keeps pid ns (ns[n := x])"
proof -
  have "q = pid" if "owns ns q n" for q using owns_unique [OF ok that p] .
  moreover have "ns[n := x] ! k = ns ! k" if "k \<noteq> n" for k using that by simp
  ultimately show ?thesis unfolding keeps_def owns_def by (metis length_list_update order_refl)
qed

lemma files_ok_update: "files_ok ns \<Longrightarrow> locks_ok (f_locks (fst x)) \<Longrightarrow> files_ok (ns[n := x])"
  using set_update_subset_insert [of ns n x] by (auto simp: files_ok_def)

lemma release_ok:
  assumes "files_ok (inodes s)" "n < length (inodes s)"
  shows "files_ok (release_locks pid n s)"
proof (cases "inodes s ! n")
  case (Pair f c)
  then have "locks_ok (f_locks f)" using assms nth_mem [OF assms(2)] by (force simp: files_ok_def)
  then have "locks_ok (filter (\<lambda>l. l_pid l \<noteq> pid) (f_locks f))" by (auto simp: locks_ok_def)
  then show ?thesis using Pair files_ok_update [OF assms(1)] by (simp add: release_locks_def)
qed

lemma owned_lock: "files_ok ns \<Longrightarrow> owns ns pid n \<Longrightarrow> locks_ok (f_locks (fst (ns ! n)))"
  by (auto simp: files_ok_def owns_def)

text \<open>A new lock on the whole file.\<close>

lemma lock_file_whole:
  assumes ok: "locks_ok (f_locks f)" and l: "lockRegion pid F_WRLCK SEEK_SET 0 0 f = Some (Inr u, f')"
  shows "locks_ok (f_locks f')" "holds (f_locks f') pid 0 F_WRLCK" "q \<noteq> pid \<Longrightarrow> holds (f_locks f) q 0 F_WRLCK \<Longrightarrow> holds (f_locks f') q 0 F_WRLCK"
proof -
  let ?r = "region_of f pid F_WRLCK SEEK_SET 0 0"
  have r: "region_ok ?r" "covers ?r 0" by (simp_all add: region_of_def region_ok_def covers_def before_def)
  obtain ls where s: "set_lock ?r (f_locks f) = Inr ls" "f' = f\<lparr>f_locks := ls\<rparr>"
    using l by (auto simp: lockRegion_def lockReg_def Let_def split: if_splits sum.splits)
  show "locks_ok (f_locks f')" using set_lock_ok [OF ok r(1) s(1)] s(2) by simp
  show "holds (f_locks f') pid 0 F_WRLCK" using set_lock_holds [OF ok r(1) s(1)] r(2) s(2) by (simp add: region_of_simps)
  show "holds (f_locks f') q 0 F_WRLCK" if "q \<noteq> pid" "holds (f_locks f) q 0 F_WRLCK"
    using set_lock_holds [OF ok r(1) s(1)] that s(2) by (simp add: region_of_simps)
qed

definition one_file :: "(lock_file \<times> string) list \<Rightarrow> nat option \<Rightarrow> bool" where
  "one_file ns k \<longleftrightarrow> length ns \<le> 1 \<and> (k = None \<longrightarrow> ns = [])"

text \<open>What the instance itself must ensure.\<close>

definition moves_well :: "int \<Rightarrow> pid_world \<Rightarrow> pid_pc \<times> (lock_file \<times> string) list \<times> nat option \<Rightarrow> bool" where
  "moves_well pid s r \<longleftrightarrow>
     (case r of (q, ns, k) \<Rightarrow> files_ok ns \<and> keeps pid (inodes s) ns \<and> inst_ok ns pid q \<and> (\<forall>n. k = Some n \<longrightarrow> n < length ns) \<and>
        (one_file (inodes s) (link s) \<longrightarrow> one_file ns k))"

lemma moves_wellI:
  assumes "files_ok ns" "keeps pid (inodes s) ns" "inst_ok ns pid q" "\<forall>n. link s = Some n \<longrightarrow> n < length ns" "length ns = length (inodes s)"
  shows "moves_well pid s (q, ns, link s)"
  using assms by (auto simp: moves_well_def one_file_def)

lemma moves_well_owner:
  assumes "files_ok (inodes s)" "owns (inodes s) pid n" "\<forall>n. link s = Some n \<longrightarrow> n < length (inodes s)"
    and "locks_ok (f_locks (fst x))" "inst_ok ((inodes s)[n := x]) pid q"
  shows "moves_well pid s (q, (inodes s)[n := x], link s)"
  using assms by (intro moves_wellI files_ok_update keeps_owner) auto

lemma moves_well_release:
  assumes ok: "files_ok (inodes s)" "owns (inodes s) pid n" and k: "\<forall>n. link s = Some n \<longrightarrow> n < length (inodes s)"
  shows "moves_well pid s (P_End c, release_locks pid n s, link s)"
proof -
  have "files_ok (release_locks pid n s)" using ok release_ok by (auto simp: owns_def)
  then show ?thesis
    using keeps_owner [OF ok] k by (intro moves_wellI) (auto simp: release_locks_def inst_ok_def split: prod.splits)
qed

lemma createPidFile_moves_well:
  assumes ok: "files_ok (inodes s)" "\<forall>n. link s = Some n \<longrightarrow> n < length (inodes s)" and i: "inst_ok (inodes s) pid pc"
    and c: "createPidFile cloexec pid b pc s = Some r"
  shows "moves_well pid s r"
proof (cases pc)
  case P_Open
  have new: "files_ok (inodes s @ [new_inode])" "keeps pid (inodes s) (inodes s @ [new_inode])"
    using ok(1) by (auto simp: files_ok_def new_inode_def locks_ok_def keeps_def owns_def nth_append)
  show ?thesis
  proof (cases "link s")
    case None
    then show ?thesis
      using c P_Open ok new keeps_refl
      by (auto simp: createPidFile_def moves_well_def inst_ok_def one_file_def split: if_splits)
  next
    case (Some n)
    then show ?thesis
      using c P_Open ok keeps_refl by (auto simp: createPidFile_def moves_well_def inst_ok_def split: if_splits)
  qed
next
  case (P_Cloexec n)
  then show ?thesis using c i ok keeps_refl by (auto simp: createPidFile_def moves_well_def inst_ok_def)
next
  case (P_Lock n)
  obtain f t where f: "inodes s ! n = (f, t)" by (cases "inodes s ! n")
  have n: "n < length (inodes s)" using i P_Lock by (simp add: inst_ok_def)
  have l: "locks_ok (f_locks f)" using ok(1) nth_mem [OF n] f by (force simp: files_ok_def)
  have fail: "moves_well pid s (P_End 1, inodes s, link s)" using ok keeps_refl by (auto simp: moves_well_def inst_ok_def)
  have lock: "moves_well pid s (P_Trunc n, (inodes s)[n := (f', t)], link s)"
    if "lockRegion pid F_WRLCK SEEK_SET 0 0 f = Some (Inr u, f')" for u f'
  proof (intro moves_wellI files_ok_update ok(1))
    note w = lock_file_whole [OF l that]
    show "locks_ok (f_locks (fst (f', t)))" "inst_ok ((inodes s)[n := (f', t)]) pid (P_Trunc n)"
      using w(1,2) n by (simp_all add: inst_ok_def owns_def)
    show "keeps pid (inodes s) ((inodes s)[n := (f', t)])"
      using w(3) f n by (auto simp: keeps_def owns_def nth_list_update)
  qed (use ok in simp_all)
  show ?thesis
    using c P_Lock f fail lock by (auto simp: createPidFile_def split: if_splits option.splits sum.splits prod.splits)
next
  case (P_Trunc n)
  then have o: "owns (inodes s) pid n" using i by (simp add: inst_ok_def)
  have "moves_well pid s (P_Write n, (inodes s)[n := ((fst (inodes s ! n))\<lparr>f_size := 0\<rparr>, [])], link s)"
    using o ok owned_lock [OF ok(1) o] by (intro moves_well_owner) (simp_all add: inst_ok_def owns_def)
  then show ?thesis using c P_Trunc moves_well_release [OF ok(1) o ok(2)] by (auto simp: createPidFile_def split: if_splits)
next
  case (P_Write n)
  then have o: "owns (inodes s) pid n" using i by (simp add: inst_ok_def)
  have "moves_well pid s (P_Running n,
      (inodes s)[n := ((fst (inodes s ! n))\<lparr>f_size := int (length (pid_text pid))\<rparr>, pid_text pid)], link s)"
    using o ok owned_lock [OF ok(1) o] by (intro moves_well_owner) (simp_all add: inst_ok_def owns_def)
  then show ?thesis using c P_Write moves_well_release [OF ok(1) o ok(2)] by (auto simp: createPidFile_def split: if_splits)
qed (use c in \<open>simp_all add: createPidFile_def\<close>)

lemma pid_invI:
  assumes inv: "pid_inv del pids s" and d: "distinct pids" and i: "i < length pids"
    and m: "moves_well (pids ! i) s (q, ns, k)"
  shows "pid_inv del pids \<lparr> link = k, inodes = ns, instances = (instances s)[i := q] \<rparr>"
proof -
  have len: "length (instances s) = length pids" and all: "\<And>j. j < length pids \<Longrightarrow> inst_ok (inodes s) (pids ! j) (instances s ! j)"
    using inv by (auto simp: pid_inv_def)
  have "inst_ok ns (pids ! j) ((instances s)[i := q] ! j)" if "j < length pids" for j
  proof (cases "j = i")
    case True
    then show ?thesis using m i len by (simp add: moves_well_def)
  next
    case False
    then have "pids ! j \<noteq> pids ! i" using d i that by (simp add: nth_eq_iff_index_eq)
    then show ?thesis using m all [OF that] False keeps_inst_ok by (auto simp: moves_well_def)
  qed
  then show ?thesis using inv m len by (auto simp: pid_inv_def moves_well_def one_file_def)
qed

lemma pid_inv_step:
  assumes d: "distinct pids" and inv: "pid_inv del pids s" and st: "pid_step del cloexec pids l s = Some t"
  shows "pid_inv del pids t"
proof -
  have ok: "files_ok (inodes s)" "\<forall>n. link s = Some n \<longrightarrow> n < length (inodes s)" and len: "length (instances s) = length pids"
    and all: "\<And>j. j < length pids \<Longrightarrow> inst_ok (inodes s) (pids ! j) (instances s ! j)"
    using inv by (auto simp: pid_inv_def)
  show ?thesis
  proof (cases l)
    case (Inst i b)
    then obtain q ns k where i: "i < length pids" and c: "createPidFile cloexec (pids ! i) b (instances s ! i) s = Some (q, ns, k)"
      and t: "t = \<lparr> link = k, inodes = ns, instances = (instances s)[i := q] \<rparr>"
      using st len by (auto simp: pid_step_def split: if_splits option.splits)
    show ?thesis
      unfolding t by (rule pid_invI [OF inv d i createPidFile_moves_well [OF ok all [OF i] c]])
  next
    case (Unlink i)
    then obtain n where i: "del" "i < length pids" "instances s ! i = P_Running n"
      and t: "t = s\<lparr>link := None, instances := (instances s)[i := P_Deleted n]\<rparr>"
      using st len by (auto simp: pid_step_def split: if_splits pid_pc.splits)
    have "inst_ok (inodes s) (pids ! i) (P_Deleted n)" using all [OF i(2)] i(3) by (simp add: inst_ok_def)
    then show ?thesis using inv i t by (auto simp: pid_inv_def nth_list_update)
  next
    case (Exit i)
    then obtain n where i: "i < length pids" "instances s ! i = P_Running n \<or> instances s ! i = P_Deleted n"
      and t: "t = s\<lparr>inodes := release_locks (pids ! i) n s, instances := (instances s)[i := P_End 0]\<rparr>"
      using st len by (auto simp: pid_step_def split: if_splits pid_pc.splits)
    have o: "owns (inodes s) (pids ! i) n" using all [OF i(1)] i(2) by (auto simp: inst_ok_def)
    have "t = \<lparr> link = link s, inodes = release_locks (pids ! i) n s, instances = (instances s)[i := P_End 0] \<rparr>" using t by simp
    then show ?thesis using pid_invI [OF inv d i(1) moves_well_release [OF ok(1) o ok(2)]] by simp
  qed
qed

interpretation pid_files: thread_invariant "pid_step del cloexec pids" "\<lambda>s. distinct pids \<and> pid_inv del pids s" for del cloexec pids
  by unfold_locales (use pid_inv_step in blast)

lemma pid_inv_start: "pid_inv del pids (pid_start pids)"
  by (simp add: pid_inv_def pid_start_def files_ok_def inst_ok_def)

definition running :: "pid_pc \<Rightarrow> nat \<Rightarrow> bool" where
  "running pc n \<longleftrightarrow> pc = P_Running n \<or> pc = P_Deleted n"

text \<open>
  C8: whatever calls fail and however the instances interleave, two instances that run have locked different files, and the file of a
  running instance holds its process ID; when no instance removes the name of the file, at most one instance runs at any time.
\<close>

theorem createPidFile_exclusive:
  assumes d: "distinct pids" and r: "run (pid_step del cloexec pids) (pid_start pids) s" and i: "i < length pids" "running (instances s ! i) n"
  shows "snd (inodes s ! n) = pid_text (pids ! i) \<and>
    (\<forall>j m. j < length pids \<longrightarrow> running (instances s ! j) m \<longrightarrow> j \<noteq> i \<longrightarrow> m \<noteq> n \<and> del)"
proof -
  have inv: "pid_inv del pids s" using pid_files.inv_run [OF r] d pid_inv_start by blast
  then have own: "owns (inodes s) (pids ! j) m \<and> snd (inodes s ! m) = pid_text (pids ! j)"
    if "j < length pids" "running (instances s ! j) m" for j m
    using that by (fastforce simp: pid_inv_def inst_ok_def running_def)
  have "m \<noteq> n" if j: "j < length pids" "running (instances s ! j) m" "j \<noteq> i" for j m
    using owns_unique [of "inodes s" "pids ! i" n "pids ! j"] own [OF i] own [OF j(1,2)] inv d i(1) j
    by (auto simp: pid_inv_def nth_eq_iff_index_eq)
  moreover have "m = n" if "\<not> del" "j < length pids" "running (instances s ! j) m" for j m
    using own [OF i] own [OF that(2,3)] inv that(1) by (auto simp: pid_inv_def owns_def)
  ultimately show ?thesis using own [OF i] by blast
qed

definition enter :: "nat \<Rightarrow> plabel list" where
  "enter i = [Inst i True, Inst i True, Inst i True]"

lemmas pid_eval = pid_step_def createPidFile_def pid_start_def enter_def lockRegion_def lockReg_def region_of_def set_lock_def new_inode_def
  release_locks_def conflicts_def overlaps_def before_def cut_def running_def numeral_3_eq_3

theorem createPidFile_exclusive_witness:
  "\<exists>s. run (pid_step False False [10, 20]) (pid_start [10, 20]) s \<and> running (instances s ! 0) 0 \<and> snd (inodes s ! 0) = pid_text 10 \<and>
     \<not> running (instances s ! 1) 0"
proof -
  have "case exec (pid_step False False [10, 20]) (Inst 1 True # Inst 0 True # enter 0 @ [Inst 1 True]) (pid_start [10, 20]) of
      None \<Rightarrow> False | Some s \<Rightarrow> running (instances s ! 0) 0"
    by (simp add: pid_eval)
  then obtain s where s: "run (pid_step False False [10, 20]) (pid_start [10, 20]) s" "running (instances s ! 0) 0" by (rule exec_reaches)
  moreover have "distinct [10 :: int, 20]" by simp
  ultimately show ?thesis using createPidFile_exclusive [of "[10, 20]" False False s 0 0] by fastforce
qed

text \<open>
  The caller is told to remove the file before it ends.  An instance that had opened the file before then locks a file without a
  name, and a third one creates and locks a new file: two instances run.
\<close>

theorem createPidFile_two_instances:
  "\<exists>s. run (pid_step True False [10, 20, 30]) (pid_start [10, 20, 30]) s \<and> running (instances s ! 1) 0 \<and> running (instances s ! 2) 1"
proof -
  have "case exec (pid_step True False [10, 20, 30])
      (Inst 0 True # enter 0 @ [Inst 1 True, Unlink 0, Exit 0] @ enter 1 @ Inst 2 True # enter 2) (pid_start [10, 20, 30]) of
      None \<Rightarrow> False | Some s \<Rightarrow> running (instances s ! 1) 0 \<and> running (instances s ! 2) 1"
    by (simp add: pid_eval)
  then show ?thesis by (rule exec_reaches) blast
qed

end
