(* ===== verification/Spec2Isabelle.thy ===== *)
theory Spec2Isabelle
  imports Prelude C_String Get_Num Error_Functions Stream_IO Solutions_IO Watch_Cache
    Inotify_Dtree Inotify_Events Inotify_Invariant Inotify_Props Xmalloc Environ Users Acl
    Proc_Tree Inet_Sockets Seqnum Sv_Sems Shm_Xfr Seccomp Seccomp_Unotify
    Threads Prod_Condvar Multijoin Thread_Incr Ns_Capable Getopt Userns
    Svmsg_File Svsem_Op Execlp System_Dup Change_Case Sigchld
    Sem_Init Region_Locking Pid_File
begin

text \<open>
  A verification development for the programs of the repository: the example programs and support
  libraries of \<open>src/tlpi-dist\<close> and the exercise solutions of \<open>src/tlpi-solutions\<close>, both in C for Linux.

  \<^bold>\<open>The program\<close>

  The repository is a collection of programs around a few shared libraries.  The development models the
  libraries and those programs that carry logic of their own:

  \<^item> \<open>lib\<close>: command-line numbers (\<open>get_num.c\<close>) and diagnostics (\<open>error_functions.c\<close>), used everywhere;
  \<^item> \<open>sockets\<close>: byte streams (\<open>rdwrn.c\<close>, \<open>read_line.c\<close>, \<open>read_line_buf.c\<close>), the internet socket library
    (\<open>inet_sockets.c\<close>) and the sequence number service built on them (\<open>is_seqnum_*.c\<close>), with its FIFO
    relative in \<open>pipes\<close> (\<open>fifo_seqnum_*.c\<close>);
  \<^item> \<open>inotify/inotify_dtree.c\<close>: a monitor that keeps a cache of watched directories consistent with a
    changing directory tree;
  \<^item> \<open>svsem\<close> and \<open>svshm\<close>: binary semaphores, event flags and a two-process transfer through shared memory;
  \<^item> \<open>svsem/svsem_good_init.c\<close> and \<open>svsem_bad_init.c\<close>: the creation and initialisation of a semaphore by one of several processes;
  \<^item> \<open>filelock\<close>: record locks (\<open>region_locking.c\<close>) and the file that lets one instance run (\<open>create_pid_file.c\<close>);
  \<^item> \<open>svmsg\<close>: a file server and its clients over message queues; \<open>svsem/svsem_op.c\<close>: semaphore operations from the
    command line;
  \<^item> \<open>procexec\<close>: implementations of \<open>execlp\<close> and \<open>system\<close>, and a parent that reaps its children in a signal handler
    (\<open>multi_SIGCHLD.c\<close>), beside the shell of \<open>namespaces/simple_init.c\<close>, which does it without blocking the signal;
  \<^item> \<open>pipes/change_case.c\<close>: a filter of two processes over two pipes;
  \<^item> \<open>threads\<close>: programs around mutexes and condition variables;
  \<^item> \<open>seccomp\<close>: filters for system calls as BPF programs, and the supervisors of filtered processes;
  \<^item> \<open>namespaces\<close> and \<open>cap\<close>: capabilities in nested user namespaces (\<open>ns_capable.c\<close>), and the execution of a
    command in new namespaces (\<open>userns_child_exec.c\<close> with \<open>userns_functions.c\<close> and \<open>cap_functions.c\<close>);
  \<^item> \<open>acl/acl_update.c\<close>, \<open>proc/setenv.c\<close>, \<open>users_groups/ugid_functions.c\<close>;
  \<^item> the solutions: file copying, scatter/gather input, the environment, a heap allocator, the user and
    group databases, process listing and the process tree.

  \<^bold>\<open>Conventions\<close>

  A C string is the list of the bytes before its null byte.  A call that fails is \<^term>\<open>Inl e\<close> with the error
  number.  Code that may end the process has an \<^typ>\<open>'a outcome\<close>: it returns, exits with a status, aborts, or
  its behaviour is undefined.  The kernel, the C library's databases, the ACL library and the network are
  not part of the repository: each such call is an argument, usually a field of a record, over an abstract
  world of type \<open>'w\<close>.  What the code relies on is a named predicate on that record (\<open>stream_source\<close>, \<open>sem_laws\<close>,
  \<open>acl_laws\<close>, \dots), which states the documented behaviour and is a hypothesis of the theorems that need it;
  each has a concrete instance, on which the witnesses run.  Machine integers are words where the code
  computes with wrap-around (\<open>size_t\<close> in the allocator, \<open>uint32_t\<close> in the sequence numbers, \<open>uid_t\<close>), and
  integers with explicit conversions elsewhere.

  \<^bold>\<open>Loops\<close>

  Loops over data are structural recursions.  Loops that may run forever because they retry an interrupted
  call or follow pointers (\<open>readn\<close>, \<open>readLine\<close>, the free list walks) are partial functions into \<open>option\<close>; the
  theorems prove that they return.  There is no fuel except the number of iterations of the servers, which
  never return.  Non-structural recursions have measures: the length of the unread text (\<open>parseACL\<close>), the
  width of the searched interval (\<open>bsearch\<close>), and, for printing the process tree, the room left in the
  line buffer, which every level of the tree uses up.

  \<^bold>\<open>Theories\<close>

  \<^descr> \<open>Prelude\<close>, \<open>C_String\<close>: shared types, lists, and the C string functions with \<open>strtol\<close> and decimal printing.
  \<^descr> \<open>Get_Num\<close>: \<open>getLong\<close> and \<open>getInt\<close> accept exactly the numbers they should, read back what is printed, and
    respect the range of the type.
  \<^descr> \<open>Error_Functions\<close>: the diagnostics, the flushing of standard output and \<open>errno\<close>.
  \<^descr> \<open>Stream_IO\<close>: \<open>readn\<close>, \<open>writen\<close> and \<open>readLine\<close> in spite of short transfers and interruptions; the buffered
    reader delivers the lines of the unbuffered one.
  \<^descr> \<open>Solutions_IO\<close>: \<open>cp\<close>, \<open>tee\<close>, \<open>readv\<close>/\<open>writev\<close>, append experiments, over a file system interface.
  \<^descr> \<open>Watch_Cache\<close>: the cache of \<open>inotify_dtree\<close> as a list of slots; it implements a map from descriptors to
    pathnames, and renaming rewrites exactly a subtree.
  \<^descr> \<open>Inotify_Dtree\<close>, \<open>Inotify_Events\<close>: the state of the monitor and all its functions, from building the
    watches to the processing of events and commands.
  \<^descr> \<open>Inotify_Invariant\<close>, \<open>Inotify_Props\<close>: the locale \<open>dtree_invariant\<close> of properties that every operation keeps,
    interpreted for the cache invariant and for the draining of events; distinct descriptors in every
    reachable state, the effect of renames and removals, and termination of the event loop.
  \<^descr> \<open>Xmalloc\<close>: the allocator over a heap of list nodes with 64-bit addresses.  The free list is related to
    the list of its blocks; insertion keeps it sorted and linked, \<open>xfree\<close> refines the abstract release with
    coalescing; three defects are proved.
  \<^descr> \<open>Environ\<close>: \<open>setenv\<close> and \<open>unsetenv\<close> of the book against the locale \<open>env_map\<close> of an environment as a map, and
    those of the exercise over a store of shared strings.
  \<^descr> \<open>Users\<close>: names and identifiers, \<open>getpwnam\<close>, \<open>initgroups\<close>, \<open>proclist\<close>.
  \<^descr> \<open>Acl\<close>: parsing of ACL specifications inverts their printing; \<open>updateACL\<close> refines the update of a map from
    tags and qualifiers to permissions.
  \<^descr> \<open>Proc_Tree\<close>: reading the process table, linking it by binary search, printing: every descendant of init
    is printed exactly once.
  \<^descr> \<open>Inet_Sockets\<close>, \<open>Seqnum\<close>: descriptors of the socket library; the servers grant consecutive ranges that do
    not overlap, over sockets and over FIFOs, and the client's request is read as it was meant.
  \<^descr> \<open>Sv_Sems\<close>, \<open>Shm_Xfr\<close>: semaphores, and the two transfer programs as processes that interleave: exclusive
    access, no loss of data, no deadlock, termination.

  \<^descr> \<open>Seccomp\<close>: the BPF programs of \<open>seccomp\<close> on the classic BPF machine: they are well formed and always decide,
    and what they decide; the precedence of two filters.
  \<^descr> \<open>Seccomp_Unotify\<close>: the supervisors that answer for a blocked system call: what they fetch from the target,
    and that every notification is answered.

  \<^descr> \<open>Threads\<close>: threads that interleave between their library calls, with the locales \<open>thread_invariant\<close> and
    \<open>thread_progress\<close>, which every thread program interprets.  \<open>Prod_Condvar\<close>: the producer/consumer program conserves
    its units, loses no wakeup and ends.  \<open>Multijoin\<close>: every thread is joined once, without deadlock.
    \<open>Thread_Incr\<close>: increments with a mutex are exact and without one can be lost; one-time initialisation.

  \<^descr> \<open>Ns_Capable\<close>: the walk up the tree of user namespaces with its file descriptors; the verdict printed, and
    the exit status, which a double close spoils.
  \<^descr> \<open>Getopt\<close>, \<open>Userns\<close>: the options of \<open>userns_child_exec\<close>, the map files written before the child proceeds, in all
    interleavings of parent and child, without deadlock; defects of the options and of the failure path.

  \<^descr> \<open>Svmsg_File\<close>: the file service as any number of sessions of client, queue and child beside the server: answers
    are right in every interleaving, and without failures the service runs to its end on bounded queues.
  \<^descr> \<open>Svsem_Op\<close>: parsing of semaphore operations inverts their notation; 16-bit truncation.
  \<^descr> \<open>Execlp\<close>: the search of \<open>PATH\<close> against its specification, and two overflows.
  \<^descr> \<open>System_Dup\<close>: signal settings around \<open>system\<close>; \<open>xdup2\<close> against \<open>dup2\<close>.
  \<^descr> \<open>Change_Case\<close>: parent and child over two pipes print the input in upper case, without deadlock.
  \<^descr> \<open>Sigchld\<close>: every child is reaped though signals are lost; without blocking the signal the shell can sleep for ever.
  \<^descr> \<open>Sem_Init\<close>: no semaphore operation is lost when processes start together, unless they do not wait for the initialisation.
  \<^descr> \<open>Region_Locking\<close>, \<open>Pid_File\<close>: a table of locked regions implements locks on bytes; on top of it, the instances of a program over
    one file, at most one of which runs unless the file is removed.

  \<^bold>\<open>Not modelled\<close>

  Programs that only demonstrate one call or print what the kernel reports (most of \<open>signals\<close>, \<open>timers\<close>,
  \<open>procexec\<close>, \<open>pgsjc\<close>, \<open>sysinfo\<close>, \<open>procpri\<close>, \<open>procres\<close>, \<open>cap\<close>, \<open>namespaces\<close>, \<open>cgroups\<close>, \<open>vmem\<close>, \<open>mmap\<close>, \<open>shlibs\<close>, \<open>pmsg\<close>,
  \<open>altio\<close>, \<open>tty\<close>, \<open>pty\<close>, \<open>files\<close>, \<open>dirs_links\<close>): they have no state or result of their own.  The commands that create, list or
  delete one IPC object, and the echo servers and ancillary data programs of \<open>sockets\<close>: they are sequences of calls whose results only the
  kernel determines.  In \<open>namespaces/simple_init.c\<close> the mount of \<open>/proc\<close> and the word expansion; in the seccomp supervisors the
  creation of the processes and the code of the target.  Generated code (\<open>ename.c.inc\<close>), the
  unit tests of the solutions, and the text of usage messages.
\<close>

end
